(* ===== verification/Prelude.thy ===== *)
theory Prelude
  imports Main "HOL-Library.Word"
begin

text \<open>
  What every component of the model shares: the faults a C++ operation can end in, the
  result type that carries them, the machine integers the sources use (with the
  wrap-around written out) and a few facts on lists.

  A fault is the end of the process: an uncaught \<open>std::out_of_range\<close>, an index past the
  end of a \<open>std::vector\<close>, or a dereference of a null or freed pointer.
\<close>

section \<open>Collections\<close>

named_theorems cstr_simps \<open>computation rules for the std::string and libc operations\<close>
named_theorems inv_intros \<open>preservation of the components' invariants\<close>

section \<open>Faults and results\<close>

datatype cpp_fault =
    Out_of_range      \<comment> \<open>\<open>std::string::substr\<close> beyond the end: an uncaught exception\<close>
  | Bad_index         \<comment> \<open>\<open>vector::operator[]\<close> beyond the end: undefined behaviour\<close>
  | Null_pointer      \<comment> \<open>a null, uninitialised or freed pointer is dereferenced\<close>
  | Process_exit      \<comment> \<open>the code calls \<open>exit\<close>\<close>

type_synonym 'a res = "cpp_fault + 'a"

definition rbind :: "'a res \<Rightarrow> ('a \<Rightarrow> 'b res) \<Rightarrow> 'b res" where
  "rbind m f = (case m of Inl e \<Rightarrow> Inl e | Inr x \<Rightarrow> f x)"

lemma rbind_simps [simp]:
  "rbind (Inl e) f = Inl e"
  "rbind (Inr x) f = f x"
  by (simp_all add: rbind_def)

lemma rbind_eq_Inr_iff:
  "rbind m f = Inr y \<longleftrightarrow> (\<exists>x. m = Inr x \<and> f x = Inr y)"
  by (cases m) auto

lemma Inr_eq_rbind_iff: "Inr y = rbind m f \<longleftrightarrow> (\<exists>x. m = Inr x \<and> f x = Inr y)"
  by (cases m) auto

lemma rbind_split:
  "P (rbind m f) \<longleftrightarrow> (\<forall>e. m = Inl e \<longrightarrow> P (Inl e)) \<and> (\<forall>x. m = Inr x \<longrightarrow> P (f x))"
  by (cases m) auto

lemma rbind_assoc: "rbind (rbind m f) g = rbind m (\<lambda>x. rbind (f x) g)"
  by (cases m) auto

lemma rbind_cong [fundef_cong]:
  "m = m' \<Longrightarrow> (\<And>x. m' = Inr x \<Longrightarrow> f x = f' x) \<Longrightarrow> rbind m f = rbind m' f'"
  by (cases m') auto

definition is_ok :: "'a res \<Rightarrow> bool" where
  "is_ok r = (case r of Inl _ \<Rightarrow> False | Inr _ \<Rightarrow> True)"

lemma is_ok_simps [simp]: "is_ok (Inr x)" "\<not> is_ok (Inl e)"
  by (simp_all add: is_ok_def)

lemma is_ok_iff: "is_ok r \<longleftrightarrow> (\<exists>x. r = Inr x)"
  by (cases r) auto

text \<open>\<open>vector::operator[]\<close>: reading past the end is a fault, not an arbitrary value.\<close>

definition vec_at :: "'a list \<Rightarrow> nat \<Rightarrow> 'a res" where
  "vec_at v i = (if i < length v then Inr (v ! i) else Inl Bad_index)"

lemma vec_at_ok [simp]: "i < length v \<Longrightarrow> vec_at v i = Inr (v ! i)"
  by (simp add: vec_at_def)

lemma vec_at_bad [simp]: "length v \<le> i \<Longrightarrow> vec_at v i = Inl Bad_index"
  by (simp add: vec_at_def)

section \<open>Machine integers\<close>

text \<open>
  \<open>uint64_t\<close> and \<open>size_t\<close> values are naturals below \<open>2 ^ 64\<close>, \<open>int\<close> values integers in
  \<open>[- 2 ^ 31, 2 ^ 31)\<close>. The conversions wrap as the compiler's do.
\<close>

definition to_u64 :: "int \<Rightarrow> nat" where
  "to_u64 i = nat (i mod 2 ^ 64)"

definition to_u32 :: "int \<Rightarrow> nat" where
  "to_u32 i = nat (i mod 2 ^ 32)"

definition to_i32 :: "int \<Rightarrow> int" where
  "to_i32 i = (i + 2 ^ 31) mod 2 ^ 32 - 2 ^ 31"

definition add64 :: "nat \<Rightarrow> nat \<Rightarrow> nat" where
  "add64 a b = (a + b) mod 2 ^ 64"

definition sub64 :: "nat \<Rightarrow> nat \<Rightarrow> nat" where
  "sub64 a b = to_u64 (int a - int b)"

definition is_u64 :: "nat \<Rightarrow> bool" where
  "is_u64 n \<longleftrightarrow> n < 2 ^ 64"

lemma to_u64_id [simp]: "0 \<le> i \<Longrightarrow> i < 2 ^ 64 \<Longrightarrow> to_u64 i = nat i"
  by (simp add: to_u64_def)

lemma to_u64_of_nat: "n < 2 ^ 64 \<Longrightarrow> to_u64 (int n) = n"
  by (simp add: to_u64_def)

lemma to_u64_bound: "to_u64 i < 2 ^ 64"
  by (simp add: to_u64_def nat_less_iff)

lemma to_i32_id: "- (2 ^ 31) \<le> i \<Longrightarrow> i < 2 ^ 31 \<Longrightarrow> to_i32 i = i"
  by (simp add: to_i32_def)

lemma to_i32_range: "- (2 ^ 31) \<le> to_i32 i \<and> to_i32 i < 2 ^ 31"
proof -
  have "0 \<le> (i + 2 ^ 31) mod 2 ^ 32" and "(i + 2 ^ 31) mod 2 ^ 32 < (2::int) ^ 32"
    by simp_all
  then show ?thesis unfolding to_i32_def by simp
qed

lemma add64_id [simp]: "a + b < 2 ^ 64 \<Longrightarrow> add64 a b = a + b"
  by (simp add: add64_def)

lemma add64_bound: "add64 a b < 2 ^ 64"
  by (simp add: add64_def)

lemma sub64_id: "b \<le> a \<Longrightarrow> a < 2 ^ 64 \<Longrightarrow> sub64 a b = a - b"
  by (simp add: sub64_def to_u64_def nat_diff_distrib)

lemma sub64_wrap: "a < b \<Longrightarrow> b < 2 ^ 64 \<Longrightarrow> sub64 a b = 2 ^ 64 - (b - a)"
proof -
  assume ab: "a < b" "b < 2 ^ 64"
  have "(int a - int b) mod 2 ^ 64 = (int a - int b + 2 ^ 64) mod 2 ^ 64" by simp
  also have "\<dots> = int a - int b + 2 ^ 64" using ab by (intro mod_pos_pos_trivial) auto
  finally show ?thesis using ab by (simp add: sub64_def to_u64_def nat_diff_distrib of_nat_diff)
qed

section \<open>Lists\<close>

lemma length_takeWhile_less: "length (takeWhile P s) < length s \<longleftrightarrow> (\<exists>c \<in> set s. \<not> P c)"
  by (induction s) auto

lemma takeWhile_stop:
  "(\<And>x. x \<in> set a \<Longrightarrow> P x) \<Longrightarrow> \<not> P y \<Longrightarrow> takeWhile P (a @ y # b) = a"
  by (induction a) auto

lemma takeWhile_all: "(\<And>x. x \<in> set a \<Longrightarrow> P x) \<Longrightarrow> takeWhile P a = a"
  by (induction a) auto

lemma take_drop_mid [simp]: "take (length b) (drop (length a) (a @ b @ c)) = b"
  by simp

lemma list_update_mid: "(a @ x # b)[length a := y] = a @ y # b"
  by simp

lemma distinct_map_fst_lookup:
  "distinct (map fst ps) \<Longrightarrow> (k, v) \<in> set ps \<Longrightarrow> map_of ps k = Some v"
  by simp

end
