(* ===== verification/CString.thy ===== *)
theory CString
  imports Prelude
begin

text \<open>
  The parts of \<open>std::string\<close> and of the C library that the sources call, on byte strings
  (\<open>char list\<close>; a HOL \<open>char\<close> is one byte): searching, \<open>substr\<close> with its exception,
  \<open>c_str\<close> (cut at the first NUL), \<open>strtol\<close>, \<open>atoi\<close>, \<open>strtoull\<close>, and what
  \<open>snprintf\<close> leaves in a buffer of a given size.
\<close>

section \<open>std::string\<close>

abbreviation CR :: char where "CR \<equiv> CHR 0x0D"
abbreviation LF :: char where "LF \<equiv> CHR 0x0A"
abbreviation NUL :: char where "NUL \<equiv> CHR 0x00"

definition crlf :: string where
  "crlf = [CR, LF]"

lemma length_crlf [simp]: "length crlf = 2"
  by (simp add: crlf_def)

lemma set_crlf [simp]: "set crlf = {CR, LF}"
  by (auto simp: crlf_def)

text \<open>\<open>find_first_of\<close>: \<open>None\<close> is \<open>npos\<close>.\<close>

definition find_first_of :: "string \<Rightarrow> string \<Rightarrow> nat \<Rightarrow> nat option" where
  "find_first_of s cs pos =
     (let n = pos + length (takeWhile (\<lambda>c. c \<notin> set cs) (drop pos s))
      in if n < length s then Some n else None)"

definition find_first_not_of :: "string \<Rightarrow> string \<Rightarrow> nat \<Rightarrow> nat option" where
  "find_first_not_of s cs pos =
     (let n = pos + length (takeWhile (\<lambda>c. c \<in> set cs) (drop pos s))
      in if n < length s then Some n else None)"

definition find_last_not_of :: "string \<Rightarrow> string \<Rightarrow> nat option" where
  "find_last_not_of s cs =
     (let n = length (takeWhile (\<lambda>c. c \<in> set cs) (rev s))
      in if n < length s then Some (length s - n - 1) else None)"

definition substr :: "string \<Rightarrow> nat \<Rightarrow> nat \<Rightarrow> string res" where
  "substr s pos n = (if length s < pos then Inl Out_of_range else Inr (take n (drop pos s)))"

text \<open>\<open>substr\<close> with the default length \<open>npos\<close>.\<close>

definition substr_from :: "string \<Rightarrow> nat \<Rightarrow> string res" where
  "substr_from s pos = (if length s < pos then Inl Out_of_range else Inr (drop pos s))"

lemma find_first_of_hit:
  assumes "\<And>c. c \<in> set b \<Longrightarrow> c \<notin> set cs" and "x \<in> set cs"
  shows "find_first_of (a @ b @ x # r) cs (length a) = Some (length a + length b)"
  using takeWhile_stop [of b "\<lambda>c. c \<notin> set cs" x r] assms
  by (simp add: find_first_of_def Let_def)

lemma find_first_of_none:
  assumes "\<And>c. c \<in> set (drop pos s) \<Longrightarrow> c \<notin> set cs"
  shows "find_first_of s cs pos = None"
proof -
  have "length (takeWhile (\<lambda>c. c \<notin> set cs) (drop pos s)) = length s - pos"
    using takeWhile_all [of "drop pos s" "\<lambda>c. c \<notin> set cs"] assms by (metis length_drop)
  then show ?thesis unfolding find_first_of_def Let_def by simp
qed

lemma find_first_of_Some:
  assumes "find_first_of s cs pos = Some n"
  shows "pos \<le> n" and "n < length s" and "s ! n \<in> set cs"
    and "\<forall>i. pos \<le> i \<and> i < n \<longrightarrow> s ! i \<notin> set cs"
proof -
  let ?P = "\<lambda>c. c \<notin> set cs"
  let ?t = "takeWhile ?P (drop pos s)"
  from assms have n: "n = pos + length ?t" and lt: "n < length s"
    by (auto simp: find_first_of_def Let_def split: if_splits)
  show "pos \<le> n" using n by simp
  show "n < length s" by (rule lt)
  have "length ?t < length (drop pos s)" using n lt by simp
  from nth_length_takeWhile [OF this] have "drop pos s ! length ?t \<in> set cs" by simp
  then show "s ! n \<in> set cs" using n lt by simp
  show "\<forall>i. pos \<le> i \<and> i < n \<longrightarrow> s ! i \<notin> set cs"
  proof (intro allI impI)
    fix i assume i: "pos \<le> i \<and> i < n"
    then have lt': "i - pos < length ?t" using n by linarith
    then have "?t ! (i - pos) \<in> set ?t" by (rule nth_mem)
    then have "?t ! (i - pos) \<notin> set cs" using set_takeWhileD by fastforce
    moreover have "?t ! (i - pos) = drop pos s ! (i - pos)"
      using lt' by (simp add: takeWhile_nth)
    ultimately show "s ! i \<notin> set cs" using i lt by simp
  qed
qed

lemma find_first_of_eq_None_iff:
  "find_first_of s cs pos = None \<longleftrightarrow> (\<forall>c \<in> set (drop pos s). c \<notin> set cs)"
proof
  assume none: "find_first_of s cs pos = None"
  let ?t = "takeWhile (\<lambda>c. c \<notin> set cs) (drop pos s)"
  from none have "length (drop pos s) \<le> length ?t"
    by (auto simp: find_first_of_def Let_def split: if_splits)
  then have "?t = drop pos s"
    by (metis takeWhile_eq_take take_all_iff)
  then show "\<forall>c \<in> set (drop pos s). c \<notin> set cs"
    by (metis set_takeWhileD)
next
  assume "\<forall>c \<in> set (drop pos s). c \<notin> set cs"
  then show "find_first_of s cs pos = None" by (blast intro: find_first_of_none)
qed

lemma substr_ok [simp]: "pos \<le> length s \<Longrightarrow> substr s pos n = Inr (take n (drop pos s))"
  by (simp add: substr_def)

lemma substr_from_ok [simp]: "pos \<le> length s \<Longrightarrow> substr_from s pos = Inr (drop pos s)"
  by (simp add: substr_from_def)

lemma substr_raises [simp]: "length s < pos \<Longrightarrow> substr s pos n = Inl Out_of_range"
  by (simp add: substr_def)

lemma substr_from_raises [simp]: "length s < pos \<Longrightarrow> substr_from s pos = Inl Out_of_range"
  by (simp add: substr_from_def)

section \<open>C strings\<close>

text \<open>The C string at \<open>c_str()\<close>, as the functions that stop at NUL see it.\<close>

definition cstr :: "string \<Rightarrow> string" where
  "cstr s = takeWhile (\<lambda>c. c \<noteq> NUL) s"

lemma cstr_id: "NUL \<notin> set s \<Longrightarrow> cstr s = s"
  unfolding cstr_def by (rule takeWhile_all) auto

lemma cstr_append: "NUL \<notin> set a \<Longrightarrow> cstr (a @ b) = a @ cstr b"
  unfolding cstr_def by (induction a) auto

lemma cstr_replicate_NUL [simp]: "cstr (replicate n NUL) = []"
  by (cases n) (simp_all add: cstr_def)

text \<open>\<open>snprintf (buf, n, \<dots>)\<close> into a zeroed buffer, read back as a C string.\<close>

definition snprintf_buf :: "nat \<Rightarrow> string \<Rightarrow> string" where
  "snprintf_buf n s = take (n - 1) s"

lemma snprintf_buf_fits: "length s < n \<Longrightarrow> snprintf_buf n s = s"
  by (simp add: snprintf_buf_def)

lemma snprintf_buf_length: "0 < n \<Longrightarrow> length (snprintf_buf n s) < n"
  by (simp add: snprintf_buf_def)

section \<open>Decimal numbers\<close>

definition is_digit :: "char \<Rightarrow> bool" where
  "is_digit c \<longleftrightarrow> 48 \<le> (of_char c :: nat) \<and> (of_char c :: nat) \<le> 57"

definition is_space :: "char \<Rightarrow> bool" where
  "is_space c \<longleftrightarrow> (of_char c :: nat) = 32 \<or> (9 \<le> (of_char c :: nat) \<and> (of_char c :: nat) \<le> 13)"

definition digit_val :: "char \<Rightarrow> nat" where
  "digit_val c = of_char c - 48"

definition digit_char :: "nat \<Rightarrow> char" where
  "digit_char n = char_of (48 + n)"

fun dec :: "nat \<Rightarrow> string" where
  "dec n = (if n < 10 then [digit_char n] else dec (n div 10) @ [digit_char (n mod 10)])"

declare dec.simps [simp del]

fun read_digits :: "nat \<Rightarrow> string \<Rightarrow> nat \<times> string" where
  "read_digits acc [] = (acc, [])"
| "read_digits acc (c # cs) =
     (if is_digit c then read_digits (10 * acc + digit_val c) cs else (acc, c # cs))"

lemma of_char_digit_char: "d < 10 \<Longrightarrow> (of_char (digit_char d) :: nat) = 48 + d"
  by (simp add: digit_char_def of_char_of)

lemma is_digit_digit_char [simp]: "d < 10 \<Longrightarrow> is_digit (digit_char d)"
  by (simp add: is_digit_def of_char_digit_char)

lemma digit_val_digit_char [simp]: "d < 10 \<Longrightarrow> digit_val (digit_char d) = d"
  by (simp add: digit_val_def of_char_digit_char)

lemma dec_nonempty [simp]: "dec n \<noteq> []"
  by (subst dec.simps) simp

lemma dec_digits: "c \<in> set (dec n) \<Longrightarrow> is_digit c"
proof (induction n rule: dec.induct)
  case (1 n)
  show ?case
  proof (cases "n < 10")
    case True
    with "1.prems" show ?thesis by (simp add: dec.simps [of n])
  next
    case False
    with "1" show ?thesis by (auto simp: dec.simps [of n])
  qed
qed

lemma digit_not_special:
  assumes "is_digit c"
  shows "c \<noteq> CR" and "c \<noteq> LF" and "c \<noteq> NUL" and "\<not> is_space c"
    and "c \<noteq> CHR ''-''" and "c \<noteq> CHR ''+''" and "c \<noteq> CHR ''*''" and "c \<noteq> CHR ''$''"
  using assms by (auto simp: is_digit_def is_space_def)

lemma dec_no_CR [simp]: "CR \<notin> set (dec n)"
  using dec_digits digit_not_special(1) by blast

lemma dec_no_LF [simp]: "LF \<notin> set (dec n)"
  using dec_digits digit_not_special(2) by blast

lemma dec_no_NUL [simp]: "NUL \<notin> set (dec n)"
  using dec_digits digit_not_special(3) by blast

lemma dec_no_crlf: "c \<in> set (dec n) \<Longrightarrow> c \<notin> set crlf"
  by auto

lemma read_digits_dec_aux:
  "read_digits acc (dec n @ r) = read_digits (acc * 10 ^ length (dec n) + n) r"
proof (induction n arbitrary: acc r rule: dec.induct)
  case (1 n)
  show ?case
  proof (cases "n < 10")
    case True
    then show ?thesis by (simp add: dec.simps [of n] mult.commute)
  next
    case False
    have "read_digits acc (dec (n div 10) @ digit_char (n mod 10) # r)
        = read_digits (acc * 10 ^ length (dec (n div 10)) + n div 10) (digit_char (n mod 10) # r)"
      using False by (rule "1.IH")
    also have "\<dots> = read_digits (acc * 10 ^ length (dec n) + n) r"
      using False by (simp add: dec.simps [of n] algebra_simps)
    finally show ?thesis using False by (simp add: dec.simps [of n])
  qed
qed

definition stops_digits :: "string \<Rightarrow> bool" where
  "stops_digits r \<longleftrightarrow> (case r of [] \<Rightarrow> True | c # _ \<Rightarrow> \<not> is_digit c)"

lemma stops_digits_simps [simp]:
  "stops_digits []"
  "stops_digits (c # r) \<longleftrightarrow> \<not> is_digit c"
  by (simp_all add: stops_digits_def)

lemma read_digits_stop: "stops_digits r \<Longrightarrow> read_digits acc r = (acc, r)"
  by (cases r) auto

lemma read_digits_dec: "stops_digits r \<Longrightarrow> read_digits 0 (dec n @ r) = (n, r)"
  by (simp add: read_digits_dec_aux read_digits_stop)

lemma length_dec_bounds: "10 ^ (length (dec n) - 1) \<le> n \<or> n = 0"
  and length_dec_upper: "n < 10 ^ length (dec n)"
proof -
  have "(10 ^ (length (dec n) - 1) \<le> n \<or> n = 0) \<and> n < 10 ^ length (dec n)"
  proof (induction n rule: dec.induct)
    case (1 n)
    show ?case
    proof (cases "n < 10")
      case True
      then show ?thesis by (auto simp: dec.simps [of n])
    next
      case False
      let ?l = "length (dec (n div 10))"
      have IH: "10 ^ (?l - 1) \<le> n div 10 \<or> n div 10 = 0" "n div 10 < 10 ^ ?l"
        using "1.IH" False by auto
      have pos: "0 < ?l" by simp
      from IH(1) False have lo: "10 ^ (?l - 1) \<le> n div 10" by auto
      then have "10 * 10 ^ (?l - 1) \<le> 10 * (n div 10)" by (rule mult_le_mono2)
      also have "\<dots> \<le> n" by simp
      finally have "10 * 10 ^ (?l - 1) \<le> n" .
      moreover have "(10::nat) * 10 ^ (?l - 1) = 10 ^ ?l"
        using pos by (cases ?l) simp_all
      ultimately have a: "10 ^ ?l \<le> n" by simp
      from IH(2) have b: "n < 10 * 10 ^ ?l" by linarith
      have len: "length (dec n) = Suc ?l" using False by (simp add: dec.simps [of n])
      show ?thesis unfolding len using a b by simp
    qed
  qed
  then show "10 ^ (length (dec n) - 1) \<le> n \<or> n = 0" and "n < 10 ^ length (dec n)" by auto
qed

lemma length_dec_le: "n < 10 ^ k \<Longrightarrow> 0 < k \<Longrightarrow> length (dec n) \<le> k"
proof (rule ccontr)
  assume n: "n < 10 ^ k" "0 < k" "\<not> length (dec n) \<le> k"
  then have "10 ^ k \<le> (10::nat) ^ (length (dec n) - 1)"
    by (intro power_increasing) auto
  with length_dec_bounds [of n] n(1) have "n = 0" by linarith
  then have "length (dec n) = 1" by (simp add: dec.simps)
  with n show False by simp
qed

lemma length_dec_exact: "10 ^ k \<le> n \<Longrightarrow> n < 10 ^ Suc k \<Longrightarrow> length (dec n) = Suc k"
proof -
  assume n: "10 ^ k \<le> n" "n < 10 ^ Suc k"
  have up: "length (dec n) \<le> Suc k" using length_dec_le [of n "Suc k"] n(2) by simp
  show ?thesis
  proof (rule ccontr)
    assume "length (dec n) \<noteq> Suc k"
    with up have "length (dec n) \<le> k" by simp
    then have "(10::nat) ^ length (dec n) \<le> 10 ^ k" by (intro power_increasing) auto
    with length_dec_upper [of n] n(1) show False by simp
  qed
qed

subsection \<open>strtol, atoi, strtoull\<close>

text \<open>
  White space, an optional sign, the longest run of digits; a value out of range
  saturates. The second component is what is left at \<open>endptr\<close>; \<open>None\<close> when no digit was
  read, in which case \<open>endptr = str\<close> and the value is 0.
\<close>

definition skip_space :: "string \<Rightarrow> string" where
  "skip_space s = dropWhile is_space s"

definition read_sign :: "string \<Rightarrow> bool \<times> string" where
  "read_sign s = (case s of
      c # r \<Rightarrow> if c = CHR ''-'' then (True, r) else if c = CHR ''+'' then (False, r) else (False, s)
    | [] \<Rightarrow> (False, []))"

definition strtol_raw :: "string \<Rightarrow> (int \<times> string) option" where
  "strtol_raw s =
     (let (neg, r) = read_sign (skip_space s); (n, r') = read_digits 0 r
      in if stops_digits r then None
         else Some (if neg then - int n else int n, r'))"

definition clamp_long :: "int \<Rightarrow> int" where
  "clamp_long i = (if i < - (2 ^ 63) then - (2 ^ 63) else if 2 ^ 63 - 1 < i then 2 ^ 63 - 1 else i)"

definition strtol10 :: "string \<Rightarrow> int" where
  "strtol10 s = (case strtol_raw s of None \<Rightarrow> 0 | Some (i, _) \<Rightarrow> clamp_long i)"

definition atoi :: "string \<Rightarrow> int" where
  "atoi s = to_i32 (strtol10 s)"

definition strtoull10 :: "string \<Rightarrow> nat" where
  "strtoull10 s = (case strtol_raw s of None \<Rightarrow> 0
     | Some (i, _) \<Rightarrow> if 2 ^ 64 - 1 < \<bar>i\<bar> then 2 ^ 64 - 1 else to_u64 i)"

lemma dec_hd: "\<exists>c r. dec n = c # r \<and> is_digit c"
  by (metis dec_digits dec_nonempty list.exhaust list.set_intros(1))

lemma strtol_raw_dec: "stops_digits r \<Longrightarrow> strtol_raw (dec n @ r) = Some (int n, r)"
proof -
  assume r: "stops_digits r"
  obtain c t where c: "dec n = c # t" "is_digit c" using dec_hd by blast
  have sk: "skip_space (dec n @ r) = dec n @ r"
    using c digit_not_special(4) by (simp add: skip_space_def)
  have sg: "read_sign (dec n @ r) = (False, dec n @ r)"
    using c digit_not_special(5,6) by (auto simp: read_sign_def)
  have "\<not> stops_digits (dec n @ r)" using c by simp
  then show ?thesis
    using r by (simp add: strtol_raw_def sk sg read_digits_dec)
qed

lemma strtol10_dec: "stops_digits r \<Longrightarrow> n < 2 ^ 63 \<Longrightarrow> strtol10 (dec n @ r) = int n"
  by (simp add: strtol10_def strtol_raw_dec clamp_long_def)

lemma atoi_dec_append: "stops_digits r \<Longrightarrow> n < 2 ^ 31 \<Longrightarrow> atoi (dec n @ r) = int n"
  by (simp add: atoi_def strtol10_dec to_i32_id)

lemma atoi_dec [simp]: "n < 2 ^ 31 \<Longrightarrow> atoi (dec n) = int n"
  using atoi_dec_append [of "[]" n] by simp

lemma strtoull10_dec_append: "stops_digits r \<Longrightarrow> n < 2 ^ 64 \<Longrightarrow> strtoull10 (dec n @ r) = n"
  by (simp add: strtoull10_def strtol_raw_dec)

lemma strtoull10_dec [simp]: "n < 2 ^ 64 \<Longrightarrow> strtoull10 (dec n) = n"
  using strtoull10_dec_append [of "[]" n] by simp

lemma atoi_range: "- (2 ^ 31) \<le> atoi s \<and> atoi s < 2 ^ 31"
  unfolding atoi_def by (rule to_i32_range)

lemma atoi_empty [simp]: "atoi [] = 0"
  by (simp add: atoi_def strtol10_def strtol_raw_def skip_space_def read_sign_def to_i32_def)

text \<open>\<open>printf\<close> of a signed value.\<close>

definition dec_int :: "int \<Rightarrow> string" where
  "dec_int i = (if i < 0 then CHR ''-'' # dec (nat (- i)) else dec (nat i))"

lemma dec_int_nonneg [simp]: "0 \<le> i \<Longrightarrow> dec_int i = dec (nat i)"
  by (simp add: dec_int_def)

end
