(* ===== verification/Coding.thy ===== *)
theory Coding
  imports CString
begin

unbundle bit_operations_syntax

text \<open>
  LevelDB's integer and string encodings (\<open>pack/leveldb/util/coding.cc\<close>): fixed-width
  little-endian integers, 32-bit varints, and length-prefixed strings. A \<open>uint32_t\<close> is a
  natural below \<open>2 ^ 32\<close>; what is stored into a \<open>char\<close> is cut to eight bits.
\<close>

section \<open>Encoders and decoders\<close>

text \<open>\<open>EncodeFixed32\<close>, \<open>EncodeFixed64\<close>: least significant byte first.\<close>

fun le_bytes :: "nat \<Rightarrow> nat \<Rightarrow> string" where
  "le_bytes 0 v = []"
| "le_bytes (Suc n) v = char_of (v AND 255) # le_bytes n (drop_bit 8 v)"

fun le_value :: "string \<Rightarrow> nat" where
  "le_value [] = 0"
| "le_value (c # cs) = of_char c OR push_bit 8 (le_value cs)"

definition EncodeFixed32 :: "nat \<Rightarrow> string" where
  "EncodeFixed32 v = le_bytes 4 (take_bit 32 v)"

definition EncodeFixed64 :: "nat \<Rightarrow> string" where
  "EncodeFixed64 v = le_bytes 8 (take_bit 64 v)"

definition DecodeFixed32 :: "string \<Rightarrow> nat" where
  "DecodeFixed32 p = le_value (take 4 p)"

definition DecodeFixed64 :: "string \<Rightarrow> nat" where
  "DecodeFixed64 p = le_value (take 8 p)"

definition EncodeVarint32 :: "nat \<Rightarrow> string" where
  "EncodeVarint32 v =
     (if v < 2 ^ 7 then [char_of v]
      else if v < 2 ^ 14 then [char_of (v OR 128), char_of (drop_bit 7 v)]
      else if v < 2 ^ 21 then
        [char_of (v OR 128), char_of (drop_bit 7 v OR 128), char_of (drop_bit 14 v)]
      else if v < 2 ^ 28 then
        [char_of (v OR 128), char_of (drop_bit 7 v OR 128), char_of (drop_bit 14 v OR 128),
         char_of (drop_bit 21 v)]
      else
        [char_of (v OR 128), char_of (drop_bit 7 v OR 128), char_of (drop_bit 14 v OR 128),
         char_of (drop_bit 21 v OR 128), char_of (drop_bit 28 v)])"

definition PutVarint32 :: "string \<Rightarrow> nat \<Rightarrow> string" where
  "PutVarint32 dst v = dst @ EncodeVarint32 (take_bit 32 v)"

text \<open>The loop of \<open>GetVarint32PtrFallback\<close>; \<open>None\<close> is the null pointer.\<close>

fun varint32_loop :: "nat \<Rightarrow> nat \<Rightarrow> string \<Rightarrow> (nat \<times> string) option" where
  "varint32_loop shift result [] = None"
| "varint32_loop shift result (c # p) =
     (if 28 < shift then None
      else if (of_char c :: nat) AND 128 \<noteq> 0
      then varint32_loop (shift + 7) (result OR take_bit 32 (push_bit shift (of_char c AND 127))) p
      else Some (result OR take_bit 32 (push_bit shift (of_char c)), p))"

definition GetVarint32PtrFallback :: "string \<Rightarrow> (nat \<times> string) option" where
  "GetVarint32PtrFallback p = varint32_loop 0 0 p"

definition GetVarint32Ptr :: "string \<Rightarrow> (nat \<times> string) option" where
  "GetVarint32Ptr p =
     (case p of c # r \<Rightarrow> if (of_char c :: nat) AND 128 = 0 then Some (of_char c, r)
                          else GetVarint32PtrFallback p
      | [] \<Rightarrow> GetVarint32PtrFallback p)"

definition PutLengthPrefixedSlice :: "string \<Rightarrow> string \<Rightarrow> string" where
  "PutLengthPrefixedSlice dst value = PutVarint32 dst (length value) @ value"

definition GetLengthPrefixedSlice :: "string \<Rightarrow> (string \<times> string) option" where
  "GetLengthPrefixedSlice input =
     (case GetVarint32Ptr input of None \<Rightarrow> None
      | Some (len, r) \<Rightarrow> if len \<le> length r then Some (take len r, drop len r) else None)"

section \<open>Bits of a byte\<close>

lemma bit_128: "bit (128::nat) n \<longleftrightarrow> n = 7"
  using bit_exp_iff [where 'a = nat, of 7 n] by auto

lemma mask_127: "(127::nat) = mask 7" and mask_255: "(255::nat) = mask 8"
  by (simp_all add: mask_eq_exp_minus_1)

lemma of_char_of_bits: "(of_char (char_of n) :: nat) = take_bit 8 (n :: nat)"
  by (simp add: take_bit_eq_mod)

lemma cont_byte_low: "take_bit 8 (v OR 128) AND 127 = take_bit 7 (v::nat)"
  unfolding mask_127 by (rule bit_eqI) (auto simp: bit_simps bit_128)

lemma cont_byte_flag: "take_bit 8 (v OR 128) AND 128 \<noteq> (0::nat)"
proof -
  have "bit (take_bit 8 (v OR 128) AND 128 :: nat) 7"
    by (simp add: bit_simps bit_128)
  then show ?thesis by (metis bit_0_eq bot_apply bot_bool_def)
qed

lemma last_byte_flag: "v < 128 \<Longrightarrow> (v::nat) AND 128 = 0"
proof -
  assume "v < 128"
  then have v: "v = take_bit 7 v" by (simp add: take_bit_nat_eq_self)
  show ?thesis by (subst v, rule bit_eqI) (auto simp: bit_simps bit_128)
qed

lemma or_split: "take_bit k v OR push_bit k (drop_bit k v) = (v::nat)"
proof (rule bit_eqI)
  fix n
  show "bit (take_bit k v OR push_bit k (drop_bit k v)) n \<longleftrightarrow> bit v n"
    by (cases "n < k") (auto simp: bit_simps not_less)
qed

lemma or_split_shifted:
  "push_bit j (take_bit 7 (drop_bit j v)) OR push_bit (j + 7) (drop_bit (j + 7) v)
     = push_bit j (drop_bit j (v::nat))"
proof (rule bit_eqI)
  fix i
  show "bit (push_bit j (take_bit 7 (drop_bit j v)) OR push_bit (j + 7) (drop_bit (j + 7) v)) i
      \<longleftrightarrow> bit (push_bit j (drop_bit j v)) i"
    by (cases "i < j"; cases "i < j + 7") (auto simp: bit_simps not_less)
qed

section \<open>Round trips\<close>

lemma length_le_bytes [simp]: "length (le_bytes n v) = n"
  by (induction n arbitrary: v) auto

lemma le_value_bytes: "le_value (le_bytes n v) = take_bit (8 * n) v"
proof (induction n arbitrary: v)
  case 0
  then show ?case by simp
next
  case (Suc n)
  have "(of_char (char_of (v AND 255)) :: nat) = take_bit 8 v"
    unfolding of_char_of_bits mask_255 by (simp flip: take_bit_eq_mask)
  moreover have "take_bit 8 v OR push_bit 8 (take_bit (8 * n) (drop_bit 8 v)) = take_bit (8 * Suc n) v"
  proof (rule bit_eqI)
    fix i
    show "bit (take_bit 8 v OR push_bit 8 (take_bit (8 * n) (drop_bit 8 v))) i
        \<longleftrightarrow> bit (take_bit (8 * Suc n) v) i"
      by (cases "i < 8") (auto simp: bit_simps not_less)
  qed
  ultimately show ?case by (simp add: Suc)
qed

lemma length_EncodeFixed [simp]:
  "length (EncodeFixed32 v) = 4" "length (EncodeFixed64 v) = 8"
  by (simp_all add: EncodeFixed32_def EncodeFixed64_def)

lemma DecodeFixed32_Encode: "v < 2 ^ 32 \<Longrightarrow> DecodeFixed32 (EncodeFixed32 v @ r) = v"
  by (simp add: DecodeFixed32_def EncodeFixed32_def le_value_bytes take_bit_nat_eq_self)

lemma DecodeFixed64_Encode: "v < 2 ^ 64 \<Longrightarrow> DecodeFixed64 (EncodeFixed64 v @ r) = v"
  by (simp add: DecodeFixed64_def EncodeFixed64_def le_value_bytes take_bit_nat_eq_self)

lemma EncodeVarint32_nonempty [simp]: "EncodeVarint32 v \<noteq> []"
  by (simp add: EncodeVarint32_def)

text \<open>One continuation byte and one final byte of the decoding loop.\<close>

lemma varint_cont:
  "s \<le> 21 \<Longrightarrow> varint32_loop s res (char_of (w OR 128) # p)
     = varint32_loop (s + 7) (res OR push_bit s (take_bit 7 w)) p"
proof -
  assume s: "s \<le> 21"
  have "push_bit s (take_bit 7 w) < 2 ^ 32"
  proof -
    have "take_bit 7 w < (2::nat) ^ 7" by (rule take_bit_nat_less_exp)
    then have "push_bit s (take_bit 7 w) < 2 ^ 7 * 2 ^ s" by (simp add: push_bit_eq_mult)
    also have "\<dots> = (2::nat) ^ (7 + s)" by (simp only: power_add)
    also have "\<dots> \<le> 2 ^ 32" using s by (intro power_increasing) auto
    finally show ?thesis .
  qed
  then have fits: "take_bit 32 (push_bit s (take_bit 7 w)) = push_bit s (take_bit 7 w)"
    by (rule take_bit_nat_eq_self)
  have small: "\<not> 28 < s" using s by simp
  show ?thesis
    unfolding varint32_loop.simps of_char_of_bits cont_byte_low fits
    by (simp only: small if_False cont_byte_flag if_True simp_thms)
qed

lemma varint_last:
  assumes "s \<le> 28" and "w < 128" and "push_bit s w < 2 ^ 32"
  shows "varint32_loop s res (char_of w # p) = Some (res OR push_bit s w, p)"
proof -
  have "take_bit 8 w = w" using assms(2) by (simp add: take_bit_nat_eq_self)
  then show ?thesis
    using assms by (simp add: of_char_of_bits last_byte_flag take_bit_nat_eq_self del: of_char_of)
qed

lemma push_drop_le: "push_bit s (drop_bit s v) \<le> (v::nat)"
  by (simp add: push_bit_eq_mult drop_bit_eq_div)

lemma drop_bit_lt: "v < 2 ^ (s + 7) \<Longrightarrow> drop_bit s v < (128::nat)"
proof -
  assume "v < 2 ^ (s + 7)"
  then have "v < 128 * 2 ^ s" by (simp add: power_add mult.commute)
  then show ?thesis by (simp add: drop_bit_eq_div less_mult_imp_div_less)
qed

lemma varint_last_drop:
  assumes "s \<le> 28" and "v < 2 ^ (s + 7)" and "v < 2 ^ 32"
  shows "varint32_loop s res (char_of (drop_bit s v) # p) = Some (res OR push_bit s (drop_bit s v), p)"
  using assms push_drop_le [of s v] drop_bit_lt by (intro varint_last) auto

lemmas varint_chain =
  or_split [of 7] or_split_shifted [of 7, simplified] or_split_shifted [of 14, simplified]
  or_split_shifted [of 21, simplified]

lemma Fallback_Encode:
  assumes "v < 2 ^ 32" and "2 ^ 7 \<le> v"
  shows "GetVarint32PtrFallback (EncodeVarint32 v @ r) = Some (v, r)"
proof -
  note cont0 = varint_cont [of 0]
  note cont = varint_cont [of 7] varint_cont [of 14] varint_cont [of 21]
  note unf = GetVarint32PtrFallback_def EncodeVarint32_def
  consider (two) "v < 2 ^ 14" | (three) "2 ^ 14 \<le> v" "v < 2 ^ 21"
    | (four) "2 ^ 21 \<le> v" "v < 2 ^ 28" | (five) "2 ^ 28 \<le> v" by linarith
  then show ?thesis
  proof cases
    case two
    then show ?thesis using assms varint_last_drop [of 7 v]
      by (simp add: unf cont0 varint_chain del: varint32_loop.simps)
  next
    case three
    then show ?thesis using assms varint_last_drop [of 14 v]
      by (simp add: unf cont0 cont varint_chain or.assoc del: varint32_loop.simps)
  next
    case four
    then show ?thesis using assms varint_last_drop [of 21 v]
      by (simp add: unf cont0 cont varint_chain or.assoc del: varint32_loop.simps)
  next
    case five
    then show ?thesis using assms varint_last_drop [of 28 v]
      by (simp add: unf cont0 cont varint_chain or.assoc del: varint32_loop.simps)
  qed
qed

lemma GetVarint32_Encode:
  assumes "v < 2 ^ 32"
  shows "GetVarint32Ptr (EncodeVarint32 v @ r) = Some (v, r)"
proof (cases "v < 2 ^ 7")
  case True
  then have "take_bit 8 v = v" by (simp add: take_bit_nat_eq_self)
  with True show ?thesis
    by (simp add: GetVarint32Ptr_def EncodeVarint32_def of_char_of_bits last_byte_flag
        del: of_char_of)
next
  case False
  then have ge: "2 ^ 7 \<le> v" by simp
  have "\<exists>c t. EncodeVarint32 v @ r = c # t \<and> (of_char c :: nat) AND 128 \<noteq> 0"
    using False
    by (simp add: EncodeVarint32_def of_char_of_bits cont_byte_flag [simplified] del: of_char_of)
  then show ?thesis
    using Fallback_Encode [OF assms ge, of r] by (auto simp: GetVarint32Ptr_def)
qed

lemma GetLengthPrefixedSlice_Put:
  assumes "length value < 2 ^ 32"
  shows "GetLengthPrefixedSlice (PutLengthPrefixedSlice [] value @ r) = Some (value, r)"
  using assms
  by (simp add: GetLengthPrefixedSlice_def PutLengthPrefixedSlice_def PutVarint32_def
      GetVarint32_Encode take_bit_nat_eq_self)

lemma PutLengthPrefixedSlice_append:
  "PutLengthPrefixedSlice dst value = dst @ PutLengthPrefixedSlice [] value"
  by (simp add: PutLengthPrefixedSlice_def PutVarint32_def)

lemma varint32_loop_shorter: "varint32_loop s res p = Some (v, r) \<Longrightarrow> length r < length p"
  by (induction s res p rule: varint32_loop.induct) (auto split: if_splits intro: less_SucI)

lemma GetLengthPrefixedSlice_shorter:
  "GetLengthPrefixedSlice p = Some (s, r) \<Longrightarrow> length r < length p"
  by (auto simp: GetLengthPrefixedSlice_def GetVarint32Ptr_def GetVarint32PtrFallback_def
      dest!: varint32_loop_shorter split: option.splits list.splits if_splits)

end
