(* ===== verification/StdMap.thy ===== *)
theory StdMap
  imports Prelude "HOL-Library.List_Lexorder" "HOL-Library.Char_ord"
begin

text \<open>
  Ordered maps. \<open>std::map\<close> is a list of pairs in strictly increasing key order (the order
  in which the sources iterate over it); the order on byte strings is the unsigned
  lexicographic one of \<open>std::string::operator<\<close> and of LevelDB's bytewise comparator. The
  locale \<open>kv_store\<close> is the contract that the clients of an ordered key/value store rely
  on; it is interpreted here for \<open>std::map\<close> and in \<open>DbImpl\<close> for the database.
\<close>

section \<open>std::map\<close>

type_synonym ('k, 'v) smap = "('k \<times> 'v) list"

fun sm_put :: "'k::linorder \<Rightarrow> 'v \<Rightarrow> ('k, 'v) smap \<Rightarrow> ('k, 'v) smap" where
  "sm_put k v [] = [(k, v)]"
| "sm_put k v (p # m) =
     (if fst p < k then p # sm_put k v m
      else if fst p = k then (k, v) # m
      else (k, v) # p # m)"

fun sm_del :: "'k::linorder \<Rightarrow> ('k, 'v) smap \<Rightarrow> ('k, 'v) smap" where
  "sm_del k [] = []"
| "sm_del k (p # m) = (if fst p = k then m else p # sm_del k m)"

definition sm_get :: "('k, 'v) smap \<Rightarrow> 'k \<Rightarrow> 'v option" where
  "sm_get m k = map_of m k"

definition sm_keys :: "('k, 'v) smap \<Rightarrow> 'k list" where
  "sm_keys m = map fst m"

definition sm_inv :: "('k::linorder, 'v) smap \<Rightarrow> bool" where
  "sm_inv m \<longleftrightarrow> sorted_wrt (<) (map fst m)"

lemma sm_inv_simps [simp]:
  "sm_inv []"
  "sm_inv (p # m) \<longleftrightarrow> (\<forall>q \<in> set m. fst p < fst q) \<and> sm_inv m"
  by (auto simp: sm_inv_def)

lemma sm_get_put: "sm_get (sm_put k v m) j = (if j = k then Some v else sm_get m j)"
  by (induction m) (auto simp: sm_get_def)

lemma sm_put_twice [simp]: "sm_put k v (sm_put k w m) = sm_put k v m"
  by (induction m) auto

lemma fst_sm_put: "fst ` set (sm_put k v m) = insert k (fst ` set m)"
  by (induction m) auto

lemma sm_inv_put: "sm_inv m \<Longrightarrow> sm_inv (sm_put k v m)"
proof (induction m)
  case Nil
  then show ?case by simp
next
  case (Cons p m)
  have sub: "q \<in> set (sm_put k v m) \<Longrightarrow> fst q = k \<or> fst q \<in> fst ` set m" for q
    using fst_sm_put [of k v m] by (metis image_eqI insertE)
  from Cons show ?case by (fastforce dest: sub)
qed

lemma sm_get_notin: "\<forall>q \<in> set m. (k::'k::linorder) < fst q \<Longrightarrow> sm_get m k = None"
  by (induction m) (auto simp: sm_get_def)

lemma sm_get_del: "sm_inv m \<Longrightarrow> sm_get (sm_del k m) j = (if j = k then None else sm_get m j)"
proof (induction m)
  case Nil
  then show ?case by (simp add: sm_get_def)
next
  case (Cons p m)
  then show ?case using sm_get_notin [of m k] by (cases p) (auto simp: sm_get_def)
qed

lemma set_sm_del: "set (sm_del k m) \<subseteq> set m"
  by (induction m) auto

lemma sm_inv_del: "sm_inv m \<Longrightarrow> sm_inv (sm_del k m)"
  by (induction m) (use set_sm_del in fastforce)+

lemma sm_keys_set: "set (sm_keys m) = {k. sm_get m k \<noteq> None}"
  by (auto simp: sm_keys_def sm_get_def map_of_eq_None_iff)

lemma sm_keys_sorted: "sm_inv m \<Longrightarrow> sorted_wrt (<) (sm_keys m)"
  by (simp add: sm_inv_def sm_keys_def)

lemma sorted_wrt_less_distinct: "sorted_wrt (<) (xs :: 'a::linorder list) \<Longrightarrow> distinct xs"
  by (induction xs) auto

lemma sm_inv_distinct: "sm_inv m \<Longrightarrow> distinct (map fst m)"
  by (simp add: sm_inv_def sorted_wrt_less_distinct)

lemma sm_mem_get: "sm_inv m \<Longrightarrow> (k, v) \<in> set m \<longleftrightarrow> sm_get m k = Some v"
  by (auto simp: sm_get_def dest: map_of_SomeD intro: map_of_is_SomeI sm_inv_distinct)

lemma length_sm_put:
  "sm_inv m \<Longrightarrow> length (sm_put k v m) = (if sm_get m k = None then Suc (length m) else length m)"
proof (induction m)
  case Nil
  then show ?case by (simp add: sm_get_def)
next
  case (Cons p m)
  have "k < fst p \<Longrightarrow> sm_get m k = None"
    using Cons.prems sm_get_notin [of m k] by (meson less_trans sm_inv_simps(2))
  with Cons show ?case using sm_get_notin [of m k] by (cases p) (auto simp: sm_get_def)
qed

lemma length_sm_del:
  "length (sm_del k m) = (if sm_get m k = None then length m else length m - 1)"
proof (induction m)
  case Nil
  then show ?case by simp
next
  case (Cons p m)
  have "m = [] \<Longrightarrow> sm_get m k = None" by (simp add: sm_get_def)
  with Cons show ?case by (cases m) (auto simp: sm_get_def split: if_splits)
qed

section \<open>The contract of an ordered key/value store\<close>

text \<open>
  A write takes an input \<open>e\<close> of the environment that decides whether it succeeds
  (\<open>ok e\<close>: the log record could be written). \<open>fits k v\<close> and \<open>kfits k\<close> restrict the pairs
  a store accepts (LevelDB encodes lengths in 32 bits).
\<close>

locale kv_store =
  fixes get :: "'s \<Rightarrow> 'k::linorder \<Rightarrow> 'v option"
    and put :: "'e \<Rightarrow> 'k \<Rightarrow> 'v \<Rightarrow> 's \<Rightarrow> 's"
    and del :: "'e \<Rightarrow> 'k \<Rightarrow> 's \<Rightarrow> 's"
    and entries :: "'s \<Rightarrow> ('k \<times> 'v) list"
    and inv :: "'s \<Rightarrow> bool"
    and ok :: "'e \<Rightarrow> bool"
    and fits :: "'k \<Rightarrow> 'v \<Rightarrow> bool"
    and kfits :: "'k \<Rightarrow> bool"
  assumes get_put: "inv s \<Longrightarrow> fits k v \<Longrightarrow>
      get (put e k v s) j = (if ok e \<and> j = k then Some v else get s j)"
    and get_del: "inv s \<Longrightarrow> kfits k \<Longrightarrow>
      get (del e k s) j = (if ok e \<and> j = k then None else get s j)"
    and entries_sorted: "inv s \<Longrightarrow> sorted_wrt (<) (map fst (entries s))"
    and entries_get: "inv s \<Longrightarrow> map_of (entries s) k = get s k"
    and inv_put: "inv s \<Longrightarrow> fits k v \<Longrightarrow> inv (put e k v s)"
    and inv_del: "inv s \<Longrightarrow> kfits k \<Longrightarrow> inv (del e k s)"
begin

lemma entries_distinct: "inv s \<Longrightarrow> distinct (map fst (entries s))"
  by (rule sorted_wrt_less_distinct) (rule entries_sorted)

lemma entries_mem: "inv s \<Longrightarrow> (k, v) \<in> set (entries s) \<longleftrightarrow> get s k = Some v"
  using entries_get [of s k] entries_distinct [of s]
  by (metis map_of_SomeD map_of_is_SomeI)

lemma keys_get: "inv s \<Longrightarrow> set (map fst (entries s)) = {k. get s k \<noteq> None}"
proof -
  assume inv: "inv s"
  have "set (map fst (entries s)) = {k. \<exists>v. (k, v) \<in> set (entries s)}" by force
  then show ?thesis using entries_mem [OF inv] by auto
qed

lemma card_keys: "inv s \<Longrightarrow> card {k. get s k \<noteq> None} = length (entries s)"
  using keys_get [of s] entries_distinct [of s] distinct_card [of "map fst (entries s)"] by simp

lemma finite_keys: "inv s \<Longrightarrow> finite {k. get s k \<noteq> None}"
  using keys_get [of s] by (metis List.finite_set)

lemma sorted_filter_keys: "inv s \<Longrightarrow> sorted_wrt (<) (filter P (map fst (entries s)))"
  by (rule sorted_wrt_filter) (rule entries_sorted)

lemma length_put:
  assumes "inv s" "fits k v" "ok e"
  shows "length (entries (put e k v s)) =
    (if get s k = None then Suc (length (entries s)) else length (entries s))"
proof -
  have inv': "inv (put e k v s)" using assms(1,2) by (rule inv_put)
  have dom: "{j. get (put e k v s) j \<noteq> None} = insert k {j. get s j \<noteq> None}"
    using assms by (auto simp: get_put)
  have "length (entries (put e k v s)) = card (insert k {j. get s j \<noteq> None})"
    using card_keys [OF inv'] dom by simp
  then show ?thesis
    using card_keys [OF assms(1)] finite_keys [OF assms(1)]
    by (auto simp: card_insert_if)
qed

lemma length_del:
  assumes "inv s" "kfits k" "ok e"
  shows "length (entries (del e k s)) =
    (if get s k = None then length (entries s) else length (entries s) - 1)"
proof -
  have inv': "inv (del e k s)" using assms(1,2) by (rule inv_del)
  have dom: "{j. get (del e k s) j \<noteq> None} = {j. get s j \<noteq> None} - {k}"
    using assms by (auto simp: get_del)
  have "length (entries (del e k s)) = card ({j. get s j \<noteq> None} - {k})"
    using card_keys [OF inv'] dom by simp
  then show ?thesis
    using card_keys [OF assms(1)] finite_keys [OF assms(1)]
    by (auto simp: card_Diff_singleton_if)
qed

lemma entries_cong:
  assumes "inv s" "inv t" "\<And>k. get s k = get t k"
  shows "entries s = entries t"
proof -
  have keys: "map fst (entries s) = map fst (entries t)"
  proof (rule sorted_distinct_set_unique)
    show "sorted (map fst (entries s))" "sorted (map fst (entries t))"
      using entries_sorted assms(1,2) by (auto intro: strict_sorted_imp_sorted)
    show "distinct (map fst (entries s))" "distinct (map fst (entries t))"
      using entries_distinct assms(1,2) by auto
    show "set (map fst (entries s)) = set (map fst (entries t))"
      using keys_get assms by simp
  qed
  have val: "snd p = snd q" if "p \<in> set (entries s)" "q \<in> set (entries t)" "fst p = fst q" for p q
    using that entries_mem [OF assms(1)] entries_mem [OF assms(2)] assms(3)
    by (metis option.inject prod.collapse)
  show ?thesis
  proof (rule nth_equalityI)
    show len: "length (entries s) = length (entries t)" using keys by (rule map_eq_imp_length_eq)
    fix i assume i: "i < length (entries s)"
    have f: "fst (entries s ! i) = fst (entries t ! i)"
      using keys i len by (metis nth_map)
    with val [of "entries s ! i" "entries t ! i"] i len
    show "entries s ! i = entries t ! i" by (simp add: prod_eq_iff)
  qed
qed

end

text \<open>Stores that also apply a batch of insertions in one write.\<close>

locale kv_batch_store = kv_store get put del entries inv ok fits kfits
  for get :: "'s \<Rightarrow> 'k::linorder \<Rightarrow> 'v option"
    and put :: "'e \<Rightarrow> 'k \<Rightarrow> 'v \<Rightarrow> 's \<Rightarrow> 's"
    and del :: "'e \<Rightarrow> 'k \<Rightarrow> 's \<Rightarrow> 's"
    and entries inv ok fits kfits +
  fixes put_all :: "'e \<Rightarrow> ('k \<times> 'v) list \<Rightarrow> 's \<Rightarrow> 's"
  assumes get_write: "inv s \<Longrightarrow> \<forall>p \<in> set kvs. fits (fst p) (snd p) \<Longrightarrow>
      get (put_all e kvs s) j = (if ok e then (case map_of (rev kvs) j of Some v \<Rightarrow> Some v | None \<Rightarrow> get s j)
                               else get s j)"
    and inv_write: "inv s \<Longrightarrow> \<forall>p \<in> set kvs. fits (fst p) (snd p) \<Longrightarrow> inv (put_all e kvs s)"
begin

lemma write_keys:
  assumes "inv s" "\<forall>p \<in> set kvs. fits (fst p) (snd p)" "ok e"
  shows "{k. get (put_all e kvs s) k \<noteq> None} = {k. get s k \<noteq> None} \<union> fst ` set kvs"
proof -
  have "get (put_all e kvs s) k \<noteq> None \<longleftrightarrow> get s k \<noteq> None \<or> k \<in> fst ` set kvs" for k
    using get_write [OF assms(1,2), of e k] assms(3) map_of_eq_None_iff [of "rev kvs" k]
    by (auto split: option.splits)
  then show ?thesis by auto
qed

end

interpretation sm: kv_batch_store sm_get "\<lambda>_::unit. sm_put" "\<lambda>_. sm_del" "\<lambda>m. m" sm_inv
  "\<lambda>_. True" "\<lambda>_ _. True" "\<lambda>_. True" "\<lambda>_. fold (\<lambda>(k, v). sm_put k v)"
proof unfold_locales
  fix s :: "('k::linorder, 'v) smap" and kvs :: "('k \<times> 'v) list" and e :: unit and j k
  show "sm_inv s \<Longrightarrow> sorted_wrt (<) (map fst s)"
    by (simp add: sm_inv_def)
  show "map_of s k = sm_get s k"
    by (simp add: sm_get_def)
  show "sm_inv s \<Longrightarrow> sm_inv (fold (\<lambda>(k, v). sm_put k v) kvs s)"
    by (induction kvs arbitrary: s) (auto simp: sm_inv_put)
  show "sm_get (fold (\<lambda>(k, v). sm_put k v) kvs s) j =
      (if True then (case map_of (rev kvs) j of Some v \<Rightarrow> Some v | None \<Rightarrow> sm_get s j) else sm_get s j)"
    by (induction kvs arbitrary: s) (auto simp: sm_get_put map_add_def split: option.splits)
qed (simp_all add: sm_get_put sm_get_del sm_inv_put sm_inv_del)

end
