(* ===== verification/LevelDb.thy ===== *)
theory LevelDb
  imports Coding StdMap
begin

text \<open>
  The data of LevelDB (\<open>src/pack/leveldb/db\<close>), the store below the server: write batches with
  their byte encoding, memtables ordered by internal key, the merging iterator and the
  forward user-level iterator. A memtable or table file is the list of its entries in
  internal-key order (what the skip list and the sorted table both present to their
  clients). Sequence numbers and the batch count are unbounded naturals; the code keeps
  56 and 32 bits of them. \<open>sees\<close> says what a set of entries holds for a key: the newest one
  decides. \<open>Versions\<close> has the table files on their levels, \<open>DbImpl\<close> the database, \<open>Compact\<close> the
  compactions.
\<close>

unbundle bit_operations_syntax

section \<open>Write batches\<close>

datatype ValueType = kTypeDeletion | kTypeValue

fun type_num :: "ValueType \<Rightarrow> nat" where
  "type_num kTypeDeletion = 0"
| "type_num kTypeValue = 1"

definition type_char :: "ValueType \<Rightarrow> char" where
  "type_char t = char_of (type_num t)"

record WriteBatch =
  wb_sequence :: nat
  wb_count :: nat
  wb_data :: string

definition WriteBatch_Clear :: WriteBatch where
  "WriteBatch_Clear = \<lparr>wb_sequence = 0, wb_count = 0, wb_data = []\<rparr>"

definition WriteBatch_Put :: "string \<Rightarrow> string \<Rightarrow> WriteBatch \<Rightarrow> WriteBatch" where
  "WriteBatch_Put key val b =
     b\<lparr>wb_count := wb_count b + 1,
       wb_data := PutLengthPrefixedSlice
         (PutLengthPrefixedSlice (wb_data b @ [type_char kTypeValue]) key) val\<rparr>"

definition WriteBatch_Delete :: "string \<Rightarrow> WriteBatch \<Rightarrow> WriteBatch" where
  "WriteBatch_Delete key b =
     b\<lparr>wb_count := wb_count b + 1,
       wb_data := PutLengthPrefixedSlice (wb_data b @ [type_char kTypeDeletion]) key\<rparr>"

datatype batch_op = Handler_Put string string | Handler_Delete string

text \<open>The calls the parsing loop makes on its handler, and whether it met no corruption.\<close>

function WriteBatch_loop :: "string \<Rightarrow> batch_op list \<times> bool" where
  "WriteBatch_loop [] = ([], True)"
| "WriteBatch_loop (tag # input) =
     (if tag = type_char kTypeValue then
        (case GetLengthPrefixedSlice input of
           None \<Rightarrow> ([], False)
         | Some (key, input1) \<Rightarrow>
             (case GetLengthPrefixedSlice input1 of
                None \<Rightarrow> ([], False)
              | Some (val, input2) \<Rightarrow>
                  (let (ops, st) = WriteBatch_loop input2 in (Handler_Put key val # ops, st))))
      else if tag = type_char kTypeDeletion then
        (case GetLengthPrefixedSlice input of
           None \<Rightarrow> ([], False)
         | Some (key, input1) \<Rightarrow>
             (let (ops, st) = WriteBatch_loop input1 in (Handler_Delete key # ops, st)))
      else ([], False))"
  by pat_completeness auto
termination
proof (relation "measure length")
  fix tag :: char and input x2 x y x2a xa ya
  assume "GetLengthPrefixedSlice input = Some x2" "(x, y) = x2"
    "GetLengthPrefixedSlice y = Some x2a" "(xa, ya) = x2a"
  then show "(ya, tag # input) \<in> measure length"
    using GetLengthPrefixedSlice_shorter [of input x y] GetLengthPrefixedSlice_shorter [of y xa ya]
    by simp
next
  fix tag :: char and input x2 x y
  assume "GetLengthPrefixedSlice input = Some x2" "(x, y) = x2"
  then show "(y, tag # input) \<in> measure length"
    using GetLengthPrefixedSlice_shorter [of input x y] by simp
qed simp

definition WriteBatch_Iterate :: "WriteBatch \<Rightarrow> batch_op list \<times> bool" where
  "WriteBatch_Iterate b =
     (let (ops, st) = WriteBatch_loop (wb_data b)
      in (ops, st \<and> length ops = wb_count b))"

section \<open>Memtables\<close>

datatype entry = Entry (ukey: string) (eseq: nat) (etype: ValueType) (evalue: string)

definition PackSequenceAndType :: "nat \<Rightarrow> ValueType \<Rightarrow> nat" where
  "PackSequenceAndType s t = push_bit 8 s OR type_num t"

definition etag :: "entry \<Rightarrow> nat" where
  "etag e = PackSequenceAndType (eseq e) (etype e)"

text \<open>\<open>InternalKeyComparator::Compare(a, b) < 0\<close>.\<close>

definition ikey_less :: "entry \<Rightarrow> entry \<Rightarrow> bool" where
  "ikey_less a b \<longleftrightarrow> ukey a < ukey b \<or> (ukey a = ukey b \<and> etag a > etag b)"

definition MemTable_Add :: "nat \<Rightarrow> ValueType \<Rightarrow> string \<Rightarrow> string \<Rightarrow> entry list \<Rightarrow> entry list" where
  "MemTable_Add s type key val t =
     (let e = Entry key s type val
      in takeWhile (\<lambda>x. ikey_less x e) t @ [e] @ dropWhile (\<lambda>x. ikey_less x e) t)"

text \<open>
  \<open>None\<close>: the table has no entry for the key; \<open>Some None\<close>: a deletion marker (the status is
  \<open>NotFound\<close>); \<open>Some (Some v)\<close>: a value.
\<close>

definition MemTable_Get :: "string \<Rightarrow> nat \<Rightarrow> entry list \<Rightarrow> string option option" where
  "MemTable_Get key snapshot t =
     (case dropWhile (\<lambda>x. ikey_less x (Entry key snapshot kTypeValue [])) t of
        [] \<Rightarrow> None
      | e # _ \<Rightarrow>
          if ukey e = key then
            (case etype e of kTypeValue \<Rightarrow> Some (Some (evalue e)) | kTypeDeletion \<Rightarrow> Some None)
          else None)"

fun MemTableInserter :: "batch_op list \<Rightarrow> nat \<Rightarrow> entry list \<Rightarrow> entry list" where
  "MemTableInserter [] sequ t = t"
| "MemTableInserter (Handler_Put key val # ops) sequ t =
     MemTableInserter ops (sequ + 1) (MemTable_Add sequ kTypeValue key val t)"
| "MemTableInserter (Handler_Delete key # ops) sequ t =
     MemTableInserter ops (sequ + 1) (MemTable_Add sequ kTypeDeletion key [] t)"

definition InsertInto :: "WriteBatch \<Rightarrow> entry list \<Rightarrow> bool \<times> entry list" where
  "InsertInto b t =
     (let (ops, st) = WriteBatch_Iterate b in (st, MemTableInserter ops (wb_sequence b) t))"

section \<open>Iterators\<close>

text \<open>
  \<open>FindSmallest\<close>: the position and the current entry of the valid child with the smallest key,
  the first one when several agree. A child is the list of its entries from its position on.
\<close>

fun FindSmallest :: "nat \<Rightarrow> entry list list \<Rightarrow> (nat \<times> entry) option \<Rightarrow> (nat \<times> entry) option" where
  "FindSmallest i [] smallest = smallest"
| "FindSmallest i ([] # children) smallest = FindSmallest (i + 1) children smallest"
| "FindSmallest i ((e # es) # children) smallest =
     FindSmallest (i + 1) children
       (case smallest of
          None \<Rightarrow> Some (i, e)
        | Some (j, d) \<Rightarrow> if ikey_less e d then Some (i, e) else smallest)"

lemma FindSmallest_child:
  "FindSmallest i cs sm = Some (j, e) \<Longrightarrow>
     sm = Some (j, e) \<or> (i \<le> j \<and> j - i < length cs \<and> (\<exists>es. cs ! (j - i) = e # es))"
proof (induction i cs sm rule: FindSmallest.induct)
  case (2 i cs sm)
  then show ?case by (auto simp: nth_Cons' Suc_diff_le)
next
  case (3 i d es cs sm)
  then show ?case by (fastforce simp: nth_Cons' Suc_diff_le split: option.splits prod.splits if_splits)
qed simp

text \<open>The entries the merging iterator yields, moving forward from the first one.\<close>

function MergingIterator :: "entry list list \<Rightarrow> entry list" where
  "MergingIterator children =
     (case FindSmallest 0 children None of
        None \<Rightarrow> []
      | Some (i, e) \<Rightarrow> e # MergingIterator (children[i := tl (children ! i)]))"
  by pat_completeness auto
termination
proof (relation "measure (\<lambda>cs. sum_list (map length cs))")
  fix children x i e
  assume "FindSmallest 0 children None = Some x" "(i, e) = x"
  then obtain es where i: "i < length children" "children ! i = e # es" using FindSmallest_child [of 0 children None i e] by auto
  have "sum_list (map length (children[i := es])) < sum_list (map length children)"
    using i elem_le_sum_list [of i "map length children"] by (simp add: map_update sum_list_update)
  then show "(children[i := tl (children ! i)], children) \<in> measure (\<lambda>cs. sum_list (map length cs))" using i by simp
qed simp

declare MergingIterator.simps [simp del]

text \<open>The iterator is the list of entries from the current position on; \<open>[]\<close> is not valid.\<close>

fun FindNextUserEntry :: "nat \<Rightarrow> bool \<Rightarrow> string \<Rightarrow> entry list \<Rightarrow> entry list" where
  "FindNextUserEntry sequ skipping skip [] = []"
| "FindNextUserEntry sequ skipping skip (e # es) =
     (if eseq e \<le> sequ then
        (case etype e of
           kTypeDeletion \<Rightarrow> FindNextUserEntry sequ True (ukey e) es
         | kTypeValue \<Rightarrow>
             if skipping \<and> ukey e \<le> skip then FindNextUserEntry sequ skipping skip es
             else e # es)
      else FindNextUserEntry sequ skipping skip es)"

definition DBIter_SeekToFirst :: "nat \<Rightarrow> entry list \<Rightarrow> entry list" where
  "DBIter_SeekToFirst sequ it = FindNextUserEntry sequ False [] it"

definition DBIter_Seek :: "nat \<Rightarrow> string \<Rightarrow> entry list \<Rightarrow> entry list" where
  "DBIter_Seek sequ target it =
     FindNextUserEntry sequ False []
       (dropWhile (\<lambda>x. ikey_less x (Entry target sequ kTypeValue [])) it)"

definition DBIter_Next :: "nat \<Rightarrow> entry list \<Rightarrow> entry list" where
  "DBIter_Next sequ it =
     (case it of [] \<Rightarrow> [] | e # _ \<Rightarrow> FindNextUserEntry sequ True (ukey e) it)"

lemma length_FindNextUserEntry: "length (FindNextUserEntry s b sk es) \<le> length es"
  by (induction es arbitrary: b sk) (auto split: ValueType.splits intro: le_SucI)

lemma DBIter_Next_shorter: "length (DBIter_Next s (e # es)) \<le> length es"
  by (auto simp: DBIter_Next_def length_FindNextUserEntry split: ValueType.splits)

text \<open>The keys and values a loop \<open>for (...; it->Valid(); it->Next())\<close> reads.\<close>

function DBIter_all :: "nat \<Rightarrow> entry list \<Rightarrow> (string \<times> string) list" where
  "DBIter_all sequ [] = []"
| "DBIter_all sequ (e # es) =
     (ukey e, evalue e) # DBIter_all sequ (DBIter_Next sequ (e # es))"
  by pat_completeness auto
termination
  by (relation "measure (length \<circ> snd)") (auto simp: less_Suc_eq_le DBIter_Next_shorter)

section \<open>Batches decode to the operations that built them\<close>

lemma type_char_neq [simp]: "type_char kTypeDeletion \<noteq> type_char kTypeValue"
  "type_char kTypeValue \<noteq> type_char kTypeDeletion"
  by (simp_all add: type_char_def of_char_eq_iff [symmetric] del: of_char_eq_iff)

fun WriteBatch_apply :: "batch_op \<Rightarrow> WriteBatch \<Rightarrow> WriteBatch" where
  "WriteBatch_apply (Handler_Put k v) b = WriteBatch_Put k v b"
| "WriteBatch_apply (Handler_Delete k) b = WriteBatch_Delete k b"

fun op_fits :: "batch_op \<Rightarrow> bool" where
  "op_fits (Handler_Put k v) \<longleftrightarrow> length k < 2 ^ 32 \<and> length v < 2 ^ 32"
| "op_fits (Handler_Delete k) \<longleftrightarrow> length k < 2 ^ 32"

fun op_bytes :: "batch_op \<Rightarrow> string" where
  "op_bytes (Handler_Put k v) =
     type_char kTypeValue # PutLengthPrefixedSlice [] k @ PutLengthPrefixedSlice [] v"
| "op_bytes (Handler_Delete k) = type_char kTypeDeletion # PutLengthPrefixedSlice [] k"

lemma wb_data_apply: "wb_data (WriteBatch_apply x b) = wb_data b @ op_bytes x"
proof (cases x)
  case (Handler_Put k v)
  have "PutLengthPrefixedSlice (PutLengthPrefixedSlice (wb_data b @ [c]) k) v
      = (wb_data b @ [c]) @ PutLengthPrefixedSlice [] k @ PutLengthPrefixedSlice [] v" for c
    by (metis PutLengthPrefixedSlice_append append_assoc)
  then show ?thesis using Handler_Put by (simp add: WriteBatch_Put_def)
next
  case (Handler_Delete k)
  then show ?thesis
    using PutLengthPrefixedSlice_append [of "wb_data b @ [type_char kTypeDeletion]" k]
    by (simp add: WriteBatch_Delete_def)
qed

lemma wb_count_apply [simp]: "wb_count (WriteBatch_apply x b) = Suc (wb_count b)"
  by (cases x) (simp_all add: WriteBatch_Put_def WriteBatch_Delete_def)

lemma WriteBatch_fold:
  "wb_data (fold WriteBatch_apply ops b) = wb_data b @ concat (map op_bytes ops)"
  "wb_count (fold WriteBatch_apply ops b) = wb_count b + length ops"
  by (induction ops arbitrary: b) (simp_all add: wb_data_apply)

lemma WriteBatch_loop_op:
  "op_fits x \<Longrightarrow> WriteBatch_loop (op_bytes x @ r) =
     (let (ops, st) = WriteBatch_loop r in (x # ops, st))"
  by (cases x) (simp_all add: GetLengthPrefixedSlice_Put)

lemma WriteBatch_loop_ops:
  "\<forall>x \<in> set ops. op_fits x \<Longrightarrow> WriteBatch_loop (concat (map op_bytes ops)) = (ops, True)"
  by (induction ops) (simp_all add: WriteBatch_loop_op)

lemma WriteBatch_Iterate_fold:
  assumes "\<forall>x \<in> set ops. op_fits x"
  shows "WriteBatch_Iterate (fold WriteBatch_apply ops WriteBatch_Clear) = (ops, True)"
  using assms by (simp add: WriteBatch_Iterate_def WriteBatch_fold WriteBatch_Clear_def WriteBatch_loop_ops)


section \<open>Sorted tables\<close>

lemma type_num_less: "type_num t < 256"
  by (cases t) simp_all

lemma PackSequenceAndType_eq: "PackSequenceAndType s t = 256 * s + type_num t"
proof -
  have "push_bit 8 s OR type_num t = push_bit 8 s + type_num t"
  proof (rule disjunctive_add [symmetric])
    fix n
    have "bit (type_num t) n \<Longrightarrow> n < 8"
      by (cases t) (auto simp: bit_Suc_0_iff)
    then show "\<not> bit (push_bit 8 s) n \<or> \<not> bit (type_num t) n" by (auto simp: bit_simps)
  qed
  then show ?thesis by (simp add: PackSequenceAndType_def push_bit_eq_mult)
qed

lemma etag_less: "eseq a < eseq b \<Longrightarrow> etag a < etag b"
  using type_num_less [of "etype a"] by (simp add: etag_def PackSequenceAndType_eq)

text \<open>The order by user key and sequence number; sequence numbers are never used twice.\<close>

definition eless :: "entry \<Rightarrow> entry \<Rightarrow> bool" where
  "eless a b \<longleftrightarrow> ukey a < ukey b \<or> (ukey a = ukey b \<and> eseq b < eseq a)"

definition table_sorted :: "entry list \<Rightarrow> bool" where
  "table_sorted t \<longleftrightarrow> sorted_wrt eless t"

definition apart :: "entry set \<Rightarrow> entry set \<Rightarrow> bool" where
  "apart a b \<longleftrightarrow> (\<forall>x \<in> a. \<forall>y \<in> b. ukey x = ukey y \<longrightarrow> eseq x \<noteq> eseq y)"

lemma eless_ikey: "eless a b \<Longrightarrow> ikey_less a b"
  using etag_less [of b a] by (auto simp: eless_def ikey_less_def)

lemma eless_trans: "eless a b \<Longrightarrow> eless b c \<Longrightarrow> eless a c"
  by (auto simp: eless_def)

lemma eless_le: "eless a b \<Longrightarrow> ukey a \<le> ukey b"
  by (auto simp: eless_def)

lemma eless_irrefl [simp]: "\<not> eless a a"
  by (simp add: eless_def)

lemma ikey_less_asym: "ikey_less a b \<Longrightarrow> \<not> ikey_less b a"
  by (auto simp: ikey_less_def)

lemma ikey_less_trans: "ikey_less a b \<Longrightarrow> ikey_less b c \<Longrightarrow> ikey_less a c"
  by (auto simp: ikey_less_def)

lemma ikey_eless: "ikey_less a b \<Longrightarrow> ukey a = ukey b \<longrightarrow> eseq a \<noteq> eseq b \<Longrightarrow> eless a b"
  using etag_less [of a b] by (fastforce simp: eless_def ikey_less_def)

lemma not_ikey_eless: "\<not> ikey_less a b \<Longrightarrow> ukey a = ukey b \<longrightarrow> eseq a \<noteq> eseq b \<Longrightarrow> eless b a"
  using etag_less [of b a] by (fastforce simp: eless_def ikey_less_def)

lemma table_sorted_simps [simp]:
  "table_sorted []"
  "table_sorted (e # t) \<longleftrightarrow> (\<forall>x \<in> set t. eless e x) \<and> table_sorted t"
  by (simp_all add: table_sorted_def)

lemma table_sorted_append:
  "table_sorted (a @ b) \<longleftrightarrow> table_sorted a \<and> table_sorted b \<and> (\<forall>x \<in> set a. \<forall>y \<in> set b. eless x y)"
  by (auto simp: table_sorted_def sorted_wrt_append)

lemma table_sorted_hd: "table_sorted t \<Longrightarrow> x \<in> set t \<Longrightarrow> ukey (hd t) \<le> ukey x"
  by (cases t) (auto dest: eless_le)

lemma table_sorted_last: "table_sorted t \<Longrightarrow> x \<in> set t \<Longrightarrow> ukey x \<le> ukey (last t)"
  by (induction t) (auto dest: eless_le)

lemma eless_differ: "eless a b \<Longrightarrow> \<not> (ukey a = ukey b \<and> eseq a = eseq b)"
  by (auto simp: eless_def)

lemma table_uniq: "table_sorted t \<Longrightarrow> x \<in> set t \<Longrightarrow> y \<in> set t \<Longrightarrow> ukey x = ukey y \<and> eseq x = eseq y \<Longrightarrow> x = y"
proof (induction t)
  case (Cons e t)
  then show ?case using eless_differ [of e x] eless_differ [of e y] by (metis set_ConsD table_sorted_simps(2))
qed simp

lemma apart_sym: "apart a b \<Longrightarrow> apart b a"
  unfolding apart_def by metis

lemma apart_simps [simp]: "apart {} b" "apart a {}"
  "apart (insert x a) b \<longleftrightarrow> (\<forall>y \<in> b. ukey x = ukey y \<longrightarrow> eseq x \<noteq> eseq y) \<and> apart a b"
  "apart (a \<union> c) b \<longleftrightarrow> apart a b \<and> apart c b" "apart a (b \<union> c) \<longleftrightarrow> apart a b \<and> apart a c"
  by (auto simp: apart_def)

section \<open>What a set of entries holds\<close>

text \<open>What a lookup reports of the newest entry of a key.\<close>

fun entry_result :: "entry \<Rightarrow> string option" where
  "entry_result (Entry k s kTypeValue v) = Some v"
| "entry_result (Entry k s kTypeDeletion v) = None"

definition has_key :: "entry set \<Rightarrow> string \<Rightarrow> bool" where
  "has_key E k \<longleftrightarrow> (\<exists>e \<in> E. ukey e = k)"

definition is_latest :: "entry set \<Rightarrow> string \<Rightarrow> entry \<Rightarrow> bool" where
  "is_latest E k e \<longleftrightarrow> e \<in> E \<and> ukey e = k \<and> (\<forall>x \<in> E. ukey x = k \<longrightarrow> x = e \<or> eseq x < eseq e)"

definition sees :: "entry set \<Rightarrow> string \<Rightarrow> string option \<Rightarrow> bool" where
  "sees E k r \<longleftrightarrow> (\<exists>e. is_latest E k e \<and> r = entry_result e) \<or> (\<not> has_key E k \<and> r = None)"

text \<open>Every entry of the one is newer than the entries the other has for its key.\<close>

definition newer :: "entry set \<Rightarrow> entry set \<Rightarrow> bool" where
  "newer a b \<longleftrightarrow> (\<forall>x \<in> a. \<forall>y \<in> b. ukey x = ukey y \<longrightarrow> eseq y < eseq x)"

lemma is_latest_unique: "is_latest E k e \<Longrightarrow> is_latest E k d \<Longrightarrow> d = e"
  unfolding is_latest_def by (metis less_asym')

lemma sees_unique: "sees E k r \<Longrightarrow> sees E k r' \<Longrightarrow> r' = r"
proof -
  assume r: "sees E k r" "sees E k r'"
  have "has_key E k" if "is_latest E k e" for e using that by (auto simp: is_latest_def has_key_def)
  then show ?thesis using r is_latest_unique unfolding sees_def by metis
qed

lemma newer_apart: "newer a b \<Longrightarrow> apart a b"
  by (force simp: newer_def apart_def)

lemma newer_simps [simp]: "newer {} b" "newer a {}" "newer (a \<union> c) b \<longleftrightarrow> newer a b \<and> newer c b"
  "newer a (b \<union> c) \<longleftrightarrow> newer a b \<and> newer a c"
  by (auto simp: newer_def)

lemma newer_mono: "newer a b \<Longrightarrow> a' \<subseteq> a \<Longrightarrow> b' \<subseteq> b \<Longrightarrow> newer a' b'"
  by (auto simp: newer_def)

lemma has_key_simps [simp]: "\<not> has_key {} k" "has_key (insert e a) k \<longleftrightarrow> ukey e = k \<or> has_key a k"
  "has_key (a \<union> b) k \<longleftrightarrow> has_key a k \<or> has_key b k" "has_key (\<Union> A) k \<longleftrightarrow> (\<exists>a \<in> A. has_key a k)"
  by (auto simp: has_key_def)

lemma sees_empty [simp]: "sees {} k r \<longleftrightarrow> r = None"
  by (auto simp: sees_def is_latest_def)

lemma sees_newer_Some:
  assumes "newer a b" "has_key a k" "sees a k r"
  shows "sees (a \<union> b) k r"
proof -
  obtain e where e: "is_latest a k e" "r = entry_result e" using assms(2,3) by (auto simp: sees_def)
  have "is_latest (a \<union> b) k e" using e(1) assms(1) by (force simp: is_latest_def newer_def)
  then show ?thesis using e(2) by (auto simp: sees_def)
qed

lemma sees_skip:
  assumes "\<not> has_key a k"
  shows "sees (a \<union> b) k r \<longleftrightarrow> sees b k r"
proof -
  have "is_latest (a \<union> b) k e \<longleftrightarrow> is_latest b k e" for e using assms by (auto simp: is_latest_def has_key_def)
  then show ?thesis using assms by (simp add: sees_def)
qed

lemma sees_skip_right: "\<not> has_key b k \<Longrightarrow> sees (a \<union> b) k r \<longleftrightarrow> sees a k r"
  using sees_skip [of b k a r] by (simp add: Un_commute)

lemma sees_newest:
  assumes "sees E k r" "\<forall>x \<in> E. eseq x < eseq e"
  shows "sees (insert e E) k (if ukey e = k then entry_result e else r)"
proof (cases "ukey e = k")
  case True
  then have "is_latest (insert e E) k e" using assms(2) by (auto simp: is_latest_def)
  then show ?thesis using True by (auto simp: sees_def)
next
  case False
  then show ?thesis using assms(1) sees_skip [of "{e}" k E r] by (simp add: sees_def)
qed

section \<open>Memtables hold what was added\<close>

definition table_find :: "string \<Rightarrow> entry list \<Rightarrow> entry option" where
  "table_find k t = List.find (\<lambda>e. ukey e = k) t"

lemma table_find_simps [simp]:
  "table_find k [] = None"
  "table_find k (e # t) = (if ukey e = k then Some e else table_find k t)"
  by (simp_all add: table_find_def)

lemma table_find_None: "table_find k t = None \<longleftrightarrow> \<not> has_key (set t) k"
  by (induction t) auto

lemma table_find_latest: "table_sorted t \<Longrightarrow> table_find k t = Some e \<Longrightarrow> is_latest (set t) k e"
proof (induction t)
  case (Cons d t)
  show ?case
  proof (cases "ukey d = k")
    case True
    then show ?thesis using Cons.prems by (auto simp: is_latest_def eless_def)
  next
    case False
    then show ?thesis using Cons by (simp add: is_latest_def)
  qed
qed simp

lemma table_find_sees: "table_sorted t \<Longrightarrow> sees (set t) k (Option.bind (table_find k t) entry_result)"
  using table_find_None [of k t] table_find_latest [of t k] by (cases "table_find k t") (auto simp: sees_def)

lemma MemTable_Get_find:
  assumes "table_sorted t" and "\<forall>e \<in> set t. eseq e \<le> s"
  shows "MemTable_Get k s t = map_option entry_result (table_find k t)"
  using assms
proof (induction t)
  case Nil
  then show ?case by (simp add: MemTable_Get_def)
next
  case (Cons e t)
  let ?q = "Entry k s kTypeValue []"
  have tag: "etag e \<le> etag ?q"
    using Cons.prems(2) by (cases "etype e") (auto simp: etag_def PackSequenceAndType_eq)
  show ?case
  proof (cases "ikey_less e ?q")
    case True
    then have "ukey e \<noteq> k" using tag by (auto simp: ikey_less_def)
    then show ?thesis using True Cons by (simp add: MemTable_Get_def)
  next
    case False
    then have ge: "k \<le> ukey e" using tag by (auto simp: ikey_less_def)
    have "table_find k t = None" if "k \<noteq> ukey e"
      using that ge Cons.prems(1) by (fastforce simp: table_find_None has_key_def dest: eless_le)
    then show ?thesis using False
      by (cases e) (auto simp: MemTable_Get_def split: ValueType.splits)
  qed
qed

lemma MemTable_Get_sees:
  assumes "table_sorted t" "\<forall>e \<in> set t. eseq e \<le> s"
  shows "MemTable_Get k s t = None \<longleftrightarrow> \<not> has_key (set t) k"
    and "MemTable_Get k s t = Some r \<Longrightarrow> sees (set t) k r \<and> has_key (set t) k"
proof -
  have "has_key (set t) k \<longleftrightarrow> table_find k t \<noteq> None" using table_find_None [of k t] by simp
  then show "MemTable_Get k s t = None \<longleftrightarrow> \<not> has_key (set t) k"
    "MemTable_Get k s t = Some r \<Longrightarrow> sees (set t) k r \<and> has_key (set t) k"
    using MemTable_Get_find [OF assms, of k] table_find_sees [OF assms(1), of k] by auto
qed

lemma set_MemTable_Add: "set (MemTable_Add s ty k v t) = insert (Entry k s ty v) (set t)"
proof -
  let ?P = "\<lambda>x. ikey_less x (Entry k s ty v)"
  have "set t = set (takeWhile ?P t) \<union> set (dropWhile ?P t)"
    by (metis set_append takeWhile_dropWhile_id)
  then show ?thesis by (auto simp: MemTable_Add_def Let_def)
qed

lemma table_sorted_dropWhile:
  "table_sorted t \<Longrightarrow> x \<in> set (dropWhile (\<lambda>y. ikey_less y e) t) \<Longrightarrow> \<not> ikey_less x e"
proof (induction t)
  case (Cons a t)
  then show ?case by (cases "ikey_less a e") (simp_all, metis ikey_less_trans eless_ikey)
qed simp

lemma MemTable_Add_sorted:
  assumes "table_sorted t" and "\<forall>e \<in> set t. eseq e < s"
  shows "table_sorted (MemTable_Add s ty k v t)"
proof -
  let ?e = "Entry k s ty v"
  let ?a = "takeWhile (\<lambda>x. ikey_less x ?e) t" and ?b = "dropWhile (\<lambda>x. ikey_less x ?e) t"
  have ab: "table_sorted ?a" "table_sorted ?b" "\<forall>x \<in> set ?a. \<forall>y \<in> set ?b. eless x y"
    using table_sorted_append [of ?a ?b] assms(1) by simp_all
  have a: "eless x ?e" if "x \<in> set ?a" for x
    using set_takeWhileD [OF that] assms(2) by (intro ikey_eless) auto
  have b: "eless ?e x" if "x \<in> set ?b" for x
    using table_sorted_dropWhile [OF assms(1) that] assms(2) set_dropWhileD [OF that] by (intro not_ikey_eless) auto
  show ?thesis using ab a b unfolding MemTable_Add_def Let_def by (simp add: table_sorted_append)
qed

text \<open>The effect of a batch of operations on what is held for a key.\<close>

fun ops_get :: "batch_op list \<Rightarrow> string \<Rightarrow> string option \<Rightarrow> string option" where
  "ops_get [] j r = r"
| "ops_get (Handler_Put k v # ops) j r = ops_get ops j (if j = k then Some v else r)"
| "ops_get (Handler_Delete k # ops) j r = ops_get ops j (if j = k then None else r)"

lemma MemTableInserter_sees:
  assumes "\<forall>e \<in> set t \<union> E. eseq e < s" "sees (set t \<union> E) j r"
  shows "sees (set (MemTableInserter ops s t) \<union> E) j (ops_get ops j r)"
  using assms
proof (induction ops s t arbitrary: r rule: MemTableInserter.induct)
  case (2 k v ops s t)
  have "sees (insert (Entry k s kTypeValue v) (set t \<union> E)) j (if j = k then Some v else r)"
    using sees_newest [OF 2(3), of "Entry k s kTypeValue v"] 2(2) by (auto split: if_splits)
  then show ?case using 2 by (simp add: set_MemTable_Add less_Suc_eq)
next
  case (3 k ops s t)
  have "sees (insert (Entry k s kTypeDeletion []) (set t \<union> E)) j (if j = k then None else r)"
    using sees_newest [OF 3(3), of "Entry k s kTypeDeletion []"] 3(2) by (auto split: if_splits)
  then show ?case using 3 by (simp add: set_MemTable_Add less_Suc_eq)
qed simp

lemma MemTableInserter_inv:
  assumes "\<forall>e \<in> set t. eseq e < s" and "table_sorted t"
  shows "table_sorted (MemTableInserter ops s t) \<and>
    (\<forall>e \<in> set (MemTableInserter ops s t). eseq e < s + length ops \<and> (e \<in> set t \<or> s \<le> eseq e))"
  using assms
proof (induction ops s t rule: MemTableInserter.induct)
  case (2 k v ops s t)
  then show ?case
    using MemTable_Add_sorted [of t s] by (fastforce simp: set_MemTable_Add less_Suc_eq)
next
  case (3 k ops s t)
  then show ?case
    using MemTable_Add_sorted [of t s] by (fastforce simp: set_MemTable_Add less_Suc_eq)
qed simp

section \<open>The iterators read the newest entries in key order\<close>

text \<open>The children of a merging iterator: sorted, and no two hold the same internal key.\<close>

definition children_ok :: "entry list list \<Rightarrow> bool" where
  "children_ok cs \<longleftrightarrow> (\<forall>t \<in> set cs. table_sorted t) \<and> sorted_wrt (\<lambda>a b. apart (set a) (set b)) cs"

lemma children_ok_simps [simp]: "children_ok []"
  "children_ok (t # cs) \<longleftrightarrow> table_sorted t \<and> (\<forall>u \<in> set cs. apart (set t) (set u)) \<and> children_ok cs"
  by (auto simp: children_ok_def)

lemma FindSmallest_least:
  assumes "FindSmallest i cs sm = r" "case sm of None \<Rightarrow> True | Some (j, d) \<Rightarrow> \<forall>c \<in> set cs. apart {d} (set c)"
    and "children_ok cs"
  shows "case r of None \<Rightarrow> sm = None \<and> (\<forall>c \<in> set cs. c = [])
    | Some (j, e) \<Rightarrow> (\<forall>c \<in> set cs. c \<noteq> [] \<longrightarrow> hd c = e \<or> eless e (hd c)) \<and>
        (\<forall>jd. sm = Some jd \<longrightarrow> snd jd = e \<or> eless e (snd jd))"
  using assms
proof (induction i cs sm arbitrary: r rule: FindSmallest.induct)
  case (3 i e es cs sm)
  let ?sm = "case sm of None \<Rightarrow> Some (i, e) | Some (j, d) \<Rightarrow> if ikey_less e d then Some (i, e) else sm"
  have P: "case ?sm of None \<Rightarrow> True | Some (j, d) \<Rightarrow> \<forall>c \<in> set cs. apart {d} (set c)"
    using 3(3,4) by (auto simp: apart_def split: option.splits)
  have cmp: "eless e d" if "sm = Some (j, d)" "ikey_less e d" for j d
    using that 3(3) by (intro ikey_eless) (auto simp: apart_def)
  have ncmp: "eless d e" if "sm = Some (j, d)" "\<not> ikey_less e d" for j d
    using that 3(3) by (intro not_ikey_eless) (auto simp: apart_def)
  show ?case using 3(1) [of r, OF _ P] 3(2,4) cmp ncmp
    by (auto split: option.splits if_splits dest: eless_trans)
qed (auto split: option.splits)

lemma children_ok_nth:
  "children_ok cs \<longleftrightarrow> (\<forall>i < length cs. table_sorted (cs ! i)) \<and>
     (\<forall>i < length cs. \<forall>j < length cs. i \<noteq> j \<longrightarrow> apart (set (cs ! i)) (set (cs ! j)))"
  unfolding children_ok_def sorted_wrt_iff_nth_less all_set_conv_all_nth by (metis apart_sym nat_neq_iff order.strict_trans)

lemma apart_subset: "apart a b \<Longrightarrow> a' \<subseteq> a \<Longrightarrow> apart a' b"
  by (auto simp: apart_def)

lemma children_ok_update:
  assumes "children_ok cs" "i < length cs" "table_sorted es" "set es \<subseteq> set (cs ! i)"
  shows "children_ok (cs[i := es])"
  unfolding children_ok_nth
proof (intro conjI allI impI)
  fix j k assume jk: "j < length (cs[i := es])" "k < length (cs[i := es])" "j \<noteq> k"
  have "apart (set (cs ! j)) (set (cs ! k))" using assms(1) jk by (simp add: children_ok_nth)
  then show "apart (set (cs[i := es] ! j)) (set (cs[i := es] ! k))"
    using jk assms(4) by (metis apart_subset apart_sym length_list_update nth_list_update_eq nth_list_update_neq)
qed (use assms in \<open>simp add: children_ok_nth nth_list_update\<close>)

lemma children_union:
  assumes "i < length cs" "cs ! i = (e :: 'a) # es"
  shows "\<Union> (set ` set cs) = insert e (\<Union> (set ` set (cs[i := es])))"
proof -
  have nth: "\<Union> (set ` set (ds :: 'a list list)) = {x. \<exists>j < length ds. x \<in> set (ds ! j)}" for ds
    by (auto simp: set_conv_nth)
  have "(\<exists>j < length cs. x \<in> set (cs ! j)) \<longleftrightarrow> x = e \<or> (\<exists>j < length cs. x \<in> set (cs[i := es] ! j))" for x
    using assms by (metis nth_list_update_eq nth_list_update_neq set_ConsD list.set_intros)
  then show ?thesis by (intro set_eqI) (simp only: nth mem_Collect_eq insert_iff length_list_update)
qed

lemma MergingIterator_sorted:
  "children_ok cs \<Longrightarrow> table_sorted (MergingIterator cs) \<and> set (MergingIterator cs) = \<Union> (set ` set cs)"
proof (induction cs rule: MergingIterator.induct)
  case (1 cs)
  note L = FindSmallest_least [of 0 cs None, OF refl _ 1(2)]
  show ?case
  proof (cases "FindSmallest 0 cs None")
    case None
    then show ?thesis using L by (simp add: MergingIterator.simps [of cs])
  next
    case (Some p)
    obtain i e where f: "FindSmallest 0 cs None = Some (i, e)" using Some by (cases p) auto
    obtain es where i: "i < length cs" "cs ! i = e # es" using FindSmallest_child [OF f] by auto
    let ?cs = "cs[i := es]"
    have srt: "table_sorted (e # es)" using 1(2) i children_ok_nth [of cs] by metis
    have ok: "children_ok ?cs" using children_ok_update [OF 1(2) i(1), of es] srt i(2) by auto
    have IH: "table_sorted (MergingIterator ?cs)" "set (MergingIterator ?cs) = \<Union> (set ` set ?cs)"
      using 1(1) [OF f refl] ok i(2) by simp_all
    have less: "eless e x" if x: "x \<in> set (?cs ! j)" "j < length cs" for x j
    proof (cases "j = i")
      case True
      then show ?thesis using x srt i by simp
    next
      case False
      then have c: "x \<in> set (cs ! j)" "cs ! j \<noteq> []" using x by auto
      have "apart (set (cs ! i)) (set (cs ! j))" using 1(2) i(1) x(2) False by (simp add: children_ok_nth)
      then have "hd (cs ! j) \<noteq> e" using i(2) c(2) by (auto simp: apart_def)
      then have h: "eless e (hd (cs ! j))" using L f c(2) x(2) by auto
      have "table_sorted (cs ! j)" using 1(2) x(2) by (simp add: children_ok_nth)
      then have "x = hd (cs ! j) \<or> eless (hd (cs ! j)) x" using c by (cases "cs ! j") auto
      then show ?thesis using h eless_trans by blast
    qed
    note U = children_union [OF i]
    have "\<forall>x \<in> \<Union> (set ` set ?cs). eless e x" using less by (fastforce simp: in_set_conv_nth)
    then show ?thesis using IH U i(2) f by (simp add: MergingIterator.simps [of cs])
  qed
qed

definition skips :: "bool \<Rightarrow> string \<Rightarrow> string \<Rightarrow> bool" where
  "skips b sk k \<longleftrightarrow> b \<and> k \<le> sk"

lemma DBIter_all_FindNext:
  assumes "table_sorted m" "\<forall>e \<in> set m. eseq e \<le> s" "b \<Longrightarrow> \<forall>e \<in> set m. sk \<le> ukey e"
  shows "map_of (DBIter_all s (FindNextUserEntry s b sk m)) k =
      (if skips b sk k then None else Option.bind (table_find k m) entry_result)"
    and "sorted_wrt (<) (map fst (DBIter_all s (FindNextUserEntry s b sk m))) \<and>
      (\<forall>k \<in> fst ` set (DBIter_all s (FindNextUserEntry s b sk m)). \<not> skips b sk k \<and> (\<exists>e \<in> set m. ukey e = k))"
  using assms
proof (induction m arbitrary: b sk)
  case (Cons e m)
  case 1
  let ?it = "\<lambda>b sk. DBIter_all s (FindNextUserEntry s b sk m)"
  have le: "\<forall>x \<in> set m. ukey e \<le> ukey x" using 1(1) eless_le by auto
  then have lt: "k < ukey e \<Longrightarrow> table_find k m = None" by (force simp: table_find_None has_key_def)
  have T: "map_of (?it True (ukey e)) k = (if k \<le> ukey e then None else Option.bind (table_find k m) entry_result)"
    using Cons.IH(1) [of True "ukey e"] 1 le by (simp add: skips_def)
  have B: "map_of (?it b sk) k = (if skips b sk k then None else Option.bind (table_find k m) entry_result)"
    using Cons.IH(1) [of b sk] 1 by simp
  have sk: "b \<Longrightarrow> sk \<le> ukey e" using 1(3) by simp
  have seq: "eseq e \<le> s" using 1(2) by simp
  obtain q v ty where e: "e = Entry (ukey e) q ty v" by (metis entry.collapse)
  show ?case
  proof (cases ty)
    case kTypeDeletion
    then have "map_of (DBIter_all s (FindNextUserEntry s b sk (e # m))) k = map_of (?it True (ukey e)) k"
      using seq by (subst e) (simp, metis e entry.sel(2))
    moreover have "entry_result e = None" using kTypeDeletion e by (metis entry_result.simps(2))
    ultimately show ?thesis using T lt sk by (auto simp: skips_def)
  next
    case kTypeValue
    have ty: "etype e = kTypeValue" "entry_result e = Some (evalue e)"
      using kTypeValue e by (metis entry.sel(3)) (metis kTypeValue e entry_result.simps(1) entry.sel(4))
    show ?thesis
    proof (cases "b \<and> ukey e \<le> sk")
      case True
      then show ?thesis using B ty(1) seq sk by (auto simp: skips_def)
    next
      case False
      then show ?thesis using T lt ty seq by (auto simp: DBIter_Next_def skips_def)
    qed
  qed
next
  case (Cons e m)
  case 2
  let ?it = "\<lambda>b sk. DBIter_all s (FindNextUserEntry s b sk m)"
  have le: "\<forall>x \<in> set m. ukey e \<le> ukey x" using 2(1) eless_le by auto
  have T: "sorted_wrt (<) (map fst (?it True (ukey e))) \<and>
      (\<forall>k \<in> fst ` set (?it True (ukey e)). ukey e < k \<and> (\<exists>x \<in> set m. ukey x = k))"
    using Cons.IH(2) [of True "ukey e"] 2 le by (simp add: skips_def not_le)
  have B: "sorted_wrt (<) (map fst (?it b sk)) \<and>
      (\<forall>k \<in> fst ` set (?it b sk). \<not> skips b sk k \<and> (\<exists>x \<in> set m. ukey x = k))"
    using Cons.IH(2) [of b sk] 2 by simp
  have sk: "b \<Longrightarrow> sk \<le> ukey e" using 2(3) by simp
  have seq: "eseq e \<le> s" using 2(2) by simp
  show ?case
  proof (cases "etype e")
    case kTypeDeletion
    then show ?thesis using T sk seq by (fastforce simp: skips_def)
  next
    case kTypeValue
    then show ?thesis using T B sk seq
      by (cases "b \<and> ukey e \<le> sk") (fastforce simp: skips_def DBIter_Next_def)+
  qed
qed simp_all

end
