(* ===== verification/Versions.thy ===== *)
theory Versions
  imports LevelDb "HOL-Library.Extended_Nat"
begin

text \<open>
  The table files of a LevelDB database on their seven levels (\<open>db/version_set.cc\<close>): the
  binary search for a file, the overlap tests, the level a flushed memtable goes to, the
  version that an edit makes of another, and lookups. A file carries the entries its table
  holds, in place of the table format and the table cache; \<open>smallest\<close> and \<open>largest\<close> are kept
  as entries of which only the internal key counts. A search key is a user key and a packed
  sequence number and type; as sequence numbers are unbounded here, \<open>kMaxSequenceNumber\<close> is
  infinite.
\<close>

section \<open>Files\<close>

record FileMetaData =
  fnumber :: nat
  file_size :: nat
  smallest :: entry
  largest :: entry
  ftable :: "entry list"

type_synonym Version = "nat \<Rightarrow> FileMetaData list"

type_synonym search_key = "string \<times> enat"

definition kNumLevels :: nat where
  "kNumLevels = 7"

definition kMaxMemCompactLevel :: nat where
  "kMaxMemCompactLevel = 2"

text \<open>
  The tag of \<open>kMaxSequenceNumber\<close> in a search key. Sequence numbers have 56 bits in the code and
  are unbounded here, so the tag that is larger than all others is infinite.
\<close>

definition max_tag :: enat where
  "max_tag = \<infinity>"

text \<open>\<open>Compare(e, key) < 0\<close>.\<close>

definition ikey_before :: "entry \<Rightarrow> search_key \<Rightarrow> bool" where
  "ikey_before e key \<longleftrightarrow> ukey e < fst key \<or> (ukey e = fst key \<and> snd key < enat (etag e))"

function FindFile_loop :: "FileMetaData list \<Rightarrow> search_key \<Rightarrow> nat \<Rightarrow> nat \<Rightarrow> nat" where
  "FindFile_loop files key left right =
     (if left < right then
        (let mid = (left + right) div 2
         in if ikey_before (largest (files ! mid)) key then FindFile_loop files key (mid + 1) right
            else FindFile_loop files key left mid)
      else right)"
  by pat_completeness auto
termination
  by (relation "measure (\<lambda>(_, _, l, r). r - l)") auto

declare FindFile_loop.simps [simp del]

definition FindFile :: "FileMetaData list \<Rightarrow> search_key \<Rightarrow> nat" where
  "FindFile files key = FindFile_loop files key 0 (length files)"

text \<open>A null key comes before all keys as a lower and after all keys as an upper bound.\<close>

definition AfterFile :: "string option \<Rightarrow> FileMetaData \<Rightarrow> bool" where
  "AfterFile user_key f = (case user_key of None \<Rightarrow> False | Some k \<Rightarrow> ukey (largest f) < k)"

definition BeforeFile :: "string option \<Rightarrow> FileMetaData \<Rightarrow> bool" where
  "BeforeFile user_key f = (case user_key of None \<Rightarrow> False | Some k \<Rightarrow> k < ukey (smallest f))"

definition SomeFileOverlapsRange :: "bool \<Rightarrow> FileMetaData list \<Rightarrow> string option \<Rightarrow> string option \<Rightarrow> bool" where
  "SomeFileOverlapsRange disjoint_sorted_files files smallest_user_key largest_user_key =
     (if \<not> disjoint_sorted_files then
        list_ex (\<lambda>f. \<not> (AfterFile smallest_user_key f \<or> BeforeFile largest_user_key f)) files
      else
        (let index = (case smallest_user_key of None \<Rightarrow> 0 | Some k \<Rightarrow> FindFile files (k, max_tag))
         in if index \<ge> length files then False else \<not> BeforeFile largest_user_key (files ! index)))"

definition OverlapInLevel :: "Version \<Rightarrow> nat \<Rightarrow> string option \<Rightarrow> string option \<Rightarrow> bool" where
  "OverlapInLevel v level lo hi = SomeFileOverlapsRange (level > 0) (v level) lo hi"

text \<open>
  The scan of \<open>GetOverlappingInputs\<close> from position \<open>i\<close> on: on level 0 a file that sticks out of
  the range widens it and restarts the scan.
\<close>

function GetOverlapping_loop ::
  "bool \<Rightarrow> FileMetaData list \<Rightarrow> string option \<Rightarrow> string option \<Rightarrow> nat \<Rightarrow> FileMetaData list \<Rightarrow> FileMetaData list" where
  "GetOverlapping_loop level0 files user_begin user_end i inputs =
     (if i < length files then
        (let f = files ! i
         in if AfterFile user_begin f then GetOverlapping_loop level0 files user_begin user_end (i + 1) inputs
            else if BeforeFile user_end f then GetOverlapping_loop level0 files user_begin user_end (i + 1) inputs
            else if level0 \<and> (case user_begin of None \<Rightarrow> False | Some b \<Rightarrow> ukey (smallest f) < b)
            then GetOverlapping_loop level0 files (Some (ukey (smallest f))) user_end 0 []
            else if level0 \<and> (case user_end of None \<Rightarrow> False | Some e \<Rightarrow> e < ukey (largest f))
            then GetOverlapping_loop level0 files user_begin (Some (ukey (largest f))) 0 []
            else GetOverlapping_loop level0 files user_begin user_end (i + 1) (inputs @ [f]))
      else inputs)"
  by pat_completeness auto

definition sticking_out :: "FileMetaData list \<Rightarrow> string option \<Rightarrow> string option \<Rightarrow> nat" where
  "sticking_out files b e =
     length (filter (\<lambda>f. case b of None \<Rightarrow> False | Some k \<Rightarrow> ukey (smallest f) < k) files) +
     length (filter (\<lambda>f. case e of None \<Rightarrow> False | Some k \<Rightarrow> k < ukey (largest f)) files)"

lemma length_filter_strict: "f \<in> set xs \<Longrightarrow> P f \<Longrightarrow> \<not> Q f \<Longrightarrow> (\<And>x. Q x \<Longrightarrow> P x) \<Longrightarrow>
    length (filter Q xs) < length (filter P xs)"
proof (induction xs)
  case (Cons x xs)
  have "length (filter Q xs) \<le> length (filter P xs)" using Cons.prems(4) by (induction xs) (auto simp: le_SucI)
  then show ?case using Cons by (auto simp: less_Suc_eq)
qed simp

lemma sticking_out_less:
  "f \<in> set fs \<Longrightarrow> ukey (smallest f) < b \<Longrightarrow> sticking_out fs (Some (ukey (smallest f))) e < sticking_out fs (Some b) e"
  "f \<in> set fs \<Longrightarrow> k < ukey (largest f) \<Longrightarrow> sticking_out fs c (Some (ukey (largest f))) < sticking_out fs c (Some k)"
  by (auto simp: sticking_out_def intro: length_filter_strict)

termination GetOverlapping_loop
proof (relation "measures [\<lambda>(_, fs, b, e, _, _). sticking_out fs b e, \<lambda>(_, fs, _, _, i, _). length fs - i]", goal_cases)
  case (4 level0 files b e i inputs f)
  then show ?case by (cases b) (simp_all add: sticking_out_less(1))
next
  case (5 level0 files b e i inputs f)
  then show ?case by (cases e) (simp_all add: sticking_out_less(2))
qed auto

declare GetOverlapping_loop.simps [simp del]

definition GetOverlappingInputs :: "Version \<Rightarrow> nat \<Rightarrow> entry option \<Rightarrow> entry option \<Rightarrow> FileMetaData list" where
  "GetOverlappingInputs v level b e =
     GetOverlapping_loop (level = 0) (v level) (map_option ukey b) (map_option ukey e) 0 []"

text \<open>
  The size limits, static variables set when a database is opened. The products are computed
  in \<open>int\<close>, where they wrap around, and then widened.
\<close>

record SizeLimits =
  kTargetFileSize :: int
  kMaxGrandParentOverlapBytes :: int
  kExpandedCompactionByteSizeLimit :: int

definition setTargetFileSize :: "int \<Rightarrow> SizeLimits" where
  "setTargetFileSize mb =
     (let target = to_i32 (mb * 1048576)
      in \<lparr>kTargetFileSize = target, kMaxGrandParentOverlapBytes = to_i32 (10 * target),
          kExpandedCompactionByteSizeLimit = to_i32 (25 * target)\<rparr>)"

definition MaxFileSizeForLevel :: "SizeLimits \<Rightarrow> nat" where
  "MaxFileSizeForLevel lims = to_u64 (kTargetFileSize lims)"

definition TotalFileSize :: "FileMetaData list \<Rightarrow> nat" where
  "TotalFileSize files = sum_list (map file_size files)"

text \<open>
  The loop of \<open>PickLevelForMemTableOutput\<close>; \<open>limit\<close> is \<open>kMaxGrandParentOverlapBytes\<close>.
\<close>

function PickLevel_loop :: "int \<Rightarrow> Version \<Rightarrow> string \<Rightarrow> string \<Rightarrow> nat \<Rightarrow> nat" where
  "PickLevel_loop limit v lo hi level =
     (if level < kMaxMemCompactLevel then
        (if OverlapInLevel v (level + 1) (Some lo) (Some hi) then level
         else if int (TotalFileSize (GetOverlappingInputs v (level + 2) (Some (Entry lo 0 kTypeValue []))
                 (Some (Entry hi 0 kTypeDeletion [])))) > limit then level
         else PickLevel_loop limit v lo hi (level + 1))
      else level)"
  by pat_completeness auto
termination
  by (relation "measure (\<lambda>(_, _, _, _, l). kMaxMemCompactLevel - l)") auto

declare PickLevel_loop.simps [simp del]

definition PickLevelForMemTableOutput :: "int \<Rightarrow> Version \<Rightarrow> string \<Rightarrow> string \<Rightarrow> nat" where
  "PickLevelForMemTableOutput limit v lo hi =
     (if OverlapInLevel v 0 (Some lo) (Some hi) then 0 else PickLevel_loop limit v lo hi 0)"

section \<open>Lookups\<close>

text \<open>The files \<open>Version::Get\<close> reads on a level, in the order it reads them.\<close>

definition level_files :: "Version \<Rightarrow> string \<Rightarrow> nat \<Rightarrow> nat \<Rightarrow> FileMetaData list" where
  "level_files v user_key snapshot level =
     (if level = 0 then
        rev (sort_key fnumber
          (filter (\<lambda>f. ukey (smallest f) \<le> user_key \<and> user_key \<le> ukey (largest f)) (v 0)))
      else
        (let index = FindFile (v level) (user_key, enat (PackSequenceAndType snapshot kTypeValue))
         in if index \<ge> length (v level) then []
            else if user_key < ukey (smallest (v level ! index)) then []
            else [v level ! index]))"

fun search_files :: "string \<Rightarrow> nat \<Rightarrow> FileMetaData list \<Rightarrow> string option option" where
  "search_files user_key snapshot [] = None"
| "search_files user_key snapshot (f # files) =
     (case MemTable_Get user_key snapshot (ftable f) of
        Some r \<Rightarrow> Some r
      | None \<Rightarrow> search_files user_key snapshot files)"

fun search_levels :: "Version \<Rightarrow> string \<Rightarrow> nat \<Rightarrow> nat list \<Rightarrow> string option" where
  "search_levels v user_key snapshot [] = None"
| "search_levels v user_key snapshot (level # levels) =
     (case search_files user_key snapshot (level_files v user_key snapshot level) of
        Some r \<Rightarrow> r
      | None \<Rightarrow> search_levels v user_key snapshot levels)"

definition Version_Get :: "Version \<Rightarrow> string \<Rightarrow> nat \<Rightarrow> string option" where
  "Version_Get v user_key snapshot = search_levels v user_key snapshot [0..<kNumLevels]"

text \<open>One iterator per level-0 file, one that runs through the files of a level for the others.\<close>

definition AddIterators :: "Version \<Rightarrow> entry list list" where
  "AddIterators v =
     map ftable (v 0) @ map (\<lambda>level. concat (map ftable (v level))) (filter (\<lambda>level. v level \<noteq> []) [1..<kNumLevels])"

section \<open>Edits\<close>

record VersionEdit =
  deleted_files :: "(nat \<times> nat) list"
  new_files :: "(nat \<times> FileMetaData) list"

definition BySmallestKey :: "FileMetaData \<Rightarrow> FileMetaData \<Rightarrow> bool" where
  "BySmallestKey f1 f2 \<longleftrightarrow> ikey_less (smallest f1) (smallest f2) \<or>
     (\<not> ikey_less (smallest f2) (smallest f1) \<and> fnumber f1 < fnumber f2)"

text \<open>Insertion into the \<open>std::set\<close> of added files.\<close>

fun FileSet_insert :: "FileMetaData \<Rightarrow> FileMetaData list \<Rightarrow> FileMetaData list" where
  "FileSet_insert f [] = [f]"
| "FileSet_insert f (g # gs) =
     (if BySmallestKey g f then g # FileSet_insert f gs
      else if BySmallestKey f g then f # g # gs
      else g # gs)"

definition added_files :: "VersionEdit \<Rightarrow> nat \<Rightarrow> FileMetaData list" where
  "added_files edit level = fold FileSet_insert (map snd (filter (\<lambda>(l, f). l = level) (new_files edit))) []"

text \<open>The numbers \<open>Apply\<close> leaves in \<open>deleted_files\<close> of a level.\<close>

definition is_deleted :: "VersionEdit \<Rightarrow> nat \<Rightarrow> FileMetaData \<Rightarrow> bool" where
  "is_deleted edit level f \<longleftrightarrow> (level, fnumber f) \<in> set (deleted_files edit) \<and>
     fnumber f \<notin> (fnumber \<circ> snd) ` set (filter (\<lambda>(l, g). l = level) (new_files edit))"

text \<open>\<open>SaveTo\<close> on one level, \<open>MaybeAddFile\<close> included.\<close>

fun SaveTo_level :: "(FileMetaData \<Rightarrow> bool) \<Rightarrow> FileMetaData list \<Rightarrow> FileMetaData list \<Rightarrow> FileMetaData list" where
  "SaveTo_level del base [] = filter (\<lambda>f. \<not> del f) base"
| "SaveTo_level del base (a # added) =
     filter (\<lambda>f. \<not> del f) (takeWhile (\<lambda>b. \<not> BySmallestKey a b) base) @ filter (\<lambda>f. \<not> del f) [a] @
     SaveTo_level del (dropWhile (\<lambda>b. \<not> BySmallestKey a b) base) added"

definition LogAndApply :: "VersionEdit \<Rightarrow> Version \<Rightarrow> Version" where
  "LogAndApply edit v = (\<lambda>level. SaveTo_level (is_deleted edit level) (v level) (added_files edit level))"

section \<open>The invariant\<close>

abbreviation tset :: "FileMetaData \<Rightarrow> entry set" where
  "tset f \<equiv> set (ftable f)"

definition level_set :: "Version \<Rightarrow> nat \<Rightarrow> entry set" where
  "level_set v l = \<Union> (tset ` set (v l))"

definition version_set :: "Version \<Rightarrow> entry set" where
  "version_set v = (\<Union>l < kNumLevels. level_set v l)"

text \<open>A file with its bounds, sequence numbers up to \<open>s\<close>.\<close>

definition file_ok :: "nat \<Rightarrow> FileMetaData \<Rightarrow> bool" where
  "file_ok s f \<longleftrightarrow> ftable f \<noteq> [] \<and> table_sorted (ftable f) \<and> smallest f = hd (ftable f) \<and>
     largest f = last (ftable f) \<and> (\<forall>e \<in> tset f. eseq e \<le> s)"

definition before_file :: "FileMetaData \<Rightarrow> FileMetaData \<Rightarrow> bool" where
  "before_file f g \<longleftrightarrow> ukey (largest f) < ukey (smallest g)"

abbreviation disjoint_files :: "FileMetaData list \<Rightarrow> bool" where
  "disjoint_files fs \<equiv> sorted_wrt before_file fs"

text \<open>
  Files on level 0 may overlap and the larger number is newer; on the other levels they are
  sorted with disjoint ranges of user keys; a lower level is newer; numbers are unique.
\<close>

definition version_inv :: "nat \<Rightarrow> Version \<Rightarrow> bool" where
  "version_inv s v \<longleftrightarrow>
     (\<forall>l. \<forall>f \<in> set (v l). file_ok s f) \<and> (\<forall>l \<ge> kNumLevels. v l = []) \<and> (\<forall>l > 0. disjoint_files (v l)) \<and>
     (\<forall>f \<in> set (v 0). \<forall>g \<in> set (v 0). fnumber f < fnumber g \<longrightarrow> newer (tset g) (tset f)) \<and>
     (\<forall>l m. l < m \<longrightarrow> newer (level_set v l) (level_set v m)) \<and>
     (\<forall>l m. \<forall>f \<in> set (v l). \<forall>g \<in> set (v m). fnumber f = fnumber g \<longrightarrow> l = m \<and> f = g) \<and>
     (\<forall>l. distinct (v l))"

lemma version_inv_ok: "version_inv s v \<Longrightarrow> f \<in> set (v l) \<Longrightarrow> file_ok s f"
  by (simp add: version_inv_def)

lemma version_inv_newer: "version_inv s v \<Longrightarrow> l < m \<Longrightarrow> newer (level_set v l) (level_set v m)"
  by (simp add: version_inv_def)

lemma version_inv_disjoint: "version_inv s v \<Longrightarrow> 0 < l \<Longrightarrow> disjoint_files (v l)"
  by (simp add: version_inv_def)

lemma file_ok_range:
  assumes "file_ok s f" "e \<in> tset f"
  shows "ukey (smallest f) \<le> ukey e" "ukey e \<le> ukey (largest f)"
  using assms table_sorted_hd [of "ftable f" e] table_sorted_last [of "ftable f" e] by (auto simp: file_ok_def)

lemma file_ok_bounds: "file_ok s f \<Longrightarrow> ukey (smallest f) \<le> ukey (largest f)"
  using file_ok_range [of s f "hd (ftable f)"] by (auto simp: file_ok_def)

lemma file_ok_has_key:
  "file_ok s f \<Longrightarrow> has_key (tset f) k \<Longrightarrow> ukey (smallest f) \<le> k \<and> k \<le> ukey (largest f)"
  using file_ok_range [of s f] by (auto simp: has_key_def)

lemma file_ok_mono: "file_ok s f \<Longrightarrow> s \<le> s' \<Longrightarrow> file_ok s' f"
  by (fastforce simp: file_ok_def)

section \<open>The binary search\<close>

lemma FindFile_loop_split:
  assumes "left \<le> right" "right \<le> length files"
    and "\<forall>i < left. ikey_before (largest (files ! i)) key"
    and "\<forall>i. right \<le> i \<and> i < length files \<longrightarrow> \<not> ikey_before (largest (files ! i)) key"
    and "\<forall>i j. i < j \<and> j < length files \<and> ikey_before (largest (files ! j)) key \<longrightarrow> ikey_before (largest (files ! i)) key"
  shows "let r = FindFile_loop files key left right in r \<le> length files \<and>
    (\<forall>i < r. ikey_before (largest (files ! i)) key) \<and>
    (\<forall>i. r \<le> i \<and> i < length files \<longrightarrow> \<not> ikey_before (largest (files ! i)) key)"
  using assms
proof (induction files key left right rule: FindFile_loop.induct)
  case (1 files key left right)
  let ?mid = "(left + right) div 2"
  show ?case
  proof (cases "left < right")
    case True
    then have mid: "left \<le> ?mid" "?mid < right" by auto
    show ?thesis
    proof (cases "ikey_before (largest (files ! ?mid)) key")
      case b: True
      have "\<forall>i < ?mid + 1. ikey_before (largest (files ! i)) key"
        using b 1(7) mid 1(4) by (metis less_Suc_eq Suc_eq_plus1 less_le_trans)
      then have "let r = FindFile_loop files key (?mid + 1) right in r \<le> length files \<and>
          (\<forall>i < r. ikey_before (largest (files ! i)) key) \<and>
          (\<forall>i. r \<le> i \<and> i < length files \<longrightarrow> \<not> ikey_before (largest (files ! i)) key)"
        using 1(1) [OF True refl b] 1(4,6,7) mid by simp
      then show ?thesis using True b FindFile_loop.simps [of files key left right] by (simp add: Let_def)
    next
      case b: False
      have "\<forall>i. ?mid \<le> i \<and> i < length files \<longrightarrow> \<not> ikey_before (largest (files ! i)) key"
        using b 1(7) by (metis le_neq_implies_less)
      then have "let r = FindFile_loop files key left ?mid in r \<le> length files \<and>
          (\<forall>i < r. ikey_before (largest (files ! i)) key) \<and>
          (\<forall>i. r \<le> i \<and> i < length files \<longrightarrow> \<not> ikey_before (largest (files ! i)) key)"
        using 1(2) [OF True refl b] 1(4,5,7) mid by simp
      then show ?thesis using True b FindFile_loop.simps [of files key left right] by (simp add: Let_def)
    qed
  next
    case False
    then show ?thesis using 1(3-6) FindFile_loop.simps [of files key left right] by (simp add: Let_def)
  qed
qed

lemma disjoint_files_nth:
  "disjoint_files fs \<Longrightarrow> \<forall>f \<in> set fs. file_ok s f \<Longrightarrow> i < j \<Longrightarrow> j < length fs \<Longrightarrow>
     ukey (largest (fs ! i)) < ukey (smallest (fs ! j)) \<and> ukey (largest (fs ! i)) < ukey (largest (fs ! j))"
  using file_ok_bounds [of s "fs ! j"] sorted_wrt_nth_less [of before_file fs i j]
  by (simp add: before_file_def less_le_trans [of _ "ukey (smallest (fs ! j))"])

lemma FindFile_split:
  assumes "disjoint_files fs" "\<forall>f \<in> set fs. file_ok s f"
  shows "FindFile fs key \<le> length fs"
    and "i < FindFile fs key \<Longrightarrow> ikey_before (largest (fs ! i)) key"
    and "FindFile fs key \<le> i \<Longrightarrow> i < length fs \<Longrightarrow> \<not> ikey_before (largest (fs ! i)) key"
proof -
  have "\<forall>i j. i < j \<and> j < length fs \<and> ikey_before (largest (fs ! j)) key \<longrightarrow> ikey_before (largest (fs ! i)) key"
  proof (intro allI impI)
    fix i j assume ij: "i < j \<and> j < length fs \<and> ikey_before (largest (fs ! j)) key"
    then have "ukey (largest (fs ! i)) < ukey (largest (fs ! j))" using disjoint_files_nth [OF assms] by blast
    then show "ikey_before (largest (fs ! i)) key" using ij by (auto simp: ikey_before_def)
  qed
  then have F: "let r = FindFile fs key in r \<le> length fs \<and> (\<forall>i < r. ikey_before (largest (fs ! i)) key) \<and>
      (\<forall>i. r \<le> i \<and> i < length fs \<longrightarrow> \<not> ikey_before (largest (fs ! i)) key)"
    unfolding FindFile_def by (intro FindFile_loop_split) auto
  then show "FindFile fs key \<le> length fs" "i < FindFile fs key \<Longrightarrow> ikey_before (largest (fs ! i)) key"
    "FindFile fs key \<le> i \<Longrightarrow> i < length fs \<Longrightarrow> \<not> ikey_before (largest (fs ! i)) key"
    by (simp_all add: Let_def)
qed

section \<open>A lookup finds the newest entry\<close>

lemma search_files_sees:
  assumes "\<forall>f \<in> set fs. file_ok s f" "sorted_wrt (\<lambda>f g. newer (tset f) (tset g)) fs"
  shows "case search_files k s fs of None \<Rightarrow> \<not> has_key (\<Union> (tset ` set fs)) k
    | Some r \<Rightarrow> sees (\<Union> (tset ` set fs)) k r \<and> has_key (\<Union> (tset ` set fs)) k"
  using assms
proof (induction fs)
  case (Cons f fs)
  let ?U = "\<Union> (tset ` set fs)"
  have f: "table_sorted (ftable f)" "\<forall>e \<in> tset f. eseq e \<le> s" using Cons.prems(1) by (auto simp: file_ok_def)
  have nw: "newer (tset f) ?U" using Cons.prems(2) by (auto simp: newer_def)
  note M = MemTable_Get_sees [OF f, of k]
  show ?case
  proof (cases "MemTable_Get k s (ftable f)")
    case None
    then show ?thesis using Cons M(1) sees_skip [of "tset f" k ?U] by (simp split: option.splits)
  next
    case (Some r)
    then show ?thesis using M(2) [OF Some] sees_newer_Some [OF nw, of k r] by simp
  qed
qed simp

lemma level_files_has_key:
  assumes "version_inv s v" "f \<in> set (v l)" "has_key (tset f) k"
  shows "f \<in> set (level_files v k s l)"
proof -
  have ok: "\<forall>f \<in> set (v l). file_ok s f" using assms(1) by (simp add: version_inv_def)
  then have k: "ukey (smallest f) \<le> k" "k \<le> ukey (largest f)" using file_ok_has_key assms(2,3) by blast+
  show ?thesis
  proof (cases "l = 0")
    case True
    then show ?thesis using assms(2) k by (simp add: level_files_def)
  next
    case False
    then have dj: "disjoint_files (v l)" using assms(1) by (simp add: version_inv_def)
    let ?key = "(k, enat (PackSequenceAndType s kTypeValue))"
    let ?i = "FindFile (v l) ?key"
    obtain j where j: "j < length (v l)" "v l ! j = f" using assms(2) by (metis in_set_conv_nth)
    have "eseq (largest f) \<le> s" using ok assms(2) by (simp add: file_ok_def)
    then have "etag (largest f) \<le> PackSequenceAndType s kTypeValue"
      by (cases "etype (largest f)") (auto simp: etag_def PackSequenceAndType_eq)
    then have "\<not> ikey_before (largest (v l ! j)) ?key" using k(2) j(2) by (auto simp: ikey_before_def)
    then have ij: "?i \<le> j" using FindFile_split(2) [OF dj ok, of j ?key] by (meson not_less)
    have nb: "\<not> ikey_before (largest (v l ! ?i)) ?key"
      using FindFile_split(3) [OF dj ok, of ?key ?i] ij j(1) by simp
    then have "k \<le> ukey (largest (v l ! ?i))" by (auto simp: ikey_before_def)
    then have "?i = j" using disjoint_files_nth [OF dj ok, of ?i j] ij j k(1) by (metis le_neq_implies_less leD less_le_trans)
    then show ?thesis using False j k(1) by (auto simp: level_files_def Let_def)
  qed
qed

lemma level_files_subset:
  assumes "version_inv s v"
  shows "set (level_files v k s l) \<subseteq> set (v l)"
  by (auto simp: level_files_def Let_def)

lemma sorted_by_number:
  assumes "sorted (map g fs)" "distinct fs" "\<And>x y. x \<in> set fs \<Longrightarrow> y \<in> set fs \<Longrightarrow> g x < g y \<Longrightarrow> R x y"
    and "\<And>x y. x \<in> set fs \<Longrightarrow> y \<in> set fs \<Longrightarrow> g x = g y \<Longrightarrow> x = y"
  shows "sorted_wrt R fs"
  using assms
proof (induction fs)
  case (Cons f fs)
  have "R f h" if "h \<in> set fs" for h
    using that Cons.prems(1,2) Cons.prems(3,4) [of f h] by (force simp: le_less)
  then show ?case using Cons by simp
qed simp

lemma level_files_newer:
  assumes "version_inv s v"
  shows "sorted_wrt (\<lambda>f g. newer (tset f) (tset g)) (level_files v k s l)"
proof (cases "l = 0")
  case True
  let ?fs = "sort_key fnumber (filter (\<lambda>f. ukey (smallest f) \<le> k \<and> k \<le> ukey (largest f)) (v 0))"
  have v: "distinct (v 0)" "\<And>f g. f \<in> set (v 0) \<Longrightarrow> g \<in> set (v 0) \<Longrightarrow> fnumber f < fnumber g \<Longrightarrow> newer (tset g) (tset f)"
    "\<And>f g. f \<in> set (v 0) \<Longrightarrow> g \<in> set (v 0) \<Longrightarrow> fnumber f = fnumber g \<Longrightarrow> f = g"
    using assms by (simp_all add: version_inv_def)
  have "sorted_wrt (\<lambda>f g. newer (tset g) (tset f)) ?fs" by (rule sorted_by_number [of fnumber]) (use v in simp_all)
  then show ?thesis using True by (simp add: level_files_def sorted_wrt_rev)
next
  case False
  then show ?thesis by (simp add: level_files_def Let_def)
qed

lemma search_level_sees:
  assumes "version_inv s v"
  shows "case search_files k s (level_files v k s l) of None \<Rightarrow> \<not> has_key (level_set v l) k
    | Some r \<Rightarrow> sees (level_set v l) k r \<and> has_key (level_set v l) k"
proof -
  let ?fs = "level_files v k s l"
  let ?A = "\<Union> (tset ` set ?fs)" and ?B = "\<Union> (tset ` (set (v l) - set ?fs))"
  have ok: "\<forall>f \<in> set ?fs. file_ok s f" using version_inv_ok [OF assms] level_files_subset [OF assms, of k l] by blast
  have nk: "\<not> has_key ?B k" using level_files_has_key [OF assms, of _ l k] by auto
  have U: "level_set v l = ?A \<union> ?B" using level_files_subset [OF assms, of k l] by (auto simp: level_set_def)
  show ?thesis using search_files_sees [OF ok level_files_newer [OF assms], of k] nk sees_skip_right [OF nk, of ?A]
    unfolding U by (simp split: option.splits)
qed

lemma search_levels_sees:
  assumes "version_inv s v" "sorted_wrt (<) ls"
  shows "sees (\<Union> (level_set v ` set ls)) k (search_levels v k s ls)"
  using assms(2)
proof (induction ls)
  case (Cons l ls)
  let ?R = "\<Union> (level_set v ` set ls)"
  have nw: "newer (level_set v l) ?R" using Cons.prems assms(1) by (fastforce simp: version_inv_def newer_def)
  note L = search_level_sees [OF assms(1), where k = k and l = l]
  show ?case
  proof (cases "search_files k s (level_files v k s l)")
    case None
    then show ?thesis using Cons sees_skip [of "level_set v l" k ?R] L by simp
  next
    case (Some r)
    then show ?thesis using L sees_newer_Some [OF nw, of k r] by simp
  qed
qed simp

lemma Version_Get_sees: "version_inv s v \<Longrightarrow> sees (version_set v) k (Version_Get v k s)"
  using search_levels_sees [of s v "[0..<kNumLevels]" k]
  by (simp add: Version_Get_def version_set_def lessThan_atLeast0)

section \<open>Overlaps\<close>

text \<open>No user key lies in the range of the file and between \<open>lo\<close> and \<open>hi\<close>.\<close>

definition outside :: "string \<Rightarrow> string \<Rightarrow> FileMetaData \<Rightarrow> bool" where
  "outside lo hi f \<longleftrightarrow> ukey (largest f) < lo \<or> hi < ukey (smallest f)"

lemma OverlapInLevel_outside:
  assumes "version_inv s v" "\<not> OverlapInLevel v l (Some lo) (Some hi)" "f \<in> set (v l)"
  shows "outside lo hi f"
proof (cases "l = 0")
  case True
  then show ?thesis using assms(2,3)
    by (auto simp: OverlapInLevel_def SomeFileOverlapsRange_def list_ex_iff AfterFile_def BeforeFile_def outside_def)
next
  case False
  note dj = version_inv_disjoint [OF assms(1), of l] and ok = version_inv_ok [OF assms(1), of _ l]
  let ?i = "FindFile (v l) (lo, max_tag)"
  obtain j where j: "j < length (v l)" "v l ! j = f" using assms(3) by (metis in_set_conv_nth)
  show ?thesis
  proof (cases "j < ?i")
    case True
    then have "ikey_before (largest f) (lo, max_tag)" using FindFile_split(2) [of "v l" s j] dj ok False j(2) by blast
    then show ?thesis by (auto simp: ikey_before_def max_tag_def outside_def)
  next
    case ij: False
    then have "BeforeFile (Some hi) (v l ! ?i)"
      using assms(2) False j(1) by (auto simp: OverlapInLevel_def SomeFileOverlapsRange_def Let_def split: if_splits)
    then have hi: "hi < ukey (smallest (v l ! ?i))" by (simp add: BeforeFile_def)
    have "ukey (smallest (v l ! ?i)) \<le> ukey (smallest f)"
    proof (cases "?i = j")
      case neq: False
      have i: "?i < length (v l)" using ij j(1) by simp
      have "ukey (largest (v l ! ?i)) < ukey (smallest (v l ! j))"
        using disjoint_files_nth [of "v l" s ?i j] dj ok False ij neq j(1) by auto
      moreover have "ukey (smallest (v l ! ?i)) \<le> ukey (largest (v l ! ?i))"
        using file_ok_bounds ok nth_mem [OF i] by blast
      ultimately show ?thesis using j(2) by simp
    qed (use j in simp)
    then show ?thesis using hi by (auto simp: outside_def)
  qed
qed

lemma PickLevel_loop_outside:
  assumes "level \<le> kMaxMemCompactLevel"
  shows "level \<le> PickLevel_loop limit v lo hi level \<and> PickLevel_loop limit v lo hi level \<le> kMaxMemCompactLevel \<and>
    (\<forall>l. level < l \<and> l \<le> PickLevel_loop limit v lo hi level \<longrightarrow> \<not> OverlapInLevel v l (Some lo) (Some hi))"
  using assms
proof (induction limit v lo hi level rule: PickLevel_loop.induct)
  case (1 limit v lo hi level)
  show ?case
  proof (cases "PickLevel_loop limit v lo hi level = level")
    case False
    then have st: "level < kMaxMemCompactLevel" "\<not> OverlapInLevel v (level + 1) (Some lo) (Some hi)"
      "PickLevel_loop limit v lo hi level = PickLevel_loop limit v lo hi (level + 1)"
      "\<not> limit < int (TotalFileSize (GetOverlappingInputs v (level + 2) (Some (Entry lo 0 kTypeValue [])) (Some (Entry hi 0 kTypeDeletion []))))"
      using PickLevel_loop.simps [of limit v lo hi level] by (auto split: if_splits)
    note IH = 1(1) [OF st(1,2,4)]
    show ?thesis using IH st(1-3) by (auto simp: less_eq_Suc_le [of level] le_less [of "Suc level"])
  qed (use 1(2) in auto)
qed

lemma PickLevel_outside:
  assumes "version_inv s v" "p = PickLevelForMemTableOutput limit v lo hi"
  shows "p \<le> kMaxMemCompactLevel" and "p > 0 \<Longrightarrow> l \<le> p \<Longrightarrow> f \<in> set (v l) \<Longrightarrow> outside lo hi f"
proof -
  note P = PickLevel_loop_outside [of 0 limit v lo hi]
  show "p \<le> kMaxMemCompactLevel" using P assms(2) by (auto simp: PickLevelForMemTableOutput_def)
  assume "p > 0" "l \<le> p" "f \<in> set (v l)"
  then have "\<not> OverlapInLevel v l (Some lo) (Some hi)"
    using P assms(2) by (cases "l = 0") (auto simp: PickLevelForMemTableOutput_def split: if_splits)
  then show "outside lo hi f" using OverlapInLevel_outside [OF assms(1)] \<open>f \<in> set (v l)\<close> by blast
qed

lemma outside_iff: "AfterFile (Some b) f \<or> BeforeFile (Some e) f \<longleftrightarrow> outside b e f"
  by (simp add: outside_def AfterFile_def BeforeFile_def)

text \<open>The files the scan returns: all that overlap the range, on level 0 widened to cover them.\<close>

lemma GetOverlapping_loop_exact:
  assumes "inputs = filter (\<lambda>f. \<not> outside b e f) (take i files)"
    and "level0 \<longrightarrow> (\<forall>f \<in> set inputs. b \<le> ukey (smallest f) \<and> ukey (largest f) \<le> e)"
  shows "\<exists>b' e'. b' \<le> b \<and> e \<le> e' \<and> (level0 \<or> b' = b \<and> e' = e) \<and>
    GetOverlapping_loop level0 files (Some b) (Some e) i inputs = filter (\<lambda>f. \<not> outside b' e' f) files \<and>
    (level0 \<longrightarrow> (\<forall>f \<in> set (filter (\<lambda>f. \<not> outside b' e' f) files). b' \<le> ukey (smallest f) \<and> ukey (largest f) \<le> e'))"
  using assms
proof (induction level0 files "Some b" "Some e" i inputs arbitrary: b e rule: GetOverlapping_loop.induct)
  case (1 level0 files i inputs)
  show ?case
  proof (cases "i < length files")
    case True
    let ?f = "files ! i"
    have tk: "take (i + 1) files = take i files @ [?f]" using True by (simp add: take_Suc_conv_app_nth)
    note st = GetOverlapping_loop.simps [of level0 files "Some b" "Some e" i inputs]
    consider "AfterFile (Some b) ?f" | "\<not> AfterFile (Some b) ?f" "BeforeFile (Some e) ?f"
      | "\<not> AfterFile (Some b) ?f" "\<not> BeforeFile (Some e) ?f" "level0" "ukey (smallest ?f) < b"
      | "\<not> AfterFile (Some b) ?f" "\<not> BeforeFile (Some e) ?f" "\<not> (level0 \<and> ukey (smallest ?f) < b)" "level0" "e < ukey (largest ?f)"
      | "\<not> AfterFile (Some b) ?f" "\<not> BeforeFile (Some e) ?f" "\<not> (level0 \<and> ukey (smallest ?f) < b)" "\<not> (level0 \<and> e < ukey (largest ?f))"
      by blast
    then show ?thesis
    proof cases
      case 3
      have "\<exists>b' e'. b' \<le> ukey (smallest ?f) \<and> e \<le> e' \<and> (level0 \<or> b' = ukey (smallest ?f) \<and> e' = e) \<and>
          GetOverlapping_loop level0 files (Some (ukey (smallest ?f))) (Some e) 0 [] = filter (\<lambda>f. \<not> outside b' e' f) files \<and>
          (level0 \<longrightarrow> (\<forall>f \<in> set (filter (\<lambda>f. \<not> outside b' e' f) files). b' \<le> ukey (smallest f) \<and> ukey (largest f) \<le> e'))"
        using 1(3) [OF True refl] 3 by simp
      then show ?thesis using st True 3 by (simp add: Let_def) (meson le_less_trans less_imp_le order.trans)
    next
      case 4
      have "\<exists>b' e'. b' \<le> b \<and> ukey (largest ?f) \<le> e' \<and> (level0 \<or> b' = b \<and> e' = ukey (largest ?f)) \<and>
          GetOverlapping_loop level0 files (Some b) (Some (ukey (largest ?f))) 0 [] = filter (\<lambda>f. \<not> outside b' e' f) files \<and>
          (level0 \<longrightarrow> (\<forall>f \<in> set (filter (\<lambda>f. \<not> outside b' e' f) files). b' \<le> ukey (smallest f) \<and> ukey (largest f) \<le> e'))"
        using 1(4) [OF True refl] 4 by simp
      then show ?thesis using st True 4 by (simp add: Let_def) (meson less_imp_le order.trans)
    next
      case out: 1
      have "inputs = filter (\<lambda>f. \<not> outside b e f) (take (i + 1) files)"
        using 1(6) tk out outside_iff [of b ?f e] by simp
      from 1(1) [OF True refl out this 1(7)] show ?thesis using st True out by (simp add: Let_def)
    next
      case out: 2
      have "inputs = filter (\<lambda>f. \<not> outside b e f) (take (i + 1) files)"
        using 1(6) tk out outside_iff [of b ?f e] by simp
      from 1(2) [OF True refl out this 1(7)] show ?thesis using st True out by (simp add: Let_def)
    next
      case inr: 5
      have "inputs @ [?f] = filter (\<lambda>f. \<not> outside b e f) (take (i + 1) files)"
        using 1(6) tk inr outside_iff [of b ?f e] by simp
      moreover have "level0 \<longrightarrow> (\<forall>f \<in> set (inputs @ [?f]). b \<le> ukey (smallest f) \<and> ukey (largest f) \<le> e)"
        using 1(7) inr by auto
      moreover have "GetOverlapping_loop level0 files (Some b) (Some e) i inputs =
          GetOverlapping_loop level0 files (Some b) (Some e) (i + 1) (inputs @ [?f])"
        using st True inr by (auto simp: Let_def)
      ultimately show ?thesis using 1(5) [OF True refl inr(1,2)] inr(3,4) by simp
    qed
  next
    case False
    then show ?thesis using 1(6,7) GetOverlapping_loop.simps [of level0 files "Some b" "Some e" i inputs] by auto
  qed
qed

section \<open>Edits keep the invariant\<close>

lemma set_SaveTo_level: "set (SaveTo_level del base added) = {f \<in> set base \<union> set added. \<not> del f}"
proof (induction del base added rule: SaveTo_level.induct)
  case (2 del base a added)
  have "set base = set (takeWhile (\<lambda>b. \<not> BySmallestKey a b) base) \<union> set (dropWhile (\<lambda>b. \<not> BySmallestKey a b) base)"
    by (metis set_append takeWhile_dropWhile_id)
  then show ?case using 2 by auto
qed auto

lemma distinct_SaveTo_level:
  "distinct base \<Longrightarrow> distinct added \<Longrightarrow> set base \<inter> set added = {} \<Longrightarrow> distinct (SaveTo_level del base added)"
proof (induction del base added rule: SaveTo_level.induct)
  case (2 del base a added)
  let ?p = "takeWhile (\<lambda>b. \<not> BySmallestKey a b) base" and ?s = "dropWhile (\<lambda>b. \<not> BySmallestKey a b) base"
  have "distinct (?p @ ?s)" using 2(2) by simp
  then have d: "distinct ?p" "distinct ?s" "set ?p \<inter> set ?s = {}" by (simp_all only: distinct_append)
  have sub: "set ?p \<subseteq> set base" "set ?s \<subseteq> set base" by (auto dest: set_takeWhileD set_dropWhileD)
  then show ?case using 2 d by (auto simp: set_SaveTo_level)
qed simp

definition file_range :: "FileMetaData \<Rightarrow> bool" where
  "file_range f \<longleftrightarrow> ukey (smallest f) \<le> ukey (largest f)"

lemma BySmallestKey_before: "file_range f \<Longrightarrow> before_file f g \<Longrightarrow> BySmallestKey f g \<and> \<not> BySmallestKey g f"
  by (auto simp: BySmallestKey_def before_file_def file_range_def ikey_less_def)

lemma before_file_trans: "file_range g \<Longrightarrow> before_file f g \<Longrightarrow> before_file g h \<Longrightarrow> before_file f h"
  unfolding before_file_def file_range_def by (meson less_le_trans less_trans)

lemma BySmallestKey_le: "BySmallestKey a b \<Longrightarrow> ukey (smallest a) \<le> ukey (smallest b)"
  by (auto simp: BySmallestKey_def ikey_less_def)

lemma SaveTo_level_prefix:
  assumes "b \<in> set (takeWhile (\<lambda>b. \<not> BySmallestKey a b) base)" "before_file a b \<or> before_file b a" "file_range a"
  shows "before_file b a"
  using assms BySmallestKey_before [of a b] by (auto dest: set_takeWhileD)

lemma SaveTo_level_suffix:
  assumes "disjoint_files base" "\<forall>f \<in> set base. file_range f" "b \<in> set (dropWhile (\<lambda>b. \<not> BySmallestKey a b) base)"
    and "before_file a b \<or> before_file b a"
  shows "before_file a b"
proof -
  let ?s = "dropWhile (\<lambda>b. \<not> BySmallestKey a b) base"
  obtain c cs where c: "?s = c # cs" using assms(3) by (cases ?s) auto
  then have "BySmallestKey a c" by (simp add: dropWhile_eq_Cons_conv)
  then have ac: "ukey (smallest a) \<le> ukey (smallest c)" by (rule BySmallestKey_le)
  have "disjoint_files ?s" using assms(1) by (metis sorted_wrt_append takeWhile_dropWhile_id)
  then have "b = c \<or> before_file c b" using assms(3) c by auto
  moreover have "file_range b" "file_range c" using assms(2,3) c set_dropWhileD [of _ "\<lambda>b. \<not> BySmallestKey a b" base] by auto
  ultimately have ab: "ukey (smallest a) \<le> ukey (smallest b)" using ac by (auto simp: before_file_def file_range_def)
  then have "\<not> before_file b a" using \<open>file_range b\<close> unfolding before_file_def file_range_def by (meson leD less_le_trans order.trans)
  then show ?thesis using assms(4) by blast
qed

lemma SaveTo_level_disjoint:
  assumes "disjoint_files base" "disjoint_files added" "\<forall>f \<in> set base \<union> set added. file_range f"
    and "\<forall>a \<in> set added. \<forall>b \<in> set base. \<not> del b \<longrightarrow> before_file a b \<or> before_file b a"
  shows "disjoint_files (SaveTo_level del base added)"
  using assms
proof (induction del base added rule: SaveTo_level.induct)
  case (1 del base)
  then show ?case by (simp add: sorted_wrt_filter)
next
  case (2 del base a added)
  let ?p = "takeWhile (\<lambda>b. \<not> BySmallestKey a b) base" and ?s = "dropWhile (\<lambda>b. \<not> BySmallestKey a b) base"
  let ?r = "SaveTo_level del ?s added"
  have ps: "disjoint_files ?p" "disjoint_files ?s" "\<forall>x \<in> set ?p. \<forall>y \<in> set ?s. before_file x y"
    using 2(2) by (metis sorted_wrt_append takeWhile_dropWhile_id)+
  have sub: "set ?s \<subseteq> set base" "set ?p \<subseteq> set base" by (auto dest: set_dropWhileD set_takeWhileD)
  have cmp: "\<forall>c \<in> set added. \<forall>b \<in> set ?s. \<not> del b \<longrightarrow> before_file c b \<or> before_file b c"
    using 2(5) sub(1) by (meson list.set_intros(2) subsetD)
  have r: "disjoint_files ?r" by (rule 2(1) [OF ps(2) _ _ cmp]) (use 2(3,4) sub in auto)
  have a: "file_range a" "\<forall>c \<in> set added. before_file a c" using 2(3,4) by auto
  have pa: "before_file b a" if "b \<in> set ?p" "\<not> del b" for b
    using SaveTo_level_prefix [OF that(1) _ a(1)] 2(5) that sub by auto
  have ar: "before_file a x" if "x \<in> set ?r" for x
    using that a(2) SaveTo_level_suffix [OF 2(2), of x a] 2(4,5) sub by (auto simp: set_SaveTo_level)
  have pr: "before_file b x" if "b \<in> set ?p" "\<not> del b" "x \<in> set ?r" for b x
    using before_file_trans [OF a(1) pa ar] that by blast
  show ?case using ps(1) pa ar pr r by (auto simp: sorted_wrt_append sorted_wrt_filter)
qed

lemma FileSet_insert_last: "\<forall>g \<in> set gs. BySmallestKey g f \<Longrightarrow> FileSet_insert f gs = gs @ [f]"
  by (induction gs) auto

lemma FileSet_disjoint:
  "disjoint_files (gs @ fs) \<Longrightarrow> \<forall>f \<in> set (gs @ fs). file_range f \<Longrightarrow> fold FileSet_insert fs gs = gs @ fs"
proof (induction fs arbitrary: gs)
  case (Cons f fs)
  have "FileSet_insert f gs = gs @ [f]"
    using Cons.prems BySmallestKey_before by (intro FileSet_insert_last) (auto simp: sorted_wrt_append)
  then show ?case using Cons.IH [of "gs @ [f]"] Cons.prems by simp
qed simp

lemma file_ok_file_range: "file_ok s f \<Longrightarrow> file_range f"
  using file_ok_bounds by (simp add: file_range_def)

text \<open>
  An edit that adds the files \<open>A\<close> on level \<open>m\<close> and deletes others. What is kept on the levels
  above has to be newer than the new files, what is kept below older.
\<close>

definition kept :: "VersionEdit \<Rightarrow> Version \<Rightarrow> nat \<Rightarrow> FileMetaData set" where
  "kept edit v l = {f \<in> set (v l). \<not> is_deleted edit l f}"

definition edit_ok :: "nat \<Rightarrow> VersionEdit \<Rightarrow> Version \<Rightarrow> nat \<Rightarrow> FileMetaData list \<Rightarrow> bool" where
  "edit_ok s edit v m A \<longleftrightarrow>
     new_files edit = map (Pair m) A \<and> m < kNumLevels \<and> (\<forall>f \<in> set A. file_ok s f) \<and> disjoint_files A \<and>
     distinct (map fnumber A) \<and> (\<forall>f \<in> set A. \<forall>g \<in> set (v m). fnumber f \<noteq> fnumber g) \<and>
     (\<forall>f \<in> set A. \<forall>l. \<forall>g \<in> kept edit v l. fnumber f \<noteq> fnumber g) \<and>
     (m > 0 \<longrightarrow> (\<forall>a \<in> set A. \<forall>b \<in> kept edit v m. before_file a b \<or> before_file b a)) \<and>
     (m = 0 \<longrightarrow> length A \<le> 1 \<and> (\<forall>a \<in> set A. \<forall>b \<in> set (v 0). fnumber b < fnumber a \<and> newer (tset a) (tset b))) \<and>
     (\<forall>a \<in> set A. \<forall>l. \<forall>b \<in> kept edit v l. (l < m \<longrightarrow> newer (tset b) (tset a)) \<and> (m < l \<longrightarrow> newer (tset a) (tset b)))"

lemma added_files_level: "new_files edit = map (Pair m) A \<Longrightarrow> disjoint_files A \<Longrightarrow> \<forall>f \<in> set A. file_range f \<Longrightarrow>
    added_files edit l = (if l = m then A else [])"
  using FileSet_disjoint [of "[]" A] by (simp add: added_files_def comp_def filter_map)

lemma set_LogAndApply:
  assumes "edit_ok s edit v m A"
  shows "set (LogAndApply edit v l) = kept edit v l \<union> (if l = m then set A else {})"
proof -
  have A: "new_files edit = map (Pair m) A" "disjoint_files A" "\<forall>f \<in> set A. file_range f"
    using assms file_ok_file_range by (auto simp: edit_ok_def)
  have "\<not> is_deleted edit m f" if "f \<in> set A" for f using that A(1) by (force simp: is_deleted_def)
  then show ?thesis using added_files_level [OF A, of l]
    by (auto simp: LogAndApply_def set_SaveTo_level kept_def)
qed

lemma LogAndApply_disjoint:
  assumes "version_inv s v" "edit_ok s edit v m A"
  shows "distinct (LogAndApply edit v l)" and "0 < l \<Longrightarrow> disjoint_files (LogAndApply edit v l)"
proof -
  have A: "new_files edit = map (Pair m) A" "disjoint_files A" "\<forall>f \<in> set A. file_range f"
    "distinct (map fnumber A)" "\<forall>f \<in> set A. \<forall>g \<in> set (v m). fnumber f \<noteq> fnumber g"
    using assms(2) file_ok_file_range by (auto simp: edit_ok_def)
  note ad = added_files_level [OF A(1-3), of l]
  have d: "distinct (v l)" "distinct A" using assms(1) A(4) by (auto simp: version_inv_def distinct_map)
  have "set (v l) \<inter> set (added_files edit l) = {}" using A(5) ad by auto
  then show "distinct (LogAndApply edit v l)"
    unfolding LogAndApply_def using d ad by (intro distinct_SaveTo_level) auto
  assume l: "0 < l"
  have r: "\<forall>f \<in> set (v l) \<union> set (added_files edit l). file_range f"
    using version_inv_ok [OF assms(1)] A(3) ad file_ok_file_range by (auto split: if_splits)
  have "\<forall>a \<in> set (added_files edit l). \<forall>b \<in> set (v l). \<not> is_deleted edit l b \<longrightarrow> before_file a b \<or> before_file b a"
    using assms(2) ad l by (auto simp: edit_ok_def kept_def)
  then show "disjoint_files (LogAndApply edit v l)"
    unfolding LogAndApply_def using version_inv_disjoint [OF assms(1) l] A(2) ad r by (intro SaveTo_level_disjoint) auto
qed

lemma LogAndApply_inv:
  assumes "version_inv s v" "edit_ok s edit v m A"
  shows "version_inv s (LogAndApply edit v)"
proof -
  let ?v = "LogAndApply edit v"
  note S = set_LogAndApply [OF assms(2)] and D = LogAndApply_disjoint [OF assms]
  have A: "m < kNumLevels" "\<forall>f \<in> set A. file_ok s f" "distinct (map fnumber A)"
    "\<forall>f \<in> set A. \<forall>l. \<forall>g \<in> kept edit v l. fnumber f \<noteq> fnumber g"
    "m = 0 \<longrightarrow> length A \<le> 1 \<and> (\<forall>a \<in> set A. \<forall>b \<in> set (v 0). fnumber b < fnumber a \<and> newer (tset a) (tset b))"
    "\<forall>a \<in> set A. \<forall>l. \<forall>b \<in> kept edit v l. (l < m \<longrightarrow> newer (tset b) (tset a)) \<and> (m < l \<longrightarrow> newer (tset a) (tset b))"
    using assms(2) by (auto simp: edit_ok_def)
  have mem: "f \<in> set (?v l) \<longleftrightarrow> f \<in> kept edit v l \<or> (l = m \<and> f \<in> set A)" for f l using S [of l] by auto
  have sub: "f \<in> kept edit v l \<Longrightarrow> f \<in> set (v l)" for f l by (auto simp: kept_def)
  have Ainj: "f = g" if "f \<in> set A" "g \<in> set A" "fnumber f = fnumber g" for f g
    using A(3) that by (auto simp: distinct_map inj_on_def)
  have one: "f = g" if "m = 0" "f \<in> set A" "g \<in> set A" for f g
    using that A(5) by (cases A; cases "tl A") auto
  have 1: "\<forall>l. \<forall>f \<in> set (?v l). file_ok s f" using mem A(2) version_inv_ok [OF assms(1)] sub by blast
  have 2: "\<forall>l \<ge> kNumLevels. ?v l = []"
  proof (intro allI impI)
    fix l assume "kNumLevels \<le> l"
    then have "set (?v l) = {}" using S [of l] A(1) assms(1) by (auto simp: version_inv_def kept_def)
    then show "?v l = []" by simp
  qed
  have 3: "\<forall>f \<in> set (?v 0). \<forall>g \<in> set (?v 0). fnumber f < fnumber g \<longrightarrow> newer (tset g) (tset f)"
    using mem [of _ 0] A(5) assms(1) sub [of _ 0] one unfolding version_inv_def by (metis less_asym less_irrefl)
  have 4: "\<forall>l n. \<forall>f \<in> set (?v l). \<forall>g \<in> set (?v n). fnumber f = fnumber g \<longrightarrow> l = n \<and> f = g"
    using mem A(4) assms(1) sub Ainj unfolding version_inv_def by metis
  have 5: "newer (level_set ?v l) (level_set ?v n)" if ln: "l < n" for l n
  proof -
    have "newer (tset f) (tset g)" if f: "f \<in> set (?v l)" and g: "g \<in> set (?v n)" for f g
    proof -
      consider "f \<in> set (v l)" "g \<in> set (v n)" | "f \<in> set A" "g \<in> kept edit v n" "l = m" | "f \<in> kept edit v l" "g \<in> set A" "n = m"
        using f g mem [of f l] mem [of g n] sub ln by auto
      then show ?thesis
      proof cases
        case 1
        then show ?thesis using version_inv_newer [OF assms(1) ln] by (auto simp: level_set_def newer_def)
      qed (use A(6) ln in auto)
    qed
    then show ?thesis by (auto simp: level_set_def newer_def)
  qed
  show ?thesis using 1 2 3 4 5 D unfolding version_inv_def by blast
qed

lemma concat_tables_sorted:
  "disjoint_files fs \<Longrightarrow> \<forall>f \<in> set fs. file_ok s f \<Longrightarrow> table_sorted (concat (map ftable fs))"
proof (induction fs)
  case (Cons f fs)
  have "eless x y" if x: "x \<in> tset f" and y: "y \<in> tset g" "g \<in> set fs" for x y g
  proof -
    have "ukey x \<le> ukey (largest f)" "ukey (smallest g) \<le> ukey y" using file_ok_range Cons.prems(2) x y by auto
    moreover have "ukey (largest f) < ukey (smallest g)" using Cons.prems(1) y(2) by (simp add: before_file_def)
    ultimately have "ukey x < ukey y" by (meson le_less_trans less_le_trans)
    then show ?thesis by (simp add: eless_def)
  qed
  moreover have "table_sorted (ftable f)" using Cons.prems(2) by (simp add: file_ok_def)
  ultimately show ?case using Cons by (auto simp: table_sorted_append)
qed simp

lemma level0_apart:
  assumes "version_inv s v" "f \<in> set (v 0)" "g \<in> set (v 0)" "f \<noteq> g"
  shows "apart (tset f) (tset g)"
proof -
  have "fnumber f < fnumber g \<or> fnumber g < fnumber f" using assms unfolding version_inv_def by (metis nat_neq_iff)
  then show ?thesis using assms newer_apart apart_sym unfolding version_inv_def by metis
qed

lemma distinct_sorted_wrt: "distinct xs \<Longrightarrow> (\<And>x y. x \<in> set xs \<Longrightarrow> y \<in> set xs \<Longrightarrow> x \<noteq> y \<Longrightarrow> P x y) \<Longrightarrow> sorted_wrt P xs"
  by (induction xs) auto

lemma AddIterators_ok:
  assumes "version_inv s v"
  shows "children_ok (AddIterators v)" and "\<Union> (set ` set (AddIterators v)) = version_set v"
proof -
  let ?ls = "filter (\<lambda>l. v l \<noteq> []) [1..<kNumLevels]"
  have lv: "set (concat (map ftable (v l))) = level_set v l" for l by (simp add: level_set_def)
  have fl: "tset f \<subseteq> level_set v l" if "f \<in> set (v l)" for f l using that by (auto simp: level_set_def)
  have ap: "apart (level_set v l) (level_set v m)" if "l < m" for l m
    using newer_apart version_inv_newer [OF assms that] by blast
  have z: "sorted_wrt (\<lambda>f g. apart (tset f) (tset g)) (v 0)"
    using assms level0_apart [OF assms] by (intro distinct_sorted_wrt) (auto simp: version_inv_def)
  have srt: "sorted_wrt (\<lambda>l m. apart (level_set v l) (level_set v m)) ?ls"
    using ap by (intro sorted_wrt_mono_rel [OF _ sorted_wrt_filter [OF sorted_wrt_upt]]) auto
  have zl: "apart (tset f) (level_set v l)" if "f \<in> set (v 0)" "0 < l" for f l
    using apart_subset [OF ap [OF that(2)] fl [OF that(1)]] .
  show "children_ok (AddIterators v)"
    unfolding children_ok_def AddIterators_def
    using version_inv_ok [OF assms] z srt zl concat_tables_sorted [of "v _" s] version_inv_disjoint [OF assms]
    by (auto simp: sorted_wrt_append sorted_wrt_map lv file_ok_def simp del: set_concat)
  have "[0..<kNumLevels] = 0 # [1..<kNumLevels]" by (simp add: kNumLevels_def upt_rec)
  then have "{..<kNumLevels} = insert 0 (set [1..<kNumLevels])" by (metis atLeast_upt lessThan_atLeast0 list.simps(15) set_upt)
  then have "version_set v = level_set v 0 \<union> (\<Union>l \<in> set [1..<kNumLevels]. level_set v l)" by (simp add: version_set_def)
  moreover have "(\<Union>l \<in> set [1..<kNumLevels]. level_set v l) = (\<Union>l \<in> set ?ls. level_set v l)" by (auto simp: level_set_def)
  ultimately show "\<Union> (set ` set (AddIterators v)) = version_set v"
    by (simp add: AddIterators_def lv image_image level_set_def)
qed

section \<open>The binary search against a linear one\<close>

lemma ikey_before_mono: "ikey_less a b \<Longrightarrow> ikey_before b key \<Longrightarrow> ikey_before a key"
  by (auto simp: ikey_less_def ikey_before_def) (metis enat_ord_simps(2) order.strict_trans)

lemma takeWhile_unique:
  assumes "n \<le> length xs" "\<forall>i < n. P (xs ! i)" "n < length xs \<longrightarrow> \<not> P (xs ! n)"
  shows "length (takeWhile P xs) = n"
proof -
  have "takeWhile P xs = take n xs" by (rule takeWhile_eq_take_P_nth) (use assms in auto)
  then show ?thesis using assms(1) by simp
qed

text \<open>
  C29: The binary search for a file is equivalent to a linear search: on files with increasing
  largest keys, \<open>FindFile\<close> returns the position of the first file whose largest key is not
  before the search key, and the number of files if there is none, for every search key.
\<close>

theorem FindFile_linear:
  assumes "sorted_wrt (\<lambda>f g. ikey_less (largest f) (largest g)) files"
  shows "FindFile files key = length (takeWhile (\<lambda>f. ikey_before (largest f) key) files)"
proof -
  have "\<forall>i j. i < j \<and> j < length files \<and> ikey_before (largest (files ! j)) key \<longrightarrow> ikey_before (largest (files ! i)) key"
    using assms ikey_before_mono unfolding sorted_wrt_iff_nth_less by blast
  then have "let r = FindFile files key in r \<le> length files \<and> (\<forall>i < r. ikey_before (largest (files ! i)) key) \<and>
      (\<forall>i. r \<le> i \<and> i < length files \<longrightarrow> \<not> ikey_before (largest (files ! i)) key)"
    unfolding FindFile_def by (intro FindFile_loop_split) auto
  then show ?thesis using takeWhile_unique [of "FindFile files key" files "\<lambda>f. ikey_before (largest f) key"] by (simp add: Let_def)
qed

definition demo_file :: "nat \<Rightarrow> string \<Rightarrow> FileMetaData" where
  "demo_file n k = (let e = Entry k n kTypeValue [] in \<lparr>fnumber = n, file_size = 1, smallest = e, largest = e, ftable = [e]\<rparr>)"

theorem FindFile_linear_witness:
  "sorted_wrt (\<lambda>f g. ikey_less (largest f) (largest g)) [demo_file 7 ''a'', demo_file 5 ''c'', demo_file 9 ''e''] \<and>
   FindFile [demo_file 7 ''a'', demo_file 5 ''c'', demo_file 9 ''e''] (''d'', max_tag) = 2"
proof -
  let ?fs = "[demo_file 7 ''a'', demo_file 5 ''c'', demo_file 9 ''e'']"
  have s: "sorted_wrt (\<lambda>f g. ikey_less (largest f) (largest g)) ?fs"
    by code_simp
  have "length (takeWhile (\<lambda>f. ikey_before (largest f) (''d'', max_tag)) ?fs) = 2"
    by code_simp
  then show ?thesis using FindFile_linear [OF s, of "(''d'', max_tag)"] s by simp
qed

end
