(* ===== verification/DbImpl.thy ===== *)
theory DbImpl
  imports Versions
begin

text \<open>
  The database object of LevelDB (\<open>db/db_impl.cc\<close>): the write path with memtable switch and
  flush, point lookups, snapshots and the forward iterator. The background thread's flush is
  the step \<open>CompactMemTable\<close>; its compactions are in \<open>Compact\<close>. The interface \<open>kv_batch_store\<close>
  is interpreted on these definitions at the end.
\<close>

section \<open>State and operations\<close>

record DBImpl =
  db_mem :: "entry list"
  db_imm :: "entry list option"
  current :: Version
  last_sequence :: nat
  next_file_number :: nat
  snapshots :: "nat list"
  compact_pointer :: "nat \<Rightarrow> entry option"
  limits :: SizeLimits

text \<open>A database that was just created, for a target file size in megabytes.\<close>

definition DBImpl_new :: "int \<Rightarrow> DBImpl" where
  "DBImpl_new mb = \<lparr>db_mem = [], db_imm = None, current = (\<lambda>_. []), last_sequence = 0, next_file_number = 2,
     snapshots = [], compact_pointer = (\<lambda>_. None), limits = setTargetFileSize mb\<rparr>"

text \<open>With the target that is used when none is configured, \<open>TARGET_FILE_SIZE\<close>.\<close>

definition DB_empty :: DBImpl where
  "DB_empty = DBImpl_new 128"

text \<open>The file made of a table; \<open>bytes\<close> gives the size the table builder arrives at.\<close>

definition BuildTable :: "(entry list \<Rightarrow> nat) \<Rightarrow> nat \<Rightarrow> entry list \<Rightarrow> FileMetaData" where
  "BuildTable bytes number t =
     \<lparr>fnumber = number, file_size = bytes t, smallest = hd t, largest = last t, ftable = t\<rparr>"

text \<open>An empty memtable gives no file.\<close>

definition WriteLevel0Table :: "(entry list \<Rightarrow> nat) \<Rightarrow> entry list \<Rightarrow> DBImpl \<Rightarrow> VersionEdit \<times> DBImpl" where
  "WriteLevel0Table bytes t db =
     (let number = next_file_number db;
          db1 = db\<lparr>next_file_number := number + 1\<rparr>
      in if t = [] then (\<lparr>deleted_files = [], new_files = []\<rparr>, db1)
         else
           (let meta = BuildTable bytes number t;
                level = PickLevelForMemTableOutput (kMaxGrandParentOverlapBytes (limits db)) (current db)
                  (ukey (smallest meta)) (ukey (largest meta))
            in (\<lparr>deleted_files = [], new_files = [(level, meta)]\<rparr>, db1)))"

definition CompactMemTable :: "(entry list \<Rightarrow> nat) \<Rightarrow> DBImpl \<Rightarrow> DBImpl" where
  "CompactMemTable bytes db =
     (case db_imm db of
        None \<Rightarrow> db
      | Some t \<Rightarrow>
          (let (edit, db1) = WriteLevel0Table bytes t db
           in db1\<lparr>current := LogAndApply edit (current db1), db_imm := None\<rparr>))"

text \<open>
  What the environment decides for one write: whether the memtable has room, has to be
  switched (waiting for the background thread to flush \<open>db_imm\<close> if there is one), or an
  error is pending; whether the log record is written; and the sizes of tables.
\<close>

datatype room = RoomFits | RoomSwitch | RoomError

record write_env =
  env_room :: room
  env_log :: bool
  env_bytes :: "entry list \<Rightarrow> nat"

definition write_ok :: "write_env \<Rightarrow> bool" where
  "write_ok e \<longleftrightarrow> env_room e \<noteq> RoomError \<and> env_log e"

text \<open>The switch also takes a number for the new log file.\<close>

definition MakeRoomForWrite :: "write_env \<Rightarrow> DBImpl \<Rightarrow> bool \<times> DBImpl" where
  "MakeRoomForWrite e db =
     (case env_room e of
        RoomError \<Rightarrow> (False, db)
      | RoomFits \<Rightarrow> (True, db)
      | RoomSwitch \<Rightarrow>
          (let db1 = (if db_imm db \<noteq> None then CompactMemTable (env_bytes e) db else db)
           in (True, db1\<lparr>next_file_number := next_file_number db1 + 1, db_imm := Some (db_mem db1), db_mem := []\<rparr>)))"

definition DB_Write :: "write_env \<Rightarrow> WriteBatch \<Rightarrow> DBImpl \<Rightarrow> bool \<times> DBImpl" where
  "DB_Write e my_batch db =
     (let (status, db1) = MakeRoomForWrite e db
      in if \<not> status then (status, db1)
         else
           (let updates = my_batch\<lparr>wb_sequence := last_sequence db1 + 1\<rparr>;
                last = last_sequence db1 + wb_count updates
            in if env_log e then
                 (let (status, t) = InsertInto updates (db_mem db1)
                  in (status, db1\<lparr>db_mem := t, last_sequence := last\<rparr>))
               else (False, db1\<lparr>last_sequence := last\<rparr>)))"

definition DB_Put :: "write_env \<Rightarrow> string \<Rightarrow> string \<Rightarrow> DBImpl \<Rightarrow> bool \<times> DBImpl" where
  "DB_Put e key val db = DB_Write e (WriteBatch_Put key val WriteBatch_Clear) db"

definition DB_Delete :: "write_env \<Rightarrow> string \<Rightarrow> DBImpl \<Rightarrow> bool \<times> DBImpl" where
  "DB_Delete e key db = DB_Write e (WriteBatch_Delete key WriteBatch_Clear) db"

definition DB_Get :: "DBImpl \<Rightarrow> string \<Rightarrow> string option" where
  "DB_Get db key =
     (let snapshot = last_sequence db
      in case MemTable_Get key snapshot (db_mem db) of
           Some r \<Rightarrow> r
         | None \<Rightarrow>
             (case (case db_imm db of None \<Rightarrow> None | Some t \<Rightarrow> MemTable_Get key snapshot t) of
                Some r \<Rightarrow> r
              | None \<Rightarrow> Version_Get (current db) key snapshot))"

definition GetSnapshot :: "DBImpl \<Rightarrow> nat \<times> DBImpl" where
  "GetSnapshot db = (last_sequence db, db\<lparr>snapshots := snapshots db @ [last_sequence db]\<rparr>)"

definition ReleaseSnapshot :: "nat \<Rightarrow> DBImpl \<Rightarrow> DBImpl" where
  "ReleaseSnapshot s db = db\<lparr>snapshots := remove1 s (snapshots db)\<rparr>"

definition NewInternalIterator :: "DBImpl \<Rightarrow> entry list" where
  "NewInternalIterator db =
     MergingIterator (db_mem db # (case db_imm db of None \<Rightarrow> [] | Some t \<Rightarrow> [t]) @ AddIterators (current db))"

definition DB_entries :: "DBImpl \<Rightarrow> (string \<times> string) list" where
  "DB_entries db =
     DBIter_all (last_sequence db) (DBIter_SeekToFirst (last_sequence db) (NewInternalIterator db))"

definition DB_entries_from :: "DBImpl \<Rightarrow> string \<Rightarrow> (string \<times> string) list" where
  "DB_entries_from db target =
     DBIter_all (last_sequence db) (DBIter_Seek (last_sequence db) target (NewInternalIterator db))"

section \<open>The invariant\<close>

definition later :: "entry set \<Rightarrow> entry set \<Rightarrow> bool" where
  "later a b \<longleftrightarrow> (\<forall>x \<in> a. \<forall>y \<in> b. eseq y < eseq x)"

definition imm_set :: "DBImpl \<Rightarrow> entry set" where
  "imm_set db = (case db_imm db of None \<Rightarrow> {} | Some t \<Rightarrow> set t)"

definition db_set :: "DBImpl \<Rightarrow> entry set" where
  "db_set db = set (db_mem db) \<union> (imm_set db \<union> version_set (current db))"

definition table_ok :: "nat \<Rightarrow> entry list \<Rightarrow> bool" where
  "table_ok s t \<longleftrightarrow> table_sorted t \<and> (\<forall>e \<in> set t. eseq e \<le> s)"

definition numbers_below :: "nat \<Rightarrow> Version \<Rightarrow> bool" where
  "numbers_below n v \<longleftrightarrow> (\<forall>l. \<forall>f \<in> set (v l). fnumber f < n)"

definition DB_inv :: "DBImpl \<Rightarrow> bool" where
  "DB_inv db \<longleftrightarrow> table_ok (last_sequence db) (db_mem db) \<and> (\<forall>t. db_imm db = Some t \<longrightarrow> table_ok (last_sequence db) t) \<and>
     version_inv (last_sequence db) (current db) \<and> numbers_below (next_file_number db) (current db) \<and>
     later (set (db_mem db)) (imm_set db \<union> version_set (current db)) \<and> later (imm_set db) (version_set (current db))"

lemma later_newer: "later a b \<Longrightarrow> newer a b"
  by (auto simp: later_def newer_def)

lemma later_simps [simp]: "later {} b" "later a {}" "later (a \<union> c) b \<longleftrightarrow> later a b \<and> later c b"
  "later a (b \<union> c) \<longleftrightarrow> later a b \<and> later a c"
  by (auto simp: later_def)

lemma later_mono: "later a b \<Longrightarrow> a' \<subseteq> a \<Longrightarrow> b' \<subseteq> b \<Longrightarrow> later a' b'"
  by (auto simp: later_def)

lemma table_ok_Nil [simp]: "table_ok s []"
  by (simp add: table_ok_def)

lemma version_inv_mono: "version_inv s v \<Longrightarrow> s \<le> s' \<Longrightarrow> version_inv s' v"
  using file_ok_mono [of s _ s'] by (simp add: version_inv_def)

lemma version_set_seq: "version_inv s v \<Longrightarrow> e \<in> version_set v \<Longrightarrow> eseq e \<le> s"
  using version_inv_ok [of s v] by (fastforce simp: version_set_def level_set_def file_ok_def)

lemma version_set_level: "version_inv s v \<Longrightarrow> f \<in> set (v l) \<Longrightarrow> l < kNumLevels"
  by (cases "kNumLevels \<le> l") (simp_all add: version_inv_def)

lemma tset_version: "version_inv s v \<Longrightarrow> f \<in> set (v l) \<Longrightarrow> tset f \<subseteq> version_set v"
  using version_set_level [of s v f l] by (auto simp: version_set_def level_set_def)

lemma DB_inv_mono: "DB_inv db \<Longrightarrow> last_sequence db \<le> s \<Longrightarrow> DB_inv (db\<lparr>last_sequence := s\<rparr>)"
  using version_inv_mono [of "last_sequence db" "current db" s] by (fastforce simp: DB_inv_def table_ok_def imm_set_def)

lemma numbers_below_Suc: "numbers_below n v \<Longrightarrow> numbers_below (Suc n) v"
  by (auto simp: numbers_below_def less_Suc_eq)

lemma DB_Get_sees:
  assumes "DB_inv db"
  shows "sees (db_set db) k (DB_Get db k)"
proof -
  let ?s = "last_sequence db" and ?V = "version_set (current db)"
  have m: "table_sorted (db_mem db)" "\<forall>e \<in> set (db_mem db). eseq e \<le> ?s" using assms by (auto simp: DB_inv_def table_ok_def)
  have nw: "newer (set (db_mem db)) (imm_set db \<union> ?V)" "newer (imm_set db) ?V"
    using assms later_newer by (auto simp: DB_inv_def)
  have V: "sees ?V k (Version_Get (current db) k ?s)" using assms by (intro Version_Get_sees) (simp add: DB_inv_def)
  let ?i = "case db_imm db of None \<Rightarrow> None | Some t \<Rightarrow> MemTable_Get k ?s t"
  have i: "case ?i of None \<Rightarrow> \<not> has_key (imm_set db) k | Some r \<Rightarrow> sees (imm_set db) k r \<and> has_key (imm_set db) k"
    using assms MemTable_Get_sees [of _ ?s k] by (auto simp: DB_inv_def table_ok_def imm_set_def split: option.splits)
  have iV: "sees (imm_set db \<union> ?V) k (case ?i of Some r \<Rightarrow> r | None \<Rightarrow> Version_Get (current db) k ?s)"
    using i V sees_skip [of "imm_set db" k ?V] sees_newer_Some [OF nw(2), of k] by (cases ?i) simp_all
  show ?thesis
  proof (cases "MemTable_Get k ?s (db_mem db)")
    case None
    then show ?thesis using MemTable_Get_sees(1) [OF m, of k] iV sees_skip [of "set (db_mem db)" k] by (simp add: DB_Get_def db_set_def Let_def)
  next
    case (Some r)
    then show ?thesis using MemTable_Get_sees(2) [OF m Some] sees_newer_Some [OF nw(1), of k r] by (simp add: DB_Get_def db_set_def Let_def)
  qed
qed

lemma DB_Get_iff: "DB_inv db \<Longrightarrow> sees (db_set db) k r \<Longrightarrow> DB_Get db k = r"
  using DB_Get_sees sees_unique by blast

section \<open>Flushing a memtable changes nothing\<close>

lemma outside_before:
  "outside (ukey (smallest f)) (ukey (largest f)) g \<Longrightarrow> before_file f g \<or> before_file g f"
  by (auto simp: outside_def before_file_def)

lemma outside_newer:
  assumes "outside (ukey (smallest f)) (ukey (largest f)) g" "file_ok s f" "file_ok s g"
  shows "newer (tset g) (tset f)"
proof -
  have "ukey x \<noteq> ukey y" if "x \<in> tset g" "y \<in> tset f" for x y
    using assms(1) file_ok_range [OF assms(2) that(2)] file_ok_range [OF assms(3) that(1)] by (auto simp: outside_def)
  then show ?thesis by (simp add: newer_def)
qed

lemma flush_edit_ok:
  assumes "version_inv s v" "table_ok s t" "t \<noteq> []" "later (set t) (version_set v)" "numbers_below n v"
    and "f = BuildTable bytes n t" "p = PickLevelForMemTableOutput limit v (ukey (smallest f)) (ukey (largest f))"
  shows "edit_ok s \<lparr>deleted_files = [], new_files = [(p, f)]\<rparr> v p [f]"
proof -
  let ?e = "\<lparr>deleted_files = [], new_files = [(p, f)]\<rparr>"
  have f: "file_ok s f" "fnumber f = n" "tset f = set t" using assms(2,3,6) by (simp_all add: file_ok_def BuildTable_def table_ok_def)
  have k: "kept ?e v l = set (v l)" for l by (simp add: kept_def is_deleted_def)
  have n: "fnumber g < n" if "g \<in> set (v l)" for g l using assms(5) that by (auto simp: numbers_below_def)
  have nw: "newer (tset f) (tset g)" if "g \<in> set (v l)" for g l
    using later_newer later_mono [OF assms(4) _ tset_version [OF assms(1) that]] f(3) by blast
  note P = PickLevel_outside [OF assms(1,7)]
  have out: "outside (ukey (smallest f)) (ukey (largest f)) g" if "p > 0" "l \<le> p" "g \<in> set (v l)" for g l
    using P(2) [OF that] .
  have up: "newer (tset g) (tset f)" if "l < p" "g \<in> set (v l)" for g l
    using outside_newer [OF out [OF _ _ that(2)] f(1) version_inv_ok [OF assms(1) that(2)]] that(1) by auto
  have "p < kNumLevels" using P(1) by (simp add: kMaxMemCompactLevel_def kNumLevels_def)
  then show ?thesis unfolding edit_ok_def k using f n nw up out outside_before by fastforce
qed

lemma flush_version:
  assumes "version_inv s v" "table_ok s t" "t \<noteq> []" "later (set t) (version_set v)" "numbers_below n v"
    and "f = BuildTable bytes n t" "p = PickLevelForMemTableOutput limit v (ukey (smallest f)) (ukey (largest f))"
  defines "v' \<equiv> LogAndApply \<lparr>deleted_files = [], new_files = [(p, f)]\<rparr> v"
  shows "version_inv s v'" and "version_set v' = set t \<union> version_set v" and "numbers_below (n + 1) v'"
proof -
  note E = flush_edit_ok [OF assms(1-7)]
  show "version_inv s v'" unfolding v'_def using assms(1) E by (rule LogAndApply_inv)
  have S: "set (v' l) = set (v l) \<union> (if l = p then {f} else {})" for l
    using set_LogAndApply [OF E, of l] by (simp add: v'_def kept_def is_deleted_def)
  have p: "p < kNumLevels" using E by (simp add: edit_ok_def)
  have "level_set v' l = level_set v l \<union> (if l = p then set t else {})" for l
    using S [of l] assms(6) by (auto simp: level_set_def BuildTable_def)
  then show "version_set v' = set t \<union> version_set v" using p by (auto simp: version_set_def split: if_splits)
  show "numbers_below (n + 1) v'" using S assms(5,6) by (fastforce simp: numbers_below_def BuildTable_def less_Suc_eq split: if_splits)
qed

lemma CompactMemTable_keeps:
  assumes "DB_inv db"
  shows "DB_inv (CompactMemTable bytes db)" and "db_set (CompactMemTable bytes db) = db_set db"
    and "db_imm (CompactMemTable bytes db) = None" and "last_sequence (CompactMemTable bytes db) = last_sequence db"
    and "db_mem (CompactMemTable bytes db) = db_mem db"
proof -
  consider "db_imm db = None" | "db_imm db = Some []" | t where "db_imm db = Some t" "t \<noteq> []" by (cases "db_imm db"; cases "the (db_imm db)") auto
  then have "DB_inv (CompactMemTable bytes db) \<and> db_set (CompactMemTable bytes db) = db_set db \<and>
      db_imm (CompactMemTable bytes db) = None \<and> last_sequence (CompactMemTable bytes db) = last_sequence db \<and>
      db_mem (CompactMemTable bytes db) = db_mem db"
  proof cases
    case 1
    then show ?thesis using assms by (simp add: CompactMemTable_def)
  next
    case 2
    have "LogAndApply \<lparr>deleted_files = [], new_files = []\<rparr> v = v" for v
      by (simp add: LogAndApply_def added_files_def is_deleted_def)
    then show ?thesis using 2 assms by (auto simp: CompactMemTable_def WriteLevel0Table_def DB_inv_def imm_set_def db_set_def numbers_below_Suc)
  next
    case (3 t)
    let ?f = "BuildTable bytes (next_file_number db) t"
    have inv: "version_inv (last_sequence db) (current db)" "table_ok (last_sequence db) t"
      "later (set t) (version_set (current db))" "numbers_below (next_file_number db) (current db)"
      using assms 3 by (auto simp: DB_inv_def imm_set_def)
    note F = flush_version [OF inv(1,2) 3(2) inv(3,4) refl refl, where bytes = bytes and limit = "kMaxGrandParentOverlapBytes (limits db)"]
    have "later (set (db_mem db)) (set t \<union> version_set (current db))" using assms 3(1) by (simp add: DB_inv_def imm_set_def)
    then show ?thesis using F assms 3
      by (auto simp: CompactMemTable_def WriteLevel0Table_def DB_inv_def imm_set_def db_set_def Let_def)
  qed
  then show "DB_inv (CompactMemTable bytes db)" "db_set (CompactMemTable bytes db) = db_set db"
    "db_imm (CompactMemTable bytes db) = None" "last_sequence (CompactMemTable bytes db) = last_sequence db"
    "db_mem (CompactMemTable bytes db) = db_mem db" by auto
qed

lemma MakeRoomForWrite_keeps:
  assumes "DB_inv db" and "MakeRoomForWrite e db = (st, db1)"
  shows "db_set db1 = db_set db" and "DB_inv db1" and "st \<longleftrightarrow> env_room e \<noteq> RoomError"
    and "last_sequence db1 = last_sequence db"
proof -
  let ?d = "if db_imm db \<noteq> None then CompactMemTable (env_bytes e) db else db"
  let ?d' = "?d\<lparr>next_file_number := next_file_number ?d + 1, db_imm := Some (db_mem ?d), db_mem := []\<rparr>"
  have d: "DB_inv ?d" "db_set ?d = db_set db" "db_imm ?d = None" "last_sequence ?d = last_sequence db"
    using assms(1) CompactMemTable_keeps [OF assms(1)] by auto
  have d': "DB_inv ?d'" "db_set ?d' = db_set db"
    using d(1,3) unfolding d(2) [symmetric] by (auto simp: DB_inv_def db_set_def imm_set_def numbers_below_Suc simp del: if_split)
  have c: "st = (env_room e \<noteq> RoomError) \<and> db1 = (if env_room e = RoomSwitch then ?d' else db)"
    using assms(2) unfolding MakeRoomForWrite_def Let_def by (cases "env_room e") (simp_all del: if_split)
  then show "db_set db1 = db_set db" "DB_inv db1" "st \<longleftrightarrow> env_room e \<noteq> RoomError" "last_sequence db1 = last_sequence db"
    using d(4) d' assms(1) by (auto simp del: if_split split: if_split_asm)
qed

section \<open>Writes\<close>

lemma db_set_seq: "DB_inv db \<Longrightarrow> e \<in> db_set db \<Longrightarrow> eseq e \<le> last_sequence db"
  using version_set_seq [of "last_sequence db" "current db" e]
  by (auto simp: DB_inv_def db_set_def imm_set_def table_ok_def split: option.splits)

lemma insert_keeps:
  assumes "DB_inv db" "t = MemTableInserter ops (last_sequence db + 1) (db_mem db)"
    and "db' = db\<lparr>db_mem := t, last_sequence := last_sequence db + length ops\<rparr>"
  shows "DB_inv db'" and "DB_Get db' j = ops_get ops j (DB_Get db j)"
proof -
  let ?s = "last_sequence db" and ?R = "imm_set db \<union> version_set (current db)"
  have m: "\<forall>e \<in> set (db_mem db). eseq e < ?s + 1" "table_sorted (db_mem db)"
    using assms(1) by (auto simp: DB_inv_def table_ok_def)
  note I = MemTableInserter_inv [OF m, of ops, folded assms(2)]
  have old: "e \<in> ?R \<Longrightarrow> eseq e \<le> ?s" for e using db_set_seq [OF assms(1), of e] by (auto simp: db_set_def)
  have "later (set (db_mem db)) ?R" using assms(1) by (simp add: DB_inv_def)
  then have lt: "later (set t) ?R" using I old by (fastforce simp: later_def)
  have db: "DB_inv (db\<lparr>last_sequence := ?s + length ops\<rparr>)" using assms(1) by (intro DB_inv_mono) simp_all
  have t: "table_ok (?s + length ops) t" using I by (auto simp: table_ok_def less_Suc_eq_le)
  have "imm_set db' = imm_set db" by (simp add: assms(3) imm_set_def)
  then show inv: "DB_inv db'" using db lt t by (auto simp: DB_inv_def assms(3) imm_set_def)
  have "\<forall>e \<in> set (db_mem db) \<union> ?R. eseq e < ?s + 1" using db_set_seq [OF assms(1)] by (auto simp: db_set_def less_Suc_eq_le)
  then have "sees (set t \<union> ?R) j (ops_get ops j (DB_Get db j))"
    using DB_Get_sees [OF assms(1), of j] unfolding assms(2) by (intro MemTableInserter_sees) (simp_all add: db_set_def)
  then have "sees (db_set db') j (ops_get ops j (DB_Get db j))" by (simp add: db_set_def assms(3) imm_set_def)
  then show "DB_Get db' j = ops_get ops j (DB_Get db j)" by (rule DB_Get_iff [OF inv])
qed

lemma DB_Write_ops:
  assumes "DB_inv db" and "\<forall>x \<in> set ops. op_fits x"
    and "DB_Write e (fold WriteBatch_apply ops WriteBatch_Clear) db = (st, db')"
  shows "st \<longleftrightarrow> write_ok e" and "DB_inv db'"
    and "DB_Get db' j = (if write_ok e then ops_get ops j (DB_Get db j) else DB_Get db j)"
proof -
  obtain ok db1 where room: "MakeRoomForWrite e db = (ok, db1)" by fastforce
  note R = MakeRoomForWrite_keeps [OF assms(1) room]
  let ?b = "fold WriteBatch_apply ops WriteBatch_Clear" and ?s = "last_sequence db1"
  have it: "WriteBatch_Iterate (?b\<lparr>wb_sequence := n\<rparr>) = (ops, True)" for n
    using WriteBatch_Iterate_fold [OF assms(2)] by (simp add: WriteBatch_Iterate_def)
  have cnt: "wb_count ?b = length ops" by (simp add: WriteBatch_fold WriteBatch_Clear_def)
  have old: "DB_Get db1 j = DB_Get db j" using DB_Get_sees [OF assms(1), of j] R(1) by (intro DB_Get_iff [OF R(2)]) simp
  consider "\<not> ok" | "ok" "\<not> env_log e" | "ok" "env_log e" by blast
  then have "(st \<longleftrightarrow> write_ok e) \<and> DB_inv db' \<and>
    DB_Get db' j = (if write_ok e then ops_get ops j (DB_Get db j) else DB_Get db j)"
  proof cases
    case 1
    then show ?thesis using assms(3) room R(2,3) old by (auto simp: DB_Write_def write_ok_def)
  next
    case 2
    then have db': "db' = db1\<lparr>last_sequence := ?s + length ops\<rparr>" "\<not> st"
      using assms(3) room by (auto simp: DB_Write_def cnt Let_def)
    have inv: "DB_inv db'" unfolding db' using R(2) by (intro DB_inv_mono) simp_all
    have "sees (db_set db') j (DB_Get db j)" using DB_Get_sees [OF R(2), of j] old by (simp add: db' db_set_def imm_set_def)
    then show ?thesis using 2 db'(2) inv DB_Get_iff [OF inv] by (simp add: write_ok_def)
  next
    case 3
    then have db': "db' = db1\<lparr>db_mem := MemTableInserter ops (?s + 1) (db_mem db1), last_sequence := ?s + length ops\<rparr>" "st"
      using assms(3) room by (auto simp: DB_Write_def cnt Let_def InsertInto_def it)
    then show ?thesis using insert_keeps [OF R(2) refl db'(1)] 3 R(3) old by (simp add: write_ok_def)
  qed
  then show "st \<longleftrightarrow> write_ok e" "DB_inv db'"
    "DB_Get db' j = (if write_ok e then ops_get ops j (DB_Get db j) else DB_Get db j)" by auto
qed

definition key_fits :: "string \<Rightarrow> bool" where
  "key_fits k \<longleftrightarrow> length k < 2 ^ 32"

definition pair_fits :: "string \<Rightarrow> string \<Rightarrow> bool" where
  "pair_fits k v \<longleftrightarrow> length k < 2 ^ 32 \<and> length v < 2 ^ 32"

lemma DB_Put_ops:
  assumes "DB_inv db" and "pair_fits k v"
  shows "fst (DB_Put e k v db) \<longleftrightarrow> write_ok e" and "DB_inv (snd (DB_Put e k v db))"
    and "DB_Get (snd (DB_Put e k v db)) j = (if write_ok e \<and> j = k then Some v else DB_Get db j)"
  using DB_Write_ops [OF assms(1), of "[Handler_Put k v]" e] assms(2)
  by (cases "DB_Put e k v db"; simp add: DB_Put_def pair_fits_def)+

lemma DB_Delete_ops:
  assumes "DB_inv db" and "key_fits k"
  shows "fst (DB_Delete e k db) \<longleftrightarrow> write_ok e" and "DB_inv (snd (DB_Delete e k db))"
    and "DB_Get (snd (DB_Delete e k db)) j = (if write_ok e \<and> j = k then None else DB_Get db j)"
  using DB_Write_ops [OF assms(1), of "[Handler_Delete k]" e] assms(2)
  by (cases "DB_Delete e k db"; simp add: DB_Delete_def key_fits_def)+

section \<open>The iterator reads the map in key order\<close>

lemma NewInternalIterator_sorted:
  assumes "DB_inv db"
  shows "table_sorted (NewInternalIterator db)" and "set (NewInternalIterator db) = db_set db"
proof -
  let ?cs = "db_mem db # (case db_imm db of None \<Rightarrow> [] | Some t \<Rightarrow> [t]) @ AddIterators (current db)"
  have inv: "version_inv (last_sequence db) (current db)" using assms by (simp add: DB_inv_def)
  note A = AddIterators_ok [OF inv]
  have sub: "set t \<subseteq> version_set (current db)" if "t \<in> set (AddIterators (current db))" for t using A(2) that by blast
  have ap: "apart (set (db_mem db)) (imm_set db)" "apart (set (db_mem db)) (version_set (current db))" "apart (imm_set db) (version_set (current db))"
    using assms later_newer newer_apart by (auto simp: DB_inv_def)
  have "apart (set (db_mem db)) (set t)" "apart (imm_set db) (set t)" if "t \<in> set (AddIterators (current db))" for t
    using ap(2,3) sub [OF that] apart_subset apart_sym by metis+
  then have "children_ok ?cs" using A(1) ap(1) assms by (auto simp: DB_inv_def table_ok_def imm_set_def split: option.splits)
  from MergingIterator_sorted [OF this] show "table_sorted (NewInternalIterator db)" "set (NewInternalIterator db) = db_set db"
    using A(2) by (auto simp: NewInternalIterator_def db_set_def imm_set_def split: option.splits)
qed

lemma DB_entries_props:
  assumes "DB_inv db"
  shows "map_of (DB_entries db) k = DB_Get db k" and "sorted_wrt (<) (map fst (DB_entries db))"
proof -
  let ?m = "NewInternalIterator db"
  note N = NewInternalIterator_sorted [OF assms]
  have le: "\<forall>e \<in> set ?m. eseq e \<le> last_sequence db" using N(2) db_set_seq [OF assms] by simp
  have "DB_Get db k = Option.bind (table_find k ?m) entry_result"
    using table_find_sees [OF N(1), of k] N(2) by (intro DB_Get_iff [OF assms]) simp
  then show "map_of (DB_entries db) k = DB_Get db k"
    using DBIter_all_FindNext(1) [OF N(1) le, of False "[]" k] by (simp add: DB_entries_def DBIter_SeekToFirst_def skips_def)
  show "sorted_wrt (<) (map fst (DB_entries db))"
    using DBIter_all_FindNext(2) [OF N(1) le, of False "[]"] by (simp add: DB_entries_def DBIter_SeekToFirst_def)
qed

text \<open>\<open>BatchPut\<close> and the replication code write batches of insertions.\<close>

definition DB_put_all :: "write_env \<Rightarrow> (string \<times> string) list \<Rightarrow> DBImpl \<Rightarrow> bool \<times> DBImpl" where
  "DB_put_all e kvs db =
     DB_Write e (fold (\<lambda>(k, v). WriteBatch_Put k v) kvs WriteBatch_Clear) db"

lemma ops_get_puts:
  "ops_get (map (\<lambda>(k, v). Handler_Put k v) kvs) j r =
     (case map_of (rev kvs) j of Some v \<Rightarrow> Some v | None \<Rightarrow> r)"
  by (induction kvs arbitrary: r) (auto simp: map_add_def split: option.splits)

lemma fold_puts:
  "fold (\<lambda>(k, v). WriteBatch_Put k v) kvs b = fold WriteBatch_apply (map (\<lambda>(k, v). Handler_Put k v) kvs) b"
  by (induction kvs arbitrary: b) auto

lemma DB_put_all_ops:
  assumes "DB_inv db" and "\<forall>p \<in> set kvs. pair_fits (fst p) (snd p)"
  shows "fst (DB_put_all e kvs db) \<longleftrightarrow> write_ok e" and "DB_inv (snd (DB_put_all e kvs db))"
    and "DB_Get (snd (DB_put_all e kvs db)) j =
      (if write_ok e then (case map_of (rev kvs) j of Some v \<Rightarrow> Some v | None \<Rightarrow> DB_Get db j)
       else DB_Get db j)"
proof -
  let ?ops = "map (\<lambda>(k, v). Handler_Put k v) kvs"
  have "\<forall>x \<in> set ?ops. op_fits x" using assms(2) by (fastforce simp: pair_fits_def)
  note W = DB_Write_ops [OF assms(1) this]
  obtain st db' where w: "DB_put_all e kvs db = (st, db')" by fastforce
  then have "DB_Write e (fold WriteBatch_apply ?ops WriteBatch_Clear) db = (st, db')"
    by (simp add: DB_put_all_def fold_puts)
  from W [OF this] show "fst (DB_put_all e kvs db) \<longleftrightarrow> write_ok e" "DB_inv (snd (DB_put_all e kvs db))"
    "DB_Get (snd (DB_put_all e kvs db)) j =
      (if write_ok e then (case map_of (rev kvs) j of Some v \<Rightarrow> Some v | None \<Rightarrow> DB_Get db j)
       else DB_Get db j)"
    by (simp_all add: w ops_get_puts)
qed

lemma DB_inv_new [simp]: "DB_inv (DBImpl_new mb)"
  by (simp add: DB_inv_def DBImpl_new_def imm_set_def version_set_def level_set_def version_inv_def numbers_below_def)

lemma DB_Get_new [simp]: "DB_Get (DBImpl_new mb) k = None"
  by (rule DB_Get_iff [OF DB_inv_new]) (simp add: db_set_def imm_set_def DBImpl_new_def version_set_def level_set_def)

lemma DB_entries_new [simp]: "DB_entries (DBImpl_new mb) = []"
  using DB_entries_props(1) [OF DB_inv_new, of mb "fst (hd (DB_entries (DBImpl_new mb)))"] by (cases "DB_entries (DBImpl_new mb)") auto

lemma DB_empty_simps [simp]: "DB_inv DB_empty" "DB_Get DB_empty k = None" "DB_entries DB_empty = []"
  by (simp_all add: DB_empty_def)

interpretation ldb: kv_batch_store DB_Get "\<lambda>e k v db. snd (DB_Put e k v db)"
  "\<lambda>e k db. snd (DB_Delete e k db)" DB_entries DB_inv write_ok pair_fits key_fits
  "\<lambda>e kvs db. snd (DB_put_all e kvs db)"
  by unfold_locales
    (simp_all add: DB_Put_ops DB_Delete_ops DB_entries_props DB_put_all_ops)

lemmas ldb_laws = DB_Put_ops DB_Delete_ops DB_put_all_ops ldb.entries_get

end
