(* ===== verification/Config.thy ===== *)
theory Config
  imports CString StdMap
begin

text \<open>
  \<open>GentConfig\<close> (\<open>src/gent_config.cpp\<close>): the settings map with its defaults, and the parser
  of the configuration file. A file is its contents; \<open>getline\<close> yields its lines.
\<close>

type_synonym GentConfig = "(string, string) smap"

definition GentConfig_new :: GentConfig where
  "GentConfig_new = sm_put ''thread'' ''10'' (sm_put ''port'' ''3535'' [])"

definition config_set :: "string \<Rightarrow> string \<Rightarrow> GentConfig \<Rightarrow> GentConfig" where
  "config_set key val conf = sm_put key val conf"

text \<open>\<open>operator[]\<close>: a missing key reads as the empty string.\<close>

definition config_at :: "GentConfig \<Rightarrow> string \<Rightarrow> string" where
  "config_at conf key = (case sm_get conf key of None \<Rightarrow> [] | Some v \<Rightarrow> v)"

fun getlines :: "string \<Rightarrow> string \<Rightarrow> string list" where
  "getlines cur [] = (if cur = [] then [] else [cur])"
| "getlines cur (c # cs) = (if c = LF then cur # getlines [] cs else getlines (cur @ [c]) cs)"

definition key_blanks :: string where
  "key_blanks = '' '' @ [CHR 0x0C, CHR 0x09, CHR 0x0B]"

definition value_blanks :: string where
  "value_blanks = '' '' @ [CHR 0x0C, LF, CR, CHR 0x09, CHR 0x0B]"

text \<open>One round of the loop of \<open>Parse\<close>. A line without \<open>=\<close> has \<open>end = npos\<close>, so \<open>end + 1\<close> is 0.\<close>

definition Parse_line :: "string \<Rightarrow> GentConfig \<Rightarrow> GentConfig res" where
  "Parse_line s conf =
     (case find_first_not_of s key_blanks 0 of
        None \<Rightarrow> Inr conf
      | Some beg \<Rightarrow>
          if s ! beg \<in> set ''#;'' then Inr conf
          else
            (let fin = find_first_of s ''='' beg in
             rbind (case fin of None \<Rightarrow> substr_from s beg | Some e \<Rightarrow> substr s beg (e - beg))
               (\<lambda>k0.
                  let key = (case find_last_not_of k0 key_blanks of None \<Rightarrow> [] | Some n \<Rightarrow> take (n + 1) k0)
                  in if key = [] then Inr conf
                     else
                       (case find_first_not_of s value_blanks (case fin of None \<Rightarrow> 0 | Some e \<Rightarrow> e + 1) of
                          None \<Rightarrow> Inl Out_of_range
                        | Some vbegin \<Rightarrow>
                            (let vend = (case find_last_not_of s value_blanks of None \<Rightarrow> 0 | Some n \<Rightarrow> n + 1)
                             in rbind (substr s vbegin (vend - vbegin))
                                  (\<lambda>value. Inr (sm_put key value conf)))))))"

fun Parse_lines :: "string list \<Rightarrow> GentConfig \<Rightarrow> GentConfig res" where
  "Parse_lines [] conf = Inr conf"
| "Parse_lines (s # ss) conf = rbind (Parse_line s conf) (Parse_lines ss)"

text \<open>\<open>None\<close>: the file cannot be opened and \<open>getline\<close> fails at once.\<close>

definition Parse :: "string option \<Rightarrow> GentConfig \<Rightarrow> GentConfig res" where
  "Parse file conf =
     (case file of None \<Rightarrow> Inr conf | Some contents \<Rightarrow> Parse_lines (getlines [] contents) conf)"

section \<open>What a line contributes\<close>

text \<open>
  A key as it can stand in a file: it neither starts nor ends with a blank, does not start a
  comment and has no \<open>=\<close>; a value neither starts nor ends with a blank.
\<close>

definition good_key :: "string \<Rightarrow> bool" where
  "good_key k \<longleftrightarrow> k \<noteq> [] \<and> hd k \<notin> set key_blanks \<and> last k \<notin> set key_blanks \<and>
     hd k \<notin> set ''#;'' \<and> CHR ''='' \<notin> set k \<and> LF \<notin> set k"

definition good_value :: "string \<Rightarrow> bool" where
  "good_value v \<longleftrightarrow> v \<noteq> [] \<and> hd v \<notin> set value_blanks \<and> last v \<notin> set value_blanks \<and> LF \<notin> set v"

lemma find_first_not_of_hd:
  "k \<noteq> [] \<Longrightarrow> hd k \<notin> set cs \<Longrightarrow> find_first_not_of (a @ k @ r) cs (length a) = Some (length a)"
  by (cases k) (simp_all add: find_first_not_of_def)

lemma find_last_not_of_last:
  "k \<noteq> [] \<Longrightarrow> last k \<notin> set cs \<Longrightarrow> find_last_not_of (a @ k) cs = Some (length a + length k - 1)"
  by (cases k rule: rev_cases) (simp_all add: find_last_not_of_def)

lemma Parse_line_good:
  assumes "good_key k" and "good_value v"
  shows "Parse_line (k @ ''='' @ v) conf = Inr (sm_put k v conf)"
proof -
  let ?s = "k @ ''='' @ v"
  have b: "find_first_not_of ?s key_blanks 0 = Some 0"
    using find_first_not_of_hd [of k key_blanks "[]"] assms(1) by (simp add: good_key_def)
  have c: "?s ! 0 \<notin> set ''#;''" using assms(1) by (cases k) (auto simp: good_key_def)
  have e: "find_first_of ?s ''='' 0 = Some (length k)"
    using find_first_of_hit [of k "''=''" "CHR ''=''" "[]" v] assms(1)
    by (auto simp: good_key_def)
  have kl: "find_last_not_of k key_blanks = Some (length k - 1)"
    using find_last_not_of_last [of k key_blanks "[]"] assms(1) by (simp add: good_key_def)
  have vb: "find_first_not_of ?s value_blanks (length k + 1) = Some (length k + 1)"
    using find_first_not_of_hd [of v value_blanks "k @ ''=''" "[]"] assms(2) by (simp add: good_value_def)
  have vl: "find_last_not_of ?s value_blanks = Some (length k + 1 + length v - 1)"
    using find_last_not_of_last [of v value_blanks "k @ ''=''"] assms(2) by (simp add: good_value_def)
  have k: "k \<noteq> []" and v: "v \<noteq> []" using assms by (auto simp: good_key_def good_value_def)
  then show ?thesis
    using b c e kl vb vl by (simp add: Parse_line_def Let_def)
qed

lemma Parse_line_no_value:
  assumes "good_key k" and "set w \<subseteq> set value_blanks"
  shows "Parse_line (k @ ''='' @ w) conf = Inl Out_of_range"
proof -
  let ?s = "k @ ''='' @ w"
  have b: "find_first_not_of ?s key_blanks 0 = Some 0"
    using find_first_not_of_hd [of k key_blanks "[]"] assms(1) by (simp add: good_key_def)
  have c: "?s ! 0 \<notin> set ''#;''" using assms(1) by (cases k) (auto simp: good_key_def)
  have e: "find_first_of ?s ''='' 0 = Some (length k)"
    using find_first_of_hit [of k "''=''" "CHR ''=''" "[]" w] assms(1)
    by (auto simp: good_key_def)
  have kl: "find_last_not_of k key_blanks = Some (length k - 1)"
    using find_last_not_of_last [of k key_blanks "[]"] assms(1) by (simp add: good_key_def)
  have "\<not> length (takeWhile (\<lambda>c. c \<in> set value_blanks) w) < length w"
    unfolding length_takeWhile_less using assms(2) by auto
  then have "find_first_not_of ?s value_blanks (length k + 1) = None"
    by (simp add: find_first_not_of_def Let_def)
  moreover have "k \<noteq> []" using assms by (auto simp: good_key_def)
  ultimately show ?thesis
    using b c e kl by (simp add: Parse_line_def Let_def)
qed

lemma getlines_line: "LF \<notin> set s \<Longrightarrow> getlines cur (s @ LF # r) = (cur @ s) # getlines [] r"
  by (induction s arbitrary: cur) auto

definition conf_file :: "(string \<times> string) list \<Rightarrow> string" where
  "conf_file kvs = concat (map (\<lambda>(k, v). k @ ''='' @ v @ [LF]) kvs)"

lemma Parse_conf_file:
  "\<forall>(k, v) \<in> set kvs. good_key k \<and> good_value v \<Longrightarrow>
     Parse_lines (getlines [] (conf_file kvs)) conf = Inr (fold (\<lambda>(k, v). sm_put k v) kvs conf)"
proof (induction kvs arbitrary: conf)
  case (Cons p kvs)
  obtain k v where p: "p = (k, v)" by fastforce
  have g: "good_key k" "good_value v" using Cons.prems p by auto
  have "LF \<notin> set (k @ ''='' @ v)" using g by (auto simp: good_key_def good_value_def)
  from getlines_line [OF this, of "[]" "conf_file kvs"]
  have "getlines [] (conf_file (p # kvs)) = (k @ ''='' @ v) # getlines [] (conf_file kvs)"
    by (simp add: conf_file_def p)
  moreover have "\<forall>(k, v) \<in> set kvs. good_key k \<and> good_value v" using Cons.prems by simp
  ultimately show ?case using Parse_line_good [OF g] Cons.IH p by simp
qed (simp add: conf_file_def)

end
