(* ===== verification/Db.thy ===== *)
theory Db
  imports DbImpl Config
begin

text \<open>
  \<open>GentDb\<close> (\<open>src/gent_db.cpp\<close>): values in one LevelDB database, their type, expiry time and
  store time in a second one, a key counter with its file. The environment of an
  operation is a record: the outcome of each database write, of the writes to the counter
  file, of \<open>pthread_create\<close>, and what \<open>time (NULL)\<close> returns.
\<close>

section \<open>State\<close>

record metaData =
  md_datatype :: int
  md_expire :: nat
  md_store_time :: nat

record GentDb =
  gdb :: DBImpl
  gmeta :: DBImpl
  key_num :: nat
  write_num :: nat
  trigger_num_save :: int
  is_clear :: bool
  num_file :: "string option"
  clear_threads :: nat

datatype file_env = FileOk | FileOpenFails | FileWriteFails

record db_env =
  env_db :: write_env
  env_meta :: "nat \<Rightarrow> write_env"
  env_file :: file_env
  env_thread :: bool
  env_now :: nat

definition REDIS_EXPIRE_TIME :: nat where
  "REDIS_EXPIRE_TIME = 2 ^ 63 - 1"

definition MAX_WRITE_CLEAR :: nat where
  "MAX_WRITE_CLEAR = 50000"

definition GentDb_new :: "DBImpl \<Rightarrow> DBImpl \<Rightarrow> string option \<Rightarrow> GentDb" where
  "GentDb_new d m f = \<lparr>gdb = d, gmeta = m, key_num = 0, write_num = 0, trigger_num_save = 0,
     is_clear = False, num_file = f, clear_threads = 0\<rparr>"

section \<open>Metadata records\<close>

definition MetaSerialize :: "nat \<Rightarrow> int \<Rightarrow> nat \<Rightarrow> string" where
  "MetaSerialize now datatype expire =
     snprintf_buf 100
       (if expire = 0 \<or> expire > REDIS_EXPIRE_TIME then dec_int datatype @ ''*0000000000'' @ dec now
        else dec_int datatype @ ''+'' @ dec expire @ dec now)"

definition MetaUnserialize :: "string \<Rightarrow> metaData res" where
  "MetaUnserialize str =
     rbind (substr str 0 1) (\<lambda>d.
     rbind (substr str 1 1) (\<lambda>star.
     rbind (if star = ''*'' then Inr 0
            else rbind (substr str 2 10) (\<lambda>e. Inr (strtoull10 (cstr e)))) (\<lambda>expire.
     rbind (substr str 12 10) (\<lambda>t.
       Inr \<lparr>md_datatype = atoi (cstr d), md_expire = expire, md_store_time = strtoull10 (cstr t)\<rparr>))))"

section \<open>The key counter\<close>

definition SetNum :: "file_env \<Rightarrow> nat \<Rightarrow> GentDb \<Rightarrow> GentDb" where
  "SetNum fe num g =
     (if trigger_num_save g < 100 then g
      else (case fe of
              FileOpenFails \<Rightarrow> g
            | FileWriteFails \<Rightarrow> g\<lparr>num_file := Some []\<rparr>
            | FileOk \<Rightarrow>
                (let buf = snprintf_buf 100 (dec num)
                 in g\<lparr>num_file := Some (buf @ replicate (100 - length buf) NUL), trigger_num_save := 0\<rparr>)))"

definition LoadNum :: "GentDb \<Rightarrow> GentDb" where
  "LoadNum g =
     (case num_file g of
        None \<Rightarrow> g
      | Some f \<Rightarrow> if 100 \<le> length f then g\<lparr>key_num := to_u64 (strtol10 (cstr (take 100 f)))\<rparr> else g)"

section \<open>Reads\<close>

text \<open>\<open>None\<close>: the method returns false.\<close>

definition GentDb_Get :: "nat \<Rightarrow> string \<Rightarrow> GentDb \<Rightarrow> string option res" where
  "GentDb_Get now key g =
     (case DB_Get (gmeta g) key of
        None \<Rightarrow> Inr (DB_Get (gdb g) key)
      | Some m \<Rightarrow>
          rbind (MetaUnserialize m) (\<lambda>dat.
            if md_expire dat \<noteq> 0 \<and> md_expire dat < now then Inr None
            else Inr (DB_Get (gdb g) key)))"

definition GentDb_Get_expire :: "string \<Rightarrow> GentDb \<Rightarrow> (string option \<times> nat) res" where
  "GentDb_Get_expire key g =
     rbind (case DB_Get (gmeta g) key of
              None \<Rightarrow> Inr 0
            | Some m \<Rightarrow> rbind (MetaUnserialize m) (\<lambda>dat. Inr (md_expire dat)))
       (\<lambda>expire. Inr (DB_Get (gdb g) key, expire))"

definition GentDb_Ttl :: "string \<Rightarrow> GentDb \<Rightarrow> (bool \<times> nat) res" where
  "GentDb_Ttl key g =
     (case DB_Get (gmeta g) key of
        Some m \<Rightarrow> rbind (MetaUnserialize m) (\<lambda>dat. Inr (True, md_expire dat))
      | None \<Rightarrow> Inr (DB_Get (gdb g) key \<noteq> None, 0))"

section \<open>Writes\<close>

definition StartClear :: "bool \<Rightarrow> GentDb \<Rightarrow> GentDb" where
  "StartClear created g = (if created then g\<lparr>clear_threads := clear_threads g + 1\<rparr> else g)"

text \<open>The common body of the two \<open>Put\<close> methods, after the clearing check.\<close>

definition Put_body :: "db_env \<Rightarrow> string \<Rightarrow> string \<Rightarrow> nat \<Rightarrow> int \<Rightarrow> GentDb \<Rightarrow> bool \<times> GentDb" where
  "Put_body e key val expire datatype g =
     (let known = DB_Get (gmeta g) key \<noteq> None;
          (ok, db1) = DB_Put (env_db e) key val (gdb g);
          g1 = g\<lparr>gdb := db1\<rparr>;
          g2 = (if known then g1
                else (let g' = g1\<lparr>key_num := add64 (key_num g1) 1\<rparr> in SetNum (env_file e) (key_num g') g'));
          g3 = (if ok then
                  g2\<lparr>gmeta := snd (DB_Put (env_meta e 0) key (MetaSerialize (env_now e) datatype expire) (gmeta g2))\<rparr>
                else g2)
      in (ok, g3\<lparr>write_num := add64 (write_num g3) 1,
                 trigger_num_save := to_i32 (trigger_num_save g3 + 1)\<rparr>))"

definition GentDb_Put_str :: "db_env \<Rightarrow> string \<Rightarrow> string \<Rightarrow> nat \<Rightarrow> int \<Rightarrow> GentDb \<Rightarrow> bool \<times> GentDb" where
  "GentDb_Put_str e key val expire datatype g = Put_body e key val expire datatype g"

definition GentDb_Put :: "db_env \<Rightarrow> string \<Rightarrow> string \<Rightarrow> nat \<Rightarrow> int \<Rightarrow> GentDb \<Rightarrow> bool \<times> GentDb" where
  "GentDb_Put e key val expire datatype g =
     (let g0 = (if write_num g > MAX_WRITE_CLEAR \<and> \<not> is_clear g
                then (StartClear (env_thread e) g)\<lparr>write_num := 0\<rparr> else g)
      in Put_body e key val expire datatype g0)"

fun BatchPut_meta :: "db_env \<Rightarrow> nat \<Rightarrow> (string, string) smap \<Rightarrow> GentDb \<Rightarrow> GentDb" where
  "BatchPut_meta e i [] g = g"
| "BatchPut_meta e i ((key, val) # data) g =
     BatchPut_meta e (i + 1) data
       (g\<lparr>gmeta := snd (DB_Put (env_meta e i) key (MetaSerialize (env_now e) 0 0) (gmeta g)),
          write_num := add64 (write_num g) 1,
          trigger_num_save := to_i32 (trigger_num_save g + 1)\<rparr>)"

definition BatchPut :: "db_env \<Rightarrow> (string, string) smap \<Rightarrow> GentDb \<Rightarrow> bool \<times> GentDb" where
  "BatchPut e data g =
     (let (ok, db1) = DB_put_all (env_db e) data (gdb g);
          g1 = g\<lparr>gdb := db1\<rparr>
      in if ok then
           (let g2 = BatchPut_meta e 0 data g1;
                g3 = g2\<lparr>key_num := add64 (key_num g2) (length data)\<rparr>
            in (ok, SetNum (env_file e) (key_num g3) g3))
         else (ok, g1))"

definition GentDb_Del :: "db_env \<Rightarrow> string \<Rightarrow> GentDb \<Rightarrow> bool \<times> GentDb" where
  "GentDb_Del e key g =
     (let (ok, db1) = DB_Delete (env_db e) key (gdb g);
          g1 = g\<lparr>gdb := db1\<rparr>;
          g2 = (if key_num g1 > 0 \<and> ok
                then (let g' = g1\<lparr>key_num := key_num g1 - 1\<rparr> in SetNum (env_file e) (key_num g') g')
                else g1);
          g3 = (if ok then g2\<lparr>gmeta := snd (DB_Delete (env_meta e 0) key (gmeta g2))\<rparr> else g2)
      in (ok, g3))"

section \<open>Scans\<close>

fun Random_loop :: "nat \<Rightarrow> nat \<Rightarrow> (string \<times> string) list \<Rightarrow> string" where
  "Random_loop ni i [] = []"
| "Random_loop ni i (kv # it) = (if i \<ge> ni then fst kv else Random_loop ni (i + 1) it)"

text \<open>\<open>r\<close> is the value of \<open>rand ()\<close>.\<close>

definition Random :: "nat \<Rightarrow> GentDb \<Rightarrow> bool \<times> string" where
  "Random r g =
     (if key_num g = 0 then (False, [])
      else
        (let max = (if key_num g < 1000 then key_num g else 1000);
             ni = r mod max
         in (True, Random_loop ni 1 (DB_entries (gmeta g)))))"

fun Count_loop :: "string \<Rightarrow> bool \<Rightarrow> nat \<Rightarrow> (string \<times> string) list \<Rightarrow> nat" where
  "Count_loop pre first num [] = num"
| "Count_loop pre first num (kv # it) =
     (if pre \<noteq> [] then
        (if take (length pre) (fst kv) \<noteq> pre then
           (if first then num else Count_loop pre first num it)
         else Count_loop pre True (num + 1) it)
      else Count_loop pre first (num + 1) it)"

definition Count :: "file_env \<Rightarrow> string \<Rightarrow> GentDb \<Rightarrow> nat \<times> GentDb" where
  "Count fe pre g =
     (if pre = [] \<and> key_num g > 0 then (key_num g, g)
      else
        (let num = Count_loop pre False 0 (DB_entries (gmeta g))
         in if pre = [] \<and> key_num g = 0
            then (num, SetNum fe num (g\<lparr>key_num := num\<rparr>))
            else (num, g)))"

fun Keys_loop :: "string \<Rightarrow> bool \<Rightarrow> string list \<Rightarrow> (string \<times> string) list \<Rightarrow> string list" where
  "Keys_loop pre first outvec [] = outvec"
| "Keys_loop pre first outvec (kv # it) =
     (if pre \<noteq> ''*'' then
        (if take (length pre) (fst kv) \<noteq> pre then
           (if \<not> first then outvec else Keys_loop pre first outvec it)
         else Keys_loop pre False (outvec @ [fst kv]) it)
      else Keys_loop pre first (outvec @ [fst kv]) it)"

definition Keys :: "string \<Rightarrow> GentDb \<Rightarrow> string list" where
  "Keys pre g = Keys_loop pre True [] (DB_entries (gmeta g))"

text \<open>The scan reads a snapshot: \<open>it\<close> is the metadata as it was when the scan began.\<close>

fun Clear_loop :: "(nat \<Rightarrow> db_env) \<Rightarrow> nat \<Rightarrow> nat \<Rightarrow> (string \<times> string) list \<Rightarrow> nat \<Rightarrow> GentDb \<Rightarrow> (nat \<times> GentDb) res" where
  "Clear_loop e now i [] num g = Inr (num, g)"
| "Clear_loop e now i (kv # it) num g =
     rbind (MetaUnserialize (snd kv)) (\<lambda>dat.
       if md_expire dat = 0 then Clear_loop e now (i + 1) it num g
       else if md_expire dat > now then Clear_loop e now (i + 1) it num g
       else Clear_loop e now (i + 1) it (num + 1) (snd (GentDb_Del (e i) (fst kv) g)))"

definition ClearExpireKey :: "(nat \<Rightarrow> db_env) \<Rightarrow> nat \<Rightarrow> GentDb \<Rightarrow> (nat \<times> GentDb) res" where
  "ClearExpireKey e now g =
     rbind (Clear_loop e now 0 (DB_entries (gmeta g)) 0 (g\<lparr>is_clear := True\<rparr>)) (\<lambda>(num, g').
       Inr (num, g'\<lparr>is_clear := False\<rparr>))"

text \<open>\<open>GentThread::ClearHandle\<close>: the body of a clearing thread.\<close>

definition ClearHandle :: "(nat \<Rightarrow> db_env) \<Rightarrow> nat \<Rightarrow> GentDb \<Rightarrow> GentDb res" where
  "ClearHandle e now g =
     rbind (ClearExpireKey e now g) (\<lambda>(num, g'). Inr (g'\<lparr>clear_threads := clear_threads g' - 1\<rparr>))"

section \<open>Opening the databases\<close>

record Options =
  create_if_missing :: bool
  max_open_files :: int
  write_buffer_size :: nat
  target_file_size :: nat
  block_cache :: "nat option"
  block_size :: nat
  compression :: bool
  filter_bits :: "nat option"

definition Options_new :: Options where
  "Options_new = \<lparr>create_if_missing = False, max_open_files = 1000, write_buffer_size = 4 * 2 ^ 20,
     target_file_size = 2 * 2 ^ 20, block_cache = None, block_size = 4096, compression = True,
     filter_bits = None\<rparr>"

definition opt_int :: "GentConfig \<Rightarrow> string \<Rightarrow> int" where
  "opt_int conf key = atoi (cstr (config_at conf key))"

definition target_size :: "GentConfig \<Rightarrow> nat" where
  "target_size conf =
     (if config_at conf ''leveldb_target_file_size_mb'' \<noteq> [] \<and> opt_int conf ''leveldb_target_file_size_mb'' > 2
      then nat (opt_int conf ''leveldb_target_file_size_mb'') else 128)"

text \<open>The multiplications are done in \<open>int\<close> and wrap before they are widened to \<open>size_t\<close>.\<close>

definition Init_options :: "GentConfig \<Rightarrow> Options" where
  "Init_options conf =
     (let o0 = Options_new\<lparr>create_if_missing := True\<rparr>;
          o1 = (if config_at conf ''leveldb_max_open_files'' \<noteq> []
                then o0\<lparr>max_open_files := opt_int conf ''leveldb_max_open_files''\<rparr> else o0);
          o2 = o1\<lparr>write_buffer_size :=
                 (if config_at conf ''leveldb_write_buffer_size_mb'' \<noteq> [] \<and>
                     opt_int conf ''leveldb_write_buffer_size_mb'' > 2
                  then to_u64 (to_i32 (opt_int conf ''leveldb_write_buffer_size_mb'' * 2 ^ 20))
                  else 32 * 2 ^ 20)\<rparr>;
          o3 = o2\<lparr>target_file_size := target_size conf\<rparr>;
          o4 = (if config_at conf ''leveldb_block_cache_size_mb'' \<noteq> [] \<and>
                   opt_int conf ''leveldb_block_cache_size_mb'' > 8
                then o3\<lparr>block_cache := Some (to_u64 (to_i32 (opt_int conf ''leveldb_block_cache_size_mb'' * 1048576)))\<rparr>
                else o3);
          o5 = (if config_at conf ''leveldb_block_size_kb'' \<noteq> [] \<and> opt_int conf ''leveldb_block_size_kb'' > 1
                then o4\<lparr>block_size := to_u64 (to_i32 (opt_int conf ''leveldb_block_size_kb'' * 1024))\<rparr> else o4);
          o6 = (if config_at conf ''leveldb_compression'' \<noteq> [] \<and> config_at conf ''leveldb_compression'' \<noteq> ''true''
                then o5\<lparr>compression := False\<rparr> else o5)
      in o6\<lparr>filter_bits := Some 10\<rparr>)"

definition meta_options :: "GentConfig \<Rightarrow> Options" where
  "meta_options conf = Options_new\<lparr>create_if_missing := True, target_file_size := target_size conf,
     write_buffer_size := 100 * 2 ^ 20\<rparr>"

text \<open>\<open>Inl\<close>: false with the message in \<open>err\<close>; \<open>Inr\<close>: the configuration as rewritten and the path.\<close>

definition GetPathname :: "(string \<Rightarrow> bool) \<Rightarrow> GentConfig \<Rightarrow> string + GentConfig \<times> string" where
  "GetPathname access conf =
     (let path = config_at conf ''leveldb_db_path''; name = config_at conf ''leveldb_db_name''
      in if path = [] \<or> name = [] then Inl ''db path and db name not config''
         else if \<not> access path then Inl (path @ ''  not access'')
         else
           (let conf1 = (if drop (length path - 1) path \<noteq> ''/'' then sm_put ''leveldb_db_path'' (path @ ''/'') conf
                         else conf)
            in Inr (conf1, config_at conf1 ''leveldb_db_path'' @ name)))"

text \<open>
  \<open>open_db\<close> is \<open>DB::Open\<close>: from the options and a path to the recovered database, or to the
  message of the failed status. \<open>files\<close> gives the counter file under a path.
\<close>

definition GentDb_Init ::
  "(string \<Rightarrow> bool) \<Rightarrow> (Options \<Rightarrow> string \<Rightarrow> string + DBImpl) \<Rightarrow> (string \<Rightarrow> string option) \<Rightarrow>
   GentConfig \<Rightarrow> string + (bool \<times> GentConfig \<times> GentDb)" where
  "GentDb_Init access open_db files conf =
     (case GetPathname access conf of
        Inl err \<Rightarrow> Inl err
      | Inr (conf1, pathname) \<Rightarrow>
          (case open_db (Init_options conf1) pathname of
             Inl err \<Rightarrow> Inl err
           | Inr d \<Rightarrow>
               (case open_db (meta_options conf1) (pathname @ ''/meta'') of
                  Inl _ \<Rightarrow> Inr (False, conf1, LoadNum (GentDb_new d DB_empty (files (pathname @ ''/NUMBER''))))
                | Inr m \<Rightarrow> Inr (True, conf1, LoadNum (GentDb_new d m (files (pathname @ ''/NUMBER'')))))))"

end
