(* ===== verification/RepFile.thy ===== *)
theory RepFile
  imports CString StdMap
begin

text \<open>
  The table of known slaves (\<open>repinfo\<close> of \<open>src/gent_repl.h\<close>, \<open>GentFile\<close> of \<open>src/gent_file.h\<close>): a
  memory-mapped file of fixed slots of 71 bytes, one digit for \<open>available\<close>, ten for
  \<open>ser_time\<close>, ten for \<open>rep_time\<close> and 50 for the name, each mirrored by an object in memory.
  Bytes the code copies from uninitialised or out-of-bounds memory are parameters
  named \<open>junk\<close>.
\<close>

section \<open>State\<close>

definition SLAVE_NAME_SIZE :: nat where
  "SLAVE_NAME_SIZE = 50"

definition SLAVE_NUM :: nat where
  "SLAVE_NUM = 1024"

record repinfo =
  available :: nat
  rname :: string
  rep_time :: nat
  ser_time :: nat

definition repinfo_size :: nat where
  "repinfo_size = SLAVE_NAME_SIZE + 21"

record GentFile =
  head_list :: "repinfo list"
  fbytes :: string
  rep_map_list :: "(string, nat) smap"

definition slot_head :: "nat \<Rightarrow> nat" where
  "slot_head i = repinfo_size * i"

text \<open>\<open>memcpy (head + off, bs, |bs|)\<close> into the mapping.\<close>

definition put_bytes :: "nat \<Rightarrow> string \<Rightarrow> string \<Rightarrow> string" where
  "put_bytes off bs file = take off file @ bs @ drop (off + length bs) file"

section \<open>One slot\<close>

text \<open>\<open>tt\<close> has 11 bytes of which 10 are copied: \<open>junk\<close> is what follows them on the stack.\<close>

definition repinfo_init :: "string \<Rightarrow> string \<Rightarrow> repinfo" where
  "repinfo_init junk str =
     \<lparr>available = to_u32 (atoi (cstr (take 1 str))),
      rname = take SLAVE_NAME_SIZE (drop 21 str),
      rep_time = to_u32 (atoi (cstr (take 10 (drop 11 str) @ junk))),
      ser_time = to_u32 (atoi (cstr (take 10 (drop 1 str) @ junk)))\<rparr>"

definition time_field :: "nat \<Rightarrow> string" where
  "time_field t = (if t = 0 then ''0000000000'' else snprintf_buf 12 (dec t))"

definition repinfo_tostring :: "repinfo \<Rightarrow> string" where
  "repinfo_tostring r =
     snprintf_buf 100 (dec (available r) @ time_field (ser_time r) @ time_field (rep_time r) @ cstr (rname r))"

text \<open>
  \<open>set (name)\<close>: the padding loop appends the empty C string and adds nothing, so
  \<open>memcpy\<close> reads past the terminator (\<open>junk\<close>).
\<close>

definition repinfo_set_name :: "string \<Rightarrow> nat \<Rightarrow> string \<Rightarrow> GentFile \<Rightarrow> GentFile" where
  "repinfo_set_name junk i n f =
     (let r = \<lparr>available = 1, rname = take SLAVE_NAME_SIZE (n @ NUL # junk), rep_time = 0, ser_time = 0\<rparr>
      in f\<lparr>head_list := (head_list f)[i := r],
           fbytes := put_bytes (slot_head i) (repinfo_tostring r) (fbytes f)\<rparr>)"

datatype rep_field = Ser_time | Rep_time | Available

fun field_offset :: "rep_field \<Rightarrow> nat \<times> nat" where
  "field_offset Ser_time = (1, 10)"
| "field_offset Rep_time = (11, 10)"
| "field_offset Available = (0, 1)"

text \<open>The bytes \<open>snprintf (buf, ln, "%llu", val)\<close> leaves in the first \<open>ln\<close> bytes of a zeroed buffer.\<close>

definition field_bytes :: "nat \<Rightarrow> nat \<Rightarrow> string" where
  "field_bytes ln val = (let b = snprintf_buf ln (dec val) in b @ replicate (ln - length b) NUL)"

definition repinfo_set :: "rep_field \<Rightarrow> nat \<Rightarrow> nat \<Rightarrow> GentFile \<Rightarrow> GentFile" where
  "repinfo_set fld val i f =
     (let (offset, ln) = field_offset fld;
          r = head_list f ! i;
          v = val mod 2 ^ 32;
          r' = (case fld of Ser_time \<Rightarrow> r\<lparr>ser_time := v\<rparr> | Rep_time \<Rightarrow> r\<lparr>rep_time := v\<rparr>
                | Available \<Rightarrow> r\<lparr>available := v\<rparr>)
      in f\<lparr>head_list := (head_list f)[i := r'],
           fbytes := put_bytes (slot_head i + offset) (field_bytes ln val) (fbytes f)\<rparr>)"

section \<open>The file\<close>

definition file_pages :: "nat \<Rightarrow> nat \<Rightarrow> nat" where
  "file_pages page_size len = repinfo_size * len div page_size + 1"

definition slot_bytes :: "string \<Rightarrow> nat \<Rightarrow> string" where
  "slot_bytes file i = take repinfo_size (drop (slot_head i) file)"

fun load_slots :: "string \<Rightarrow> string \<Rightarrow> nat list \<Rightarrow> (string, nat) smap \<Rightarrow> repinfo list \<times> (string, nat) smap" where
  "load_slots junk file [] m = ([], m)"
| "load_slots junk file (i # is) m =
     (let c = repinfo_init junk (slot_bytes file i);
          (cs, m') = load_slots junk file is (if available c \<noteq> 0 then sm_put (cstr (rname c)) i m else m)
      in (c # cs, m'))"

text \<open>
  \<open>Init\<close> with the file mapped: an empty file is first extended with zero bytes. The second
  component is the map \<open>lead_rep\<close> that \<open>Init\<close> fills for its caller.
\<close>

definition GentFile_Init :: "string \<Rightarrow> nat \<Rightarrow> nat \<Rightarrow> string \<Rightarrow> GentFile \<times> (string, nat) smap" where
  "GentFile_Init junk page_size len file =
     (let bytes = (if file = [] then replicate (file_pages page_size len * page_size) NUL else file);
          (slots, m) = load_slots junk bytes [0..<len] []
      in (\<lparr>head_list = slots, fbytes = bytes, rep_map_list = m\<rparr>, m))"

fun first_free :: "repinfo list \<Rightarrow> nat \<Rightarrow> nat option" where
  "first_free [] i = None"
| "first_free (c # cs) i = (if available c \<noteq> 0 then first_free cs (i + 1) else Some i)"

definition AddItem :: "string \<Rightarrow> string \<Rightarrow> GentFile \<Rightarrow> nat option \<times> GentFile" where
  "AddItem junk str f =
     (case sm_get (rep_map_list f) str of
        Some i \<Rightarrow> (Some i, f)
      | None \<Rightarrow>
          (case first_free (head_list f) 0 of
             None \<Rightarrow> (None, f)
           | Some i \<Rightarrow>
               (let f' = repinfo_set_name junk i str f
                in (Some i, f'\<lparr>rep_map_list := sm_put str i (rep_map_list f')\<rparr>))))"

fun find_name :: "repinfo list \<Rightarrow> string \<Rightarrow> nat \<Rightarrow> nat option" where
  "find_name [] nm i = None"
| "find_name (c # cs) nm i = (if cstr (rname c) \<noteq> nm then find_name cs nm (i + 1) else Some i)"

definition DelItem :: "string \<Rightarrow> GentFile \<Rightarrow> bool \<times> GentFile" where
  "DelItem nm f =
     (case find_name (head_list f) nm 0 of
        None \<Rightarrow> (False, f)
      | Some i \<Rightarrow> (let f' = repinfo_set Available 0 i f
                    in (True, f'\<lparr>rep_map_list := sm_del nm (rep_map_list f')\<rparr>)))"

section \<open>Writes stay inside their slot\<close>

lemma length_put_bytes [simp]: "off + length bs \<le> length file \<Longrightarrow> length (put_bytes off bs file) = length file"
  by (simp add: put_bytes_def)

lemma put_bytes_before: "a + n \<le> off \<Longrightarrow> off \<le> length file \<Longrightarrow> take n (drop a (put_bytes off bs file)) = take n (drop a file)"
  by (simp add: put_bytes_def drop_take)

lemma put_bytes_after:
  "off + length bs \<le> a \<Longrightarrow> off + length bs \<le> length file \<Longrightarrow> drop a (put_bytes off bs file) = drop a file"
  by (simp add: put_bytes_def)

lemma put_bytes_same:
  "off + length bs \<le> length file \<Longrightarrow> take (length bs) (drop off (put_bytes off bs file)) = bs"
  by (simp add: put_bytes_def)

definition slot_in_file :: "nat \<Rightarrow> GentFile \<Rightarrow> bool" where
  "slot_in_file i f \<longleftrightarrow> slot_head (i + 1) \<le> length (fbytes f) \<and> i < length (head_list f)"

lemma slot_head_Suc: "slot_head (Suc i) = slot_head i + 71"
  by (simp add: slot_head_def repinfo_size_def SLAVE_NAME_SIZE_def)

lemma slot_head_mono: "i < j \<Longrightarrow> slot_head i + 71 \<le> slot_head j"
proof -
  assume "i < j"
  then have "repinfo_size * (i + 1) \<le> repinfo_size * j" by (intro mult_le_mono) auto
  then show ?thesis by (simp add: slot_head_def repinfo_size_def SLAVE_NAME_SIZE_def)
qed

lemma slot_bytes_other:
  assumes "o' + length bs \<le> 71" "slot_head i + 71 \<le> length file" "i \<noteq> j"
  shows "slot_bytes (put_bytes (slot_head i + o') bs file) j = slot_bytes file j"
proof (cases "i < j")
  case True
  then show ?thesis using assms slot_head_mono [OF True]
    by (simp add: slot_bytes_def put_bytes_after)
next
  case False
  then have "j < i" using assms(3) by simp
  then show ?thesis using assms slot_head_mono [of j i]
    by (simp add: slot_bytes_def put_bytes_before repinfo_size_def SLAVE_NAME_SIZE_def)
qed

lemma slot_bytes_same:
  assumes "o' + length bs \<le> 71" "slot_head i + 71 \<le> length file"
  shows "slot_bytes (put_bytes (slot_head i + o') bs file) i = put_bytes o' bs (slot_bytes file i)"
proof -
  let ?a = "take (slot_head i) file" and ?s = "take 71 (drop (slot_head i) file)"
    and ?c = "drop (slot_head i + 71) file"
  have split: "file = ?a @ ?s @ ?c"
    by (metis add.commute append_assoc append_take_drop_id drop_drop)
  have len: "length ?a = slot_head i" "length ?s = 71" using assms(2) by simp_all
  have "put_bytes (slot_head i + o') bs (?a @ ?s @ ?c) = ?a @ put_bytes o' bs ?s @ ?c"
    using len assms(1) by (simp add: put_bytes_def)
  then have "put_bytes (slot_head i + o') bs file = ?a @ put_bytes o' bs ?s @ ?c"
    using split by metis
  moreover have "length (put_bytes o' bs ?s) = 71" using len(2) assms(1) by simp
  ultimately have "take 71 (drop (slot_head i) (put_bytes (slot_head i + o') bs file)) = put_bytes o' bs ?s"
    using len(1) by simp
  then show ?thesis by (simp add: slot_bytes_def repinfo_size_def SLAVE_NAME_SIZE_def)
qed

lemma length_slot_bytes: "slot_head i + 71 \<le> length file \<Longrightarrow> length (slot_bytes file i) = 71"
  by (simp add: slot_bytes_def repinfo_size_def SLAVE_NAME_SIZE_def)

lemma length_field_bytes [simp]: "length (field_bytes ln v) = ln"
  by (simp add: field_bytes_def snprintf_buf_def Let_def)

lemma field_in_slot: "fst (field_offset fld) + snd (field_offset fld) \<le> 71"
  by (cases fld) simp_all

lemma length_tostring_name:
  "length (repinfo_tostring \<lparr>available = 1, rname = nm, rep_time = 0, ser_time = 0\<rparr>) \<le> 21 + length (cstr nm)"
  by (simp add: repinfo_tostring_def time_field_def snprintf_buf_def dec.simps)

lemma length_cstr: "length (cstr s) \<le> length s"
  by (simp add: cstr_def length_takeWhile_le)

lemma dec_drop_last: "10 \<le> n \<Longrightarrow> take (length (dec n) - 1) (dec n) = dec (n div 10)"
  by (simp add: dec.simps [of n])


definition file0 :: GentFile where
  "file0 = fst (GentFile_Init [NUL] 4096 2 [])"

lemma file0_bytes: "fbytes file0 = replicate 4096 NUL" "length (head_list file0) = 2"
  by (simp_all add: file0_def GentFile_Init_def Let_def file_pages_def repinfo_size_def SLAVE_NAME_SIZE_def
      split_beta upt_rec)


text \<open>
  C37: a ten-digit time stored with \<open>set\<close> loses its last digit: \<open>snprintf\<close> is given the field width
  10 as the buffer size and writes nine digits and a NUL, so after a restart the slot
  holds the time divided by ten, whatever follows on the stack. Two times within the same
  ten seconds then compare equal.
\<close>

theorem reloaded_time_truncated:
  assumes "slot_in_file i f" "10 ^ 9 \<le> v" "v < 10 ^ 10"
  shows "ser_time (repinfo_init junk (slot_bytes (fbytes (repinfo_set Ser_time v i f)) i)) = v div 10 \<and>
    rep_time (repinfo_init junk (slot_bytes (fbytes (repinfo_set Rep_time v i f)) i)) = v div 10"
proof -
  have sl: "slot_head i + 71 \<le> length (fbytes f)" using assms(1) by (simp add: slot_in_file_def slot_head_Suc)
  let ?b = "field_bytes 10 v" and ?s = "slot_bytes (fbytes f) i"
  have len: "length (dec v) = 10" using length_dec_exact [of 9 v] assms(2,3) by simp
  then have b: "?b = dec (v div 10) @ [NUL]"
    using dec_drop_last [of v] assms(2) length_dec_exact [of 8 "v div 10"] assms(3)
    by (simp add: field_bytes_def snprintf_buf_def Let_def)
  have small: "v div 10 < 2 ^ 31" using assms(3) by simp
  have "cstr (?b @ junk) = dec (v div 10)" unfolding b by (simp add: cstr_append) (simp add: cstr_def)
  then have at: "to_u32 (atoi (cstr (?b @ junk))) = v div 10"
    using atoi_dec [OF small] small by (simp add: to_u32_def nat_mod_as_int)
  have "take 10 (drop 1 (put_bytes 1 ?b ?s)) = ?b" "take 10 (drop 11 (put_bytes 11 ?b ?s)) = ?b"
    using put_bytes_same [of 1 ?b ?s] put_bytes_same [of 11 ?b ?s] length_slot_bytes [OF sl] by simp_all
  moreover have "slot_bytes (fbytes (repinfo_set Ser_time v i f)) i = put_bytes 1 ?b ?s"
    "slot_bytes (fbytes (repinfo_set Rep_time v i f)) i = put_bytes 11 ?b ?s"
    using slot_bytes_same [of 1 ?b i "fbytes f"] slot_bytes_same [of 11 ?b i "fbytes f"] sl
    by (simp_all add: repinfo_set_def Let_def)
  ultimately show ?thesis using at by (simp add: repinfo_init_def)
qed

theorem reloaded_time_truncated_witness:
  "slot_in_file 0 file0 \<and>
   ser_time (repinfo_init [NUL] (slot_bytes (fbytes (repinfo_set Ser_time 1400000009 0 file0)) 0)) = 140000000"
  using reloaded_time_truncated [of 0 file0 1400000009 "[NUL]"] file0_bytes
  by (simp add: slot_in_file_def slot_head_def repinfo_size_def SLAVE_NAME_SIZE_def)

end
