(* ===== verification/ListQueue.thy ===== *)
theory ListQueue
  imports Prelude
begin

text \<open>
  \<open>GentListQueue\<close> (\<open>src/gent_queue_list.h\<close>) at the level of its nodes: a singly linked list
  with a sentinel, \<open>front\<close> pointing at the sentinel and \<open>rear\<close> at the last node. Nodes live in
  a heap, addresses are naturals, a dereference of an address that is not allocated is a
  fault. The locale \<open>fifo\<close> is the contract of a queue, interpreted here on the list and in
  \<open>MsgQueue\<close> on the ring buffer.
\<close>

section \<open>The contract of a queue\<close>

locale fifo =
  fixes rep :: "'q \<Rightarrow> 'a list \<Rightarrow> bool"
    and push :: "'a \<Rightarrow> 'q \<Rightarrow> 'q res"
    and pop :: "'q \<Rightarrow> ('a option \<times> 'q) res"
    and room :: "'a list \<Rightarrow> bool"
  assumes push_rep: "rep q xs \<Longrightarrow> room xs \<Longrightarrow> \<exists>q'. push x q = Inr q' \<and> rep q' (xs @ [x])"
    and pop_empty: "rep q [] \<Longrightarrow> pop q = Inr (None, q)"
    and pop_rep: "rep q (x # xs) \<Longrightarrow> \<exists>q'. pop q = Inr (Some x, q') \<and> rep q' xs"
    and room_shorter: "room (xs @ ys) \<Longrightarrow> room xs"
begin

fun push_list :: "'a list \<Rightarrow> 'q \<Rightarrow> 'q res" where
  "push_list [] q = Inr q"
| "push_list (x # xs) q = rbind (push x q) (push_list xs)"

fun pop_list :: "nat \<Rightarrow> 'q \<Rightarrow> ('a option list \<times> 'q) res" where
  "pop_list 0 q = Inr ([], q)"
| "pop_list (Suc n) q = rbind (pop q) (\<lambda>(r, q1). rbind (pop_list n q1) (\<lambda>(rs, q2). Inr (r # rs, q2)))"

lemma push_list_rep:
  "rep q xs \<Longrightarrow> room (xs @ ys) \<Longrightarrow> \<exists>q'. push_list ys q = Inr q' \<and> rep q' (xs @ ys)"
proof (induction ys arbitrary: q xs)
  case (Cons y ys)
  have "room xs" using Cons.prems(2) by (rule room_shorter)
  then obtain q1 where q1: "push y q = Inr q1" "rep q1 (xs @ [y])"
    using push_rep [OF Cons.prems(1)] by blast
  then show ?case using Cons.IH [OF q1(2)] Cons.prems(2) by simp
qed simp

lemma pop_list_rep:
  "rep q (xs @ ys) \<Longrightarrow> \<exists>q'. pop_list (length xs) q = Inr (map Some xs, q') \<and> rep q' ys"
proof (induction xs arbitrary: q)
  case (Cons x xs)
  then obtain q1 where q1: "pop q = Inr (Some x, q1)" "rep q1 (xs @ ys)"
    using pop_rep [of q x "xs @ ys"] by auto
  then show ?case using Cons.IH [OF q1(2)] by auto
qed simp

lemma first_in_first_out:
  assumes "rep q []" "room xs"
  shows "\<exists>q1 q2. push_list xs q = Inr q1 \<and> pop_list (length xs) q1 = Inr (map Some xs, q2) \<and> rep q2 []"
  using push_list_rep [of q "[]" xs] pop_list_rep [of _ xs "[]"] assms by fastforce

end

section \<open>Nodes and operations\<close>

record 'a NODE =
  nnext :: "nat option"
  ndata :: 'a

record 'a GentListQueue =
  cells :: "nat \<Rightarrow> 'a NODE option"
  brk :: nat
  lfront :: nat
  lrear :: nat
  llength :: nat

definition deref :: "(nat \<Rightarrow> 'a NODE option) \<Rightarrow> nat option \<Rightarrow> 'a NODE res" where
  "deref c p = (case p of None \<Rightarrow> Inl Null_pointer
     | Some a \<Rightarrow> (case c a of None \<Rightarrow> Inl Null_pointer | Some n \<Rightarrow> Inr n))"

text \<open>The constructor: \<open>junk\<close> stands for the null data of the sentinel.\<close>

definition GentListQueue_new :: "'a \<Rightarrow> 'a GentListQueue" where
  "GentListQueue_new junk =
     \<lparr>cells = Map.empty(0 \<mapsto> \<lparr>nnext = None, ndata = junk\<rparr>), brk = 1, lfront = 0, lrear = 0, llength = 0\<rparr>"

definition lq_push :: "'a \<Rightarrow> 'a GentListQueue \<Rightarrow> 'a GentListQueue res" where
  "lq_push e q =
     (let p = brk q;
          c1 = (cells q)(p \<mapsto> \<lparr>nnext = None, ndata = e\<rparr>)
      in rbind (deref c1 (Some (lrear q))) (\<lambda>r.
           Inr (q\<lparr>cells := c1(lrear q \<mapsto> r\<lparr>nnext := Some p\<rparr>), brk := p + 1, lrear := p,
                  llength := add64 (llength q) 1\<rparr>)))"

definition lq_pop :: "'a GentListQueue \<Rightarrow> ('a option \<times> 'a GentListQueue) res" where
  "lq_pop q =
     (if lfront q = lrear q then Inr (None, q)
      else
        rbind (deref (cells q) (Some (lfront q))) (\<lambda>f.
        rbind (deref (cells q) (nnext f)) (\<lambda>n.
          let p = the (nnext f)
          in Inr (Some (ndata n),
                  q\<lparr>cells := ((cells q)(lfront q \<mapsto> f\<lparr>nnext := nnext n\<rparr>))(p := None),
                    lrear := (if lrear q = p then lfront q else lrear q),
                    llength := sub64 (llength q) 1\<rparr>))))"

definition lq_front_element :: "'a GentListQueue \<Rightarrow> 'a option res" where
  "lq_front_element q =
     (if lfront q = lrear q then Inr None
      else
        rbind (deref (cells q) (Some (lfront q))) (\<lambda>f.
        rbind (deref (cells q) (nnext f)) (\<lambda>n. Inr (Some (ndata n)))))"

fun lq_nums_loop :: "(nat \<Rightarrow> 'a NODE option) \<Rightarrow> nat option \<Rightarrow> nat \<Rightarrow> 'a list res" where
  "lq_nums_loop c p 0 = Inr []"
| "lq_nums_loop c p (Suc num) =
     rbind (deref c p) (\<lambda>n.
       if nnext n = None then Inr [ndata n]
       else rbind (lq_nums_loop c (nnext n) num) (\<lambda>dat. Inr (ndata n # dat)))"

text \<open>The result \<open>None\<close> is \<open>false\<close>; a negative \<open>num\<close> reads nothing, as 0 does.\<close>

definition lq_front_nums_element :: "int \<Rightarrow> 'a GentListQueue \<Rightarrow> 'a list option res" where
  "lq_front_nums_element num q =
     (if lfront q = lrear q then Inr None
      else
        rbind (deref (cells q) (Some (lfront q))) (\<lambda>f.
        rbind (lq_nums_loop (cells q) (nnext f) (nat num)) (\<lambda>dat. Inr (Some dat))))"

definition lq_back_element :: "'a GentListQueue \<Rightarrow> 'a option res" where
  "lq_back_element q =
     (if lfront q = lrear q then Inr None
      else rbind (deref (cells q) (Some (lrear q))) (\<lambda>r. Inr (Some (ndata r))))"

text \<open>The loop of \<open>size\<close> follows \<open>next\<close> until it meets \<open>rear\<close>; \<open>None\<close> when the fuel is used up.\<close>

fun lq_size_loop :: "nat \<Rightarrow> 'a GentListQueue \<Rightarrow> nat option \<Rightarrow> nat \<Rightarrow> nat res option" where
  "lq_size_loop 0 q p count = None"
| "lq_size_loop (Suc fuel) q p count =
     (if p = Some (lrear q) then Some (Inr count)
      else (case deref (cells q) p of
              Inl e \<Rightarrow> Some (Inl e)
            | Inr n \<Rightarrow> lq_size_loop fuel q (nnext n) (count + 1)))"

definition lq_empty :: "'a GentListQueue \<Rightarrow> bool" where
  "lq_empty q \<longleftrightarrow> lfront q = lrear q"

section \<open>The list a queue represents\<close>

fun chain :: "(nat \<Rightarrow> 'a NODE option) \<Rightarrow> nat option \<Rightarrow> (nat \<times> 'a) list \<Rightarrow> bool" where
  "chain c p [] \<longleftrightarrow> p = None"
| "chain c p ((a, x) # ns) \<longleftrightarrow> p = Some a \<and> (\<exists>nx. c a = Some \<lparr>nnext = nx, ndata = x\<rparr> \<and> chain c nx ns)"

definition lq_nodes :: "'a GentListQueue \<Rightarrow> (nat \<times> 'a) list \<Rightarrow> bool" where
  "lq_nodes q ns \<longleftrightarrow>
     (\<exists>f. cells q (lfront q) = Some f \<and> chain (cells q) (nnext f) ns) \<and>
     distinct (lfront q # map fst ns) \<and> lrear q = last (lfront q # map fst ns) \<and>
     (\<forall>a. cells q a \<noteq> None \<longrightarrow> a < brk q) \<and> llength q = length ns mod 2 ^ 64"

definition lq_rep :: "'a GentListQueue \<Rightarrow> 'a list \<Rightarrow> bool" where
  "lq_rep q xs \<longleftrightarrow> (\<exists>ns. lq_nodes q ns \<and> xs = map snd ns)"

lemma chain_allocated: "chain c p ns \<Longrightarrow> (a, x) \<in> set ns \<Longrightarrow> c a \<noteq> None"
  by (induction c p ns rule: chain.induct) auto

lemma chain_update: "chain c p ns \<Longrightarrow> a \<notin> fst ` set ns \<Longrightarrow> chain (c(a := v)) p ns"
  by (induction c p ns rule: chain.induct) auto

lemma chain_snoc:
  assumes "chain c p (ns @ [(a, x)])" "distinct (map fst (ns @ [(a, x)]))" "b \<notin> fst ` set (ns @ [(a, x)])"
  shows "chain (c(b \<mapsto> \<lparr>nnext = None, ndata = y\<rparr>, a \<mapsto> \<lparr>nnext = Some b, ndata = x\<rparr>)) p
    (ns @ [(a, x), (b, y)])"
  using assms
proof (induction ns arbitrary: p)
  case (Cons m ns)
  obtain d z where m: "m = (d, z)" by fastforce
  with Cons show ?case by (auto simp: image_iff)
qed auto

lemma chain_last:
  "chain c p (ns @ [(a, x)]) \<Longrightarrow> c a = Some \<lparr>nnext = None, ndata = x\<rparr>"
  by (induction ns arbitrary: p) auto

lemma add64_length: "add64 (n mod 2 ^ 64) 1 = Suc n mod 2 ^ 64"
  by (simp add: add64_def mod_simps)

lemma sub64_length: "sub64 (Suc n mod 2 ^ 64) 1 = n mod 2 ^ 64"
proof -
  have "(int (Suc n mod 2 ^ 64) - int 1) mod 2 ^ 64 = int n mod 2 ^ 64"
    by (simp add: zmod_int mod_simps)
  then have "sub64 (Suc n mod 2 ^ 64) 1 = nat (int n mod 2 ^ 64)"
    by (simp only: sub64_def to_u64_def)
  also have "\<dots> = n mod 2 ^ 64" by (metis nat_int of_nat_mod of_nat_numeral of_nat_power)
  finally show ?thesis .
qed

lemma lq_rep_new: "lq_rep (GentListQueue_new junk) []"
  unfolding lq_rep_def lq_nodes_def GentListQueue_new_def by (rule exI [of _ "[]"]) simp

lemma lq_push_nodes:
  assumes "lq_nodes q ns"
  shows "\<exists>q'. lq_push x q = Inr q' \<and> lq_nodes q' (ns @ [(brk q, x)])"
proof -
  obtain f where f: "cells q (lfront q) = Some f" "chain (cells q) (nnext f) ns"
    using assms by (auto simp: lq_nodes_def)
  have d: "distinct (lfront q # map fst ns)" and r: "lrear q = last (lfront q # map fst ns)"
    and len: "llength q = length ns mod 2 ^ 64" and al: "\<And>a. cells q a \<noteq> None \<Longrightarrow> a < brk q"
    using assms by (auto simp: lq_nodes_def)
  have lf: "lfront q < brk q" using al f(1) by auto
  have nb: "brk q \<notin> fst ` set ns"
    using chain_allocated [OF f(2)] al by (metis imageE less_irrefl prod.collapse)
  show ?thesis
  proof (cases ns rule: rev_cases)
    case Nil
    have ne: "lfront q \<noteq> brk q" "brk q \<noteq> lfront q" "lrear q = lfront q" using lf r Nil by simp_all
    have "lq_push x q = Inr (q\<lparr>cells := (cells q)(brk q \<mapsto> \<lparr>nnext = None, ndata = x\<rparr>,
        lfront q \<mapsto> f\<lparr>nnext := Some (brk q)\<rparr>), brk := brk q + 1, lrear := brk q,
        llength := add64 (llength q) 1\<rparr>)"
      using ne f(1) by (simp add: lq_push_def Let_def deref_def)
    moreover have "\<forall>a. a = lfront q \<or> a = brk q \<or> cells q a \<noteq> None \<longrightarrow> a < brk q + 1"
      using lf by (auto intro!: less_SucI al)
    ultimately show ?thesis using Nil ne len by (simp add: lq_nodes_def add64_def)
  next
    case (snoc ms m)
    obtain a y where m: "m = (a, y)" by fastforce
    have ra: "lrear q = a" and fa: "lfront q \<noteq> a" using r d snoc m by auto
    have ca: "cells q a = Some \<lparr>nnext = None, ndata = y\<rparr>"
      using chain_last f(2) snoc m by metis
    have "chain ((cells q)(brk q \<mapsto> \<lparr>nnext = None, ndata = x\<rparr>, a \<mapsto> \<lparr>nnext = Some (brk q), ndata = y\<rparr>))
        (nnext f) (ms @ [(a, y), (brk q, x)])"
      using chain_snoc [of "cells q" "nnext f" ms a y "brk q" x] f(2) d nb snoc m by simp
    moreover have ab: "a < brk q" using al ca by auto
    moreover have "lq_push x q = Inr (q\<lparr>cells := (cells q)(brk q \<mapsto> \<lparr>nnext = None, ndata = x\<rparr>,
        a \<mapsto> \<lparr>nnext = Some (brk q), ndata = y\<rparr>), brk := brk q + 1, lrear := brk q,
        llength := add64 (llength q) 1\<rparr>)"
      using ra ca ab by (simp add: lq_push_def Let_def deref_def)
    moreover have "\<forall>b. b = a \<or> b = brk q \<or> cells q b \<noteq> None \<longrightarrow> b < brk q + 1"
      using ab by (auto intro!: less_SucI al)
    ultimately show ?thesis using f(1) d len lf fa nb snoc m add64_length [of "length ns"]
      by (simp add: lq_nodes_def)
  qed
qed

lemma lq_pop_nodes:
  assumes "lq_nodes q ((a, x) # ns)"
  shows "\<exists>q'. lq_pop q = Inr (Some x, q') \<and> lq_nodes q' ns"
proof -
  obtain f nx where f: "cells q (lfront q) = Some f" "nnext f = Some a"
    and c: "cells q a = Some \<lparr>nnext = nx, ndata = x\<rparr>" "chain (cells q) nx ns"
    using assms by (auto simp: lq_nodes_def)
  have d: "lfront q \<noteq> a" "lfront q \<notin> fst ` set ns" "a \<notin> fst ` set ns" "distinct (map fst ns)"
    and r: "lrear q = (if ns = [] then a else last (map fst ns))"
    and len: "llength q = Suc (length ns) mod 2 ^ 64" and al: "\<And>b. cells q b \<noteq> None \<Longrightarrow> b < brk q"
    using assms by (auto simp: lq_nodes_def)
  have ch: "chain (((cells q)(lfront q \<mapsto> f\<lparr>nnext := nx\<rparr>))(a := None)) nx ns"
    using c(2) d by (intro chain_update) auto
  have ra: "lrear q = a \<longleftrightarrow> ns = []" using r d(3) last_in_set [of "map fst ns"] by auto
  have rf: "lrear q \<noteq> lfront q" using r d(1,2) last_in_set [of "map fst ns"] by auto
  have "lq_pop q = Inr (Some x, q\<lparr>cells := ((cells q)(lfront q \<mapsto> f\<lparr>nnext := nx\<rparr>))(a := None),
      lrear := (if ns = [] then lfront q else lrear q), llength := sub64 (llength q) 1\<rparr>)"
    using f c(1) rf ra by (simp add: lq_pop_def deref_def Let_def)
  then show ?thesis using ch d r al len sub64_length [of "length ns"] f(1)
    by (simp add: lq_nodes_def)
qed

lemma lq_empty_nodes: "lq_nodes q ns \<Longrightarrow> lfront q = lrear q \<longleftrightarrow> ns = []"
  using last_in_set [of "map fst ns"] by (auto simp: lq_nodes_def)

lemma lq_rep_empty: "lq_rep q xs \<Longrightarrow> lq_empty q \<longleftrightarrow> xs = []"
  by (auto simp: lq_rep_def lq_empty_def lq_empty_nodes)

interpretation lq: fifo lq_rep lq_push lq_pop "\<lambda>_. True"
proof unfold_locales
  fix q :: "'a GentListQueue" and x xs
  show "\<exists>q'. lq_push x q = Inr q' \<and> lq_rep q' (xs @ [x])" if "lq_rep q xs"
    using that lq_push_nodes [of q _ x] by (fastforce simp: lq_rep_def)
  show "lq_pop q = Inr (None, q)" if "lq_rep q []"
    using lq_rep_empty [OF that] by (simp add: lq_pop_def lq_empty_def)
  show "\<exists>q'. lq_pop q = Inr (Some x, q') \<and> lq_rep q' xs" if "lq_rep q (x # xs)"
    using that lq_pop_nodes [of q] by (fastforce simp: lq_rep_def)
qed simp

section \<open>Reading\<close>

lemma lq_front_element_rep:
  "lq_rep q xs \<Longrightarrow> lq_front_element q = Inr (case xs of [] \<Rightarrow> None | x # _ \<Rightarrow> Some x)"
proof -
  assume "lq_rep q xs"
  then obtain ns where ns: "lq_nodes q ns" "xs = map snd ns" by (auto simp: lq_rep_def)
  then show ?thesis using lq_empty_nodes [OF ns(1)]
    by (cases ns) (auto simp: lq_front_element_def lq_nodes_def deref_def)
qed

lemma lq_nums_loop_chain:
  "chain c p ns \<Longrightarrow> ns \<noteq> [] \<Longrightarrow> lq_nums_loop c p num = Inr (map snd (take num ns))"
proof (induction num arbitrary: p ns)
  case (Suc num)
  obtain a x ms where ns: "ns = (a, x) # ms" using Suc.prems(2) by (cases ns) auto
  then show ?case using Suc.IH [of _ ms] Suc.prems(1)
    by (cases ms) (auto simp: deref_def)
qed simp

lemma lq_front_nums_rep:
  "lq_rep q xs \<Longrightarrow> lq_front_nums_element num q = Inr (if xs = [] then None else Some (take (nat num) xs))"
proof -
  assume "lq_rep q xs"
  then obtain ns where ns: "lq_nodes q ns" "xs = map snd ns" by (auto simp: lq_rep_def)
  then show ?thesis using lq_empty_nodes [OF ns(1)] lq_nums_loop_chain [of "cells q" _ ns "nat num"]
    by (auto simp: lq_front_nums_element_def lq_nodes_def deref_def take_map)
qed

lemma lq_back_element_rep:
  "lq_rep q xs \<Longrightarrow> lq_back_element q = Inr (if xs = [] then None else Some (last xs))"
proof -
  assume "lq_rep q xs"
  then obtain ns where ns: "lq_nodes q ns" "xs = map snd ns" by (auto simp: lq_rep_def)
  show ?thesis
  proof (cases ns rule: rev_cases)
    case Nil
    then show ?thesis using ns lq_empty_nodes [OF ns(1)] by (simp add: lq_back_element_def)
  next
    case (snoc ms m)
    obtain a y where m: "m = (a, y)" by fastforce
    then have "cells q a = Some \<lparr>nnext = None, ndata = y\<rparr>"
      using ns(1) snoc chain_last by (auto simp: lq_nodes_def)
    then show ?thesis using ns snoc m lq_empty_nodes [OF ns(1)]
      by (simp add: lq_back_element_def deref_def lq_nodes_def)
  qed
qed

lemma lq_size_chain:
  assumes "chain (cells q) p ns" "ns \<noteq> []" "lrear q = last (map fst ns)" "distinct (map fst ns)"
    and "length ns \<le> fuel"
  shows "lq_size_loop fuel q p count = Some (Inr (count + length ns - 1))"
  using assms
proof (induction ns arbitrary: p count fuel)
  case (Cons m ns)
  obtain a x where m: "m = (a, x)" by fastforce
  obtain k where k: "fuel = Suc k" using Cons.prems(5) by (cases fuel) auto
  show ?case
  proof (cases "ns = []")
    case True
    then show ?thesis using Cons.prems m k by simp
  next
    case False
    then have "lrear q \<in> fst ` set ns" using Cons.prems(3) last_in_set [of "map fst ns"] by auto
    then have "lrear q \<noteq> a" using Cons.prems(4) m by auto
    then show ?thesis using Cons m k False by (auto simp: deref_def)
  qed
qed simp

lemma lq_size_rep:
  assumes "lq_rep q xs" "length xs < fuel"
  shows "lq_size_loop fuel q (Some (lfront q)) 0 = Some (Inr (length xs))"
proof -
  obtain ns where ns: "lq_nodes q ns" "xs = map snd ns" using assms(1) by (auto simp: lq_rep_def)
  obtain f where f: "cells q (lfront q) = Some f" "chain (cells q) (nnext f) ns"
    using ns(1) by (auto simp: lq_nodes_def)
  have "chain (cells q) (Some (lfront q)) ((lfront q, ndata f) # ns)" using f by (cases f) auto
  from lq_size_chain [OF this, of fuel 0] ns assms(2) show ?thesis by (auto simp: lq_nodes_def)
qed

end
