(* ===== verification/MsgQueue.thy ===== *)
theory MsgQueue
  imports ListQueue
begin

text \<open>
  \<open>GentMsg\<close> (\<open>src/gent_msg.h\<close>): the bounded ring buffer through which the main thread hands
  connections to the workers and replications to the master thread. The mutex makes each
  critical section one step; the two condition variables are the numbers of threads
  asleep on them and of threads that were signalled and have not run yet. \<open>wait\<close> may also
  return without a signal, as POSIX allows.
\<close>

section \<open>State and critical sections\<close>

record 'a GentMsg =
  app_cq :: "'a list"
  msize :: nat
  mstart :: nat
  empt_wait :: nat
  empt_ready :: nat
  full_wait :: nat
  full_ready :: nat

definition GentMsg_new :: "'a GentMsg" where
  "GentMsg_new = \<lparr>app_cq = [], msize = 0, mstart = 0, empt_wait = 0, empt_ready = 0, full_wait = 0, full_ready = 0\<rparr>"

text \<open>\<open>vector::resize\<close> to a size; new elements are value-initialised.\<close>

definition msg_Resize :: "nat \<Rightarrow> 'a \<Rightarrow> 'a GentMsg \<Rightarrow> 'a GentMsg" where
  "msg_Resize n dflt m = m\<lparr>app_cq := take n (app_cq m) @ replicate (n - length (app_cq m)) dflt\<rparr>"

definition Cursize :: "'a GentMsg \<Rightarrow> nat" where
  "Cursize m = msize m"

definition full :: "'a GentMsg \<Rightarrow> bool" where
  "full m \<longleftrightarrow> msize m \<ge> length (app_cq m)"

text \<open>The part of \<open>Push\<close> after the waiting loop, up to the signal.\<close>

definition msg_Push :: "'a \<Rightarrow> 'a GentMsg \<Rightarrow> 'a GentMsg" where
  "msg_Push x m =
     m\<lparr>app_cq := (app_cq m)[(mstart m + msize m) mod length (app_cq m) := x], msize := msize m + 1\<rparr>"

text \<open>The part of \<open>Pop\<close> after the waiting loop.\<close>

definition msg_Pop :: "'a GentMsg \<Rightarrow> 'a \<times> 'a GentMsg" where
  "msg_Pop m =
     (app_cq m ! mstart m,
      m\<lparr>mstart := (mstart m + 1) mod length (app_cq m), msize := msize m - 1\<rparr>)"

definition signal_full :: "'a GentMsg \<Rightarrow> 'a GentMsg" where
  "signal_full m = (if full_wait m > 0 then m\<lparr>full_wait := full_wait m - 1, full_ready := full_ready m + 1\<rparr> else m)"

definition signal_empt :: "'a GentMsg \<Rightarrow> 'a GentMsg" where
  "signal_empt m = (if empt_wait m > 0 then m\<lparr>empt_wait := empt_wait m - 1, empt_ready := empt_ready m + 1\<rparr> else m)"

datatype 'a msg_event = Pushed 'a | Popped 'a | Slept | Woken

text \<open>
  A thread that enters \<open>Push\<close> or \<open>Pop\<close>, or returns from the wait (\<open>ready\<close>), tests the loop
  condition with the lock held and either sleeps or does its work and signals.
\<close>

inductive msg_step :: "'a GentMsg \<Rightarrow> 'a msg_event \<Rightarrow> 'a GentMsg \<Rightarrow> bool" where
  push_new: "\<not> full m \<Longrightarrow> msg_step m (Pushed x) (signal_full (msg_Push x m))"
| push_ready: "empt_ready m > 0 \<Longrightarrow> \<not> full m \<Longrightarrow>
    msg_step m (Pushed x) (signal_full (msg_Push x (m\<lparr>empt_ready := empt_ready m - 1\<rparr>)))"
| push_sleep: "full m \<Longrightarrow> msg_step m Slept (m\<lparr>empt_wait := empt_wait m + 1\<rparr>)"
| push_resleep: "empt_ready m > 0 \<Longrightarrow> full m \<Longrightarrow>
    msg_step m Slept (m\<lparr>empt_ready := empt_ready m - 1, empt_wait := empt_wait m + 1\<rparr>)"
| pop_new: "msize m > 0 \<Longrightarrow> msg_Pop m = (x, m') \<Longrightarrow> msg_step m (Popped x) (signal_empt m')"
| pop_ready: "full_ready m > 0 \<Longrightarrow> msize m > 0 \<Longrightarrow> msg_Pop (m\<lparr>full_ready := full_ready m - 1\<rparr>) = (x, m') \<Longrightarrow>
    msg_step m (Popped x) (signal_empt m')"
| pop_sleep: "msize m = 0 \<Longrightarrow> msg_step m Slept (m\<lparr>full_wait := full_wait m + 1\<rparr>)"
| pop_resleep: "full_ready m > 0 \<Longrightarrow> msize m = 0 \<Longrightarrow>
    msg_step m Slept (m\<lparr>full_ready := full_ready m - 1, full_wait := full_wait m + 1\<rparr>)"
| spurious_empt: "empt_wait m > 0 \<Longrightarrow>
    msg_step m Woken (m\<lparr>empt_wait := empt_wait m - 1, empt_ready := empt_ready m + 1\<rparr>)"
| spurious_full: "full_wait m > 0 \<Longrightarrow>
    msg_step m Woken (m\<lparr>full_wait := full_wait m - 1, full_ready := full_ready m + 1\<rparr>)"

inductive msg_run :: "'a GentMsg \<Rightarrow> 'a msg_event list \<Rightarrow> 'a GentMsg \<Rightarrow> bool" where
  run_Nil: "msg_run m [] m"
| run_Cons: "msg_step m e m1 \<Longrightarrow> msg_run m1 es m2 \<Longrightarrow> msg_run m (e # es) m2"

inductive_cases msg_runE [elim]: "msg_run m [] m'" "msg_run m (e # es) m'"

section \<open>The queue a ring buffer holds\<close>

definition msg_rep :: "'a GentMsg \<Rightarrow> 'a list \<Rightarrow> bool" where
  "msg_rep m xs \<longleftrightarrow> length xs = msize m \<and> msize m \<le> length (app_cq m) \<and>
     (app_cq m \<noteq> [] \<longrightarrow> mstart m < length (app_cq m)) \<and>
     (\<forall>i < length xs. xs ! i = app_cq m ! ((mstart m + i) mod length (app_cq m)))"

text \<open>
  No wake-up is lost: while a consumer sleeps, at least as many are awake as there are
  messages; while a producer sleeps, at least as many are awake as there are free slots.
\<close>

definition no_lost_wakeup :: "'a GentMsg \<Rightarrow> bool" where
  "no_lost_wakeup m \<longleftrightarrow>
     (full_wait m > 0 \<longrightarrow> msize m \<le> full_ready m) \<and>
     (empt_wait m > 0 \<longrightarrow> length (app_cq m) - msize m \<le> empt_ready m)"

lemma mod_index_neq:
  assumes "i < k" "k < (n::nat)"
  shows "(s + i) mod n \<noteq> (s + k) mod n"
proof
  assume "(s + i) mod n = (s + k) mod n"
  then have "n dvd (s + k) - (s + i)" using assms(1) mod_eq_dvd_iff_nat [of "s + i" "s + k" n] by simp
  then have "n dvd k - i" by simp
  then show False using assms by (auto dest!: dvd_imp_le)
qed

lemma msg_Push_rep:
  assumes "msg_rep m xs" "\<not> full m"
  shows "msg_rep (msg_Push x m) (xs @ [x])"
proof -
  let ?n = "length (app_cq m)"
  have lt: "msize m < ?n" and len: "length xs = msize m" using assms by (auto simp: msg_rep_def full_def)
  have ne: "?n > 0" using lt by linarith
  have "(xs @ [x]) ! i = (app_cq m)[(mstart m + msize m) mod ?n := x] ! ((mstart m + i) mod ?n)"
    if i: "i < length (xs @ [x])" for i
  proof (cases "i = length xs")
    case True
    then show ?thesis using len ne by (simp add: nth_append)
  next
    case False
    then have "i < length xs" using i by simp
    moreover have "(mstart m + i) mod ?n \<noteq> (mstart m + msize m) mod ?n"
      using mod_index_neq [of i "msize m" ?n "mstart m"] \<open>i < length xs\<close> len lt by simp
    ultimately show ?thesis using assms(1) by (simp add: msg_rep_def nth_append)
  qed
  then show ?thesis using assms lt len by (auto simp: msg_Push_def msg_rep_def)
qed

lemma msg_Pop_rep:
  assumes "msg_rep m (x # xs)"
  shows "fst (msg_Pop m) = x" and "msg_rep (snd (msg_Pop m)) xs"
proof -
  let ?n = "length (app_cq m)"
  have sz: "msize m = Suc (length xs)" "Suc (length xs) \<le> ?n" using assms by (auto simp: msg_rep_def)
  have ne: "app_cq m \<noteq> []" "mstart m < ?n" using sz(2) assms by (auto simp: msg_rep_def)
  have nth: "(x # xs) ! i = app_cq m ! ((mstart m + i) mod ?n)" if "i < Suc (length xs)" for i
    using assms that by (simp add: msg_rep_def)
  show "fst (msg_Pop m) = x" using nth [of 0] ne by (simp add: msg_Pop_def)
  have "xs ! i = app_cq m ! (((mstart m + 1) mod ?n + i) mod ?n)" if "i < length xs" for i
    using nth [of "Suc i"] that by (simp add: mod_add_left_eq)
  then show "msg_rep (snd (msg_Pop m)) xs"
    using sz ne by (simp add: msg_Pop_def msg_rep_def)
qed

lemma msg_rep_upd [simp]:
  "msg_rep (m\<lparr>empt_wait := a\<rparr>) xs = msg_rep m xs" "msg_rep (m\<lparr>empt_ready := a\<rparr>) xs = msg_rep m xs"
  "msg_rep (m\<lparr>full_wait := a\<rparr>) xs = msg_rep m xs" "msg_rep (m\<lparr>full_ready := a\<rparr>) xs = msg_rep m xs"
  by (simp_all add: msg_rep_def)

lemma signal_rep [simp]: "msg_rep (signal_full m) xs = msg_rep m xs" "msg_rep (signal_empt m) xs = msg_rep m xs"
  by (simp_all add: signal_full_def signal_empt_def)

text \<open>The queue after an event, as a list; \<open>None\<close> when the event is not a step of a queue.\<close>

fun event_list :: "'a msg_event \<Rightarrow> 'a list \<Rightarrow> 'a list option" where
  "event_list (Pushed x) xs = Some (xs @ [x])"
| "event_list (Popped x) xs = (case xs of [] \<Rightarrow> None | y # ys \<Rightarrow> if x = y then Some ys else None)"
| "event_list Slept xs = Some xs"
| "event_list Woken xs = Some xs"

lemma msg_step_rep:
  assumes "msg_step m e m'" "msg_rep m xs"
  shows "\<exists>xs'. event_list e xs = Some xs' \<and> msg_rep m' xs'"
  using assms
proof (induction rule: msg_step.induct)
  case (push_ready m x)
  then show ?case using msg_Push_rep [of "m\<lparr>empt_ready := empt_ready m - 1\<rparr>" xs x] by (simp add: full_def)
next
  case (pop_new m x m')
  then obtain y ys where "xs = y # ys" by (cases xs) (auto simp: msg_rep_def)
  then show ?case using msg_Pop_rep [of m y ys] pop_new by simp
next
  case (pop_ready m x m')
  then obtain y ys where "xs = y # ys" by (cases xs) (auto simp: msg_rep_def)
  then show ?case using msg_Pop_rep [of "m\<lparr>full_ready := full_ready m - 1\<rparr>" y ys] pop_ready by simp
qed (simp_all add: msg_Push_rep)

lemma msg_step_wakeup:
  assumes "msg_step m e m'" "no_lost_wakeup m" "msize m \<le> length (app_cq m)"
  shows "no_lost_wakeup m'"
  using assms
  by (induction rule: msg_step.induct)
    (auto simp: no_lost_wakeup_def full_def signal_full_def signal_empt_def msg_Push_def msg_Pop_def)

lemma msg_step_capacity: "msg_step m e m' \<Longrightarrow> length (app_cq m') = length (app_cq m)"
  by (induction rule: msg_step.induct)
    (auto simp: signal_full_def signal_empt_def msg_Push_def msg_Pop_def)

section \<open>The buffer as a queue\<close>

definition MAX_CONNECT :: nat where
  "MAX_CONNECT = 10000"

text \<open>One call that does not have to sleep; \<open>None\<close> when \<open>Pop\<close> would.\<close>

definition msg_enq :: "'a \<Rightarrow> 'a GentMsg \<Rightarrow> 'a GentMsg res" where
  "msg_enq x m = Inr (signal_full (msg_Push x m))"

definition msg_deq :: "'a GentMsg \<Rightarrow> ('a option \<times> 'a GentMsg) res" where
  "msg_deq m = (if msize m = 0 then Inr (None, m)
     else (let (x, m') = msg_Pop m in Inr (Some x, signal_empt m')))"

definition msg_holds :: "'a GentMsg \<Rightarrow> 'a list \<Rightarrow> bool" where
  "msg_holds m xs \<longleftrightarrow> msg_rep m xs \<and> length (app_cq m) = MAX_CONNECT"

interpretation mq: fifo msg_holds msg_enq msg_deq "\<lambda>xs. length xs < MAX_CONNECT"
proof unfold_locales
  fix m :: "'a GentMsg" and x xs
  show "\<exists>m'. msg_enq x m = Inr m' \<and> msg_holds m' (xs @ [x])"
    if "msg_holds m xs" "length xs < MAX_CONNECT"
  proof -
    have "msg_rep m xs" "\<not> full m" using that by (auto simp: msg_holds_def msg_rep_def full_def)
    from msg_Push_rep [OF this] show ?thesis using that(1)
      by (simp add: msg_enq_def msg_holds_def signal_full_def msg_Push_def)
  qed
  show "msg_deq m = Inr (None, m)" if "msg_holds m []"
    using that by (simp add: msg_holds_def msg_rep_def msg_deq_def)
  show "\<exists>m'. msg_deq m = Inr (Some x, m') \<and> msg_holds m' xs" if "msg_holds m (x # xs)"
  proof -
    have r: "msg_rep m (x # xs)" "length (app_cq m) = MAX_CONNECT" using that by (auto simp: msg_holds_def)
    then have "msize m \<noteq> 0" by (auto simp: msg_rep_def)
    then show ?thesis using msg_Pop_rep [OF r(1)] r(2)
      by (cases "msg_Pop m") (auto simp: msg_deq_def msg_holds_def signal_empt_def msg_Pop_def)
  qed
qed simp

section \<open>Properties\<close>

fun pushed :: "'a msg_event list \<Rightarrow> 'a list" where
  "pushed [] = []"
| "pushed (Pushed x # es) = x # pushed es"
| "pushed (_ # es) = pushed es"

fun popped :: "'a msg_event list \<Rightarrow> 'a list" where
  "popped [] = []"
| "popped (Popped x # es) = x # popped es"
| "popped (_ # es) = popped es"

lemma msg_run_rep:
  assumes "msg_run m es m'" "msg_rep m xs" "no_lost_wakeup m"
  shows "\<exists>ys. xs @ pushed es = popped es @ ys \<and> msg_rep m' ys \<and> no_lost_wakeup m' \<and>
    length (app_cq m') = length (app_cq m)"
  using assms
proof (induction arbitrary: xs rule: msg_run.induct)
  case (run_Cons m e m1 es m2)
  obtain xs1 where xs1: "event_list e xs = Some xs1" "msg_rep m1 xs1"
    using msg_step_rep [OF run_Cons.hyps(1) run_Cons.prems(1)] by blast
  have w: "no_lost_wakeup m1"
    using msg_step_wakeup [OF run_Cons.hyps(1) run_Cons.prems(2)] run_Cons.prems(1) by (simp add: msg_rep_def)
  obtain ys where "xs1 @ pushed es = popped es @ ys" "msg_rep m2 ys" "no_lost_wakeup m2"
    "length (app_cq m2) = length (app_cq m1)"
    using run_Cons.IH [OF xs1(2) w] by blast
  then show ?case using xs1(1) msg_step_capacity [OF run_Cons.hyps(1)]
    by (cases e) (auto split: list.splits if_splits)
qed auto

lemma msg_rep_start: "msg_rep (msg_Resize n d GentMsg_new) [] \<and> no_lost_wakeup (msg_Resize n d GentMsg_new)"
  by (simp add: msg_rep_def msg_Resize_def GentMsg_new_def no_lost_wakeup_def)

text \<open>
  C10: in every interleaving of producers and consumers on a buffer of \<open>n\<close> slots, spurious
  wake-ups included, messages are popped in the order they were pushed, each once, at most
  \<open>n\<close> are in the buffer, and no wake-up is lost: whenever a consumer sleeps, at least as many
  consumers are awake as there are messages, and the same for producers and free slots.
\<close>

theorem GentMsg_fifo:
  assumes "msg_run (msg_Resize n d GentMsg_new) es m"
  shows "\<exists>ys. pushed es = popped es @ ys \<and> msg_rep m ys \<and> length ys \<le> n \<and>
    (full_wait m > 0 \<longrightarrow> length ys \<le> full_ready m) \<and> (empt_wait m > 0 \<longrightarrow> n - length ys \<le> empt_ready m)"
proof -
  obtain ys where "pushed es = popped es @ ys" "msg_rep m ys" "no_lost_wakeup m"
    "length (app_cq m) = length (app_cq (msg_Resize n d GentMsg_new))"
    using msg_run_rep [OF assms, of "[]"] msg_rep_start [of n d] by auto
  then show ?thesis by (auto simp: msg_rep_def no_lost_wakeup_def msg_Resize_def GentMsg_new_def)
qed

theorem GentMsg_fifo_witness:
  "\<exists>m. msg_run (msg_Resize 2 0 GentMsg_new) [Slept, Pushed (7::nat)] m \<and> msg_rep m [7] \<and> full_ready m = 1"
proof -
  let ?m0 = "msg_Resize 2 0 GentMsg_new :: nat GentMsg"
  let ?m1 = "?m0\<lparr>full_wait := full_wait ?m0 + 1\<rparr>"
  have s1: "msg_step ?m0 Slept ?m1"
    by (rule msg_step.pop_sleep) (simp add: msg_Resize_def GentMsg_new_def)
  have s2: "msg_step ?m1 (Pushed 7) (signal_full (msg_Push 7 ?m1))"
    by (rule msg_step.push_new) (simp add: full_def msg_Resize_def GentMsg_new_def)
  have r: "msg_run ?m0 [Slept, Pushed 7] (signal_full (msg_Push 7 ?m1))"
    by (rule msg_run.run_Cons [OF s1 msg_run.run_Cons [OF s2 msg_run.run_Nil]])
  from GentMsg_fifo [OF r] have "msg_rep (signal_full (msg_Push 7 ?m1)) [7]" by auto
  moreover have "full_ready (signal_full (msg_Push 7 ?m1)) = 1"
    by (simp add: signal_full_def msg_Push_def msg_Resize_def GentMsg_new_def)
  ultimately show ?thesis using r by blast
qed

end
