(* ===== verification/Repl.thy ===== *)
theory Repl
  imports Db RepFile MsgQueue
begin

text \<open>
  Replication (\<open>src/gent_repl.cpp\<close>): the master keeps one \<open>GentReplication\<close> per slave, with a
  queue of the keys changed since the last acknowledgement and, for a full
  synchronisation, a queue of all keys; the slave side is a state machine that links to
  the master, authenticates and asks for data. The two queues hold the elements a
  \<open>GentListQueue\<close> represents. Connections are numbers; \<open>conn_open\<close> is \<open>fd > 0\<close>.
\<close>

section \<open>Queue items\<close>

datatype optType = ADD | DEL

record itemData =
  iname :: string
  itype :: optType
  itm :: int
  is_sync :: bool

definition itemData_new :: "nat \<Rightarrow> string \<Rightarrow> optType \<Rightarrow> itemData" where
  "itemData_new now key optype = \<lparr>iname = key, itype = optype, itm = to_i32 (int now), is_sync = False\<rparr>"

definition setSync :: "itemData \<Rightarrow> itemData" where
  "setSync it = it\<lparr>is_sync := True\<rparr>"

definition SYNC_NUM :: nat where
  "SYNC_NUM = 2"

section \<open>One slave, seen from the master\<close>

record GentReplication =
  rep_name :: string
  is_run :: bool
  rstatus :: nat
  is_update_que :: bool
  slave_ip :: string
  main_que :: "itemData list"
  que :: "itemData list"
  main_que_length :: nat
  rinfo :: nat
  slave_start_time :: nat
  slave_last_time :: nat
  rconn :: "nat option"

text \<open>
  The constructor leaves \<open>is_update_que\<close> (outside a full synchronisation),
  \<open>slave_last_time\<close> and the connection uninitialised: they are taken from \<open>junk\<close>.
\<close>

definition GentReplication_new ::
  "GentReplication \<Rightarrow> nat \<Rightarrow> GentDb \<Rightarrow> string \<Rightarrow> nat \<Rightarrow> bool \<Rightarrow> GentFile \<Rightarrow> GentReplication \<times> GentFile" where
  "GentReplication_new junk now g nm info is_sync_all f =
     (let r = junk\<lparr>rep_name := nm, is_run := True, rstatus := 0, slave_ip := [], main_que := [], que := [],
                   main_que_length := 0, rinfo := info, slave_start_time := now\<rparr>;
          i = head_list f ! info
      in if ser_time i = 0 \<or> ser_time i > rep_time i then
           (if is_sync_all then
              (let outvec = Keys ''*'' g;
                   r' = r\<lparr>is_update_que := True,
                           que := map (\<lambda>k. itemData_new now k ADD) outvec,
                           main_que_length := length outvec mod 2 ^ 64\<rparr>
               in (r', if ser_time i = 0 then repinfo_set Ser_time now info f else f))
            else (r, f))
         else (r, f))"

text \<open>The last component: \<open>SendMasterMsg\<close> is called, to wake the master thread.\<close>

definition Repl_Push ::
  "nat \<Rightarrow> (nat \<Rightarrow> bool) \<Rightarrow> optType \<Rightarrow> string \<Rightarrow> GentReplication \<Rightarrow> GentFile \<Rightarrow> GentReplication \<times> GentFile \<times> bool" where
  "Repl_Push now conn_open type key r f =
     (if \<not> is_run r then (r, f, False)
      else
        (let notify = (main_que_length r = 0 \<and> (case rconn r of None \<Rightarrow> False | Some c \<Rightarrow> conn_open c))
         in (r\<lparr>main_que := main_que r @ [itemData_new now key type],
               main_que_length := add64 (main_que_length r) 1\<rparr>,
             repinfo_set Ser_time now (rinfo r) f, notify)))"

fun Pop_main_loop :: "nat \<Rightarrow> bool \<Rightarrow> nat \<Rightarrow> GentReplication \<Rightarrow> GentFile \<Rightarrow> GentReplication \<times> GentFile" where
  "Pop_main_loop 0 is_rep now r f = (r, f)"
| "Pop_main_loop (Suc n) is_rep now r f =
     (case main_que r of
        [] \<Rightarrow> (r, f)
      | it # q \<Rightarrow>
          if \<not> is_sync it then (r, f)
          else Pop_main_loop n is_rep now
                 (r\<lparr>main_que := q, main_que_length := sub64 (main_que_length r) 1\<rparr>)
                 (if is_rep then repinfo_set Rep_time now (rinfo r) f else f))"

fun Pop_que_loop :: "nat \<Rightarrow> GentReplication \<Rightarrow> GentReplication" where
  "Pop_que_loop 0 r = r"
| "Pop_que_loop (Suc n) r =
     (case que r of
        [] \<Rightarrow> r
      | it # q \<Rightarrow>
          if \<not> is_sync it then r
          else Pop_que_loop n (r\<lparr>que := q, main_que_length := sub64 (main_que_length r) 1\<rparr>))"

definition Repl_Pop :: "bool \<Rightarrow> nat \<Rightarrow> GentReplication \<Rightarrow> GentFile \<Rightarrow> GentReplication \<times> GentFile" where
  "Repl_Pop is_rep now r f =
     (let max = SYNC_NUM * 2
      in if \<not> is_update_que r then Pop_main_loop max is_rep now r f else (Pop_que_loop max r, f))"

text \<open>The destructor; \<open>None\<close>: the fuel is used up before the counter is 0.\<close>

fun Repl_delete :: "nat \<Rightarrow> nat \<Rightarrow> GentReplication \<Rightarrow> GentFile \<Rightarrow> GentFile option" where
  "Repl_delete fuel now r f =
     (if main_que_length r = 0 then Some f
      else (case fuel of
              0 \<Rightarrow> None
            | Suc n \<Rightarrow> (let (r', f') = Repl_Pop False now r f in Repl_delete n now r' f')))"

declare Repl_delete.simps [simp del]

text \<open>When the queue of the full synchronisation is empty it is left for good.\<close>

definition leave_update_que :: "nat \<Rightarrow> GentReplication \<Rightarrow> GentFile \<Rightarrow> GentReplication \<times> GentFile" where
  "leave_update_que now r f =
     (r\<lparr>is_update_que := False\<rparr>,
      if rep_time (head_list f ! rinfo r) = 0 then repinfo_set Rep_time now (rinfo r) f else f)"

definition Repl_front_element :: "nat \<Rightarrow> GentReplication \<Rightarrow> GentFile \<Rightarrow> itemData option \<times> GentReplication \<times> GentFile" where
  "Repl_front_element now r f =
     (let front = (\<lambda>q. case q of [] \<Rightarrow> None | it # _ \<Rightarrow> Some it)
      in if \<not> is_update_que r then (front (main_que r), r, f)
         else (case que r of
                 [] \<Rightarrow> (let (r', f') = leave_update_que now r f in (front (main_que r'), r', f'))
               | it # _ \<Rightarrow> (Some it, r, f)))"

definition front_nums_element ::
  "nat \<Rightarrow> nat \<Rightarrow> GentReplication \<Rightarrow> GentFile \<Rightarrow> itemData list option \<times> GentReplication \<times> GentFile" where
  "front_nums_element now num r f =
     (let nums = (\<lambda>q. if q = [] then None else Some (take num q))
      in if \<not> is_update_que r then (nums (main_que r), r, f)
         else if que r = [] then
           (let (r', f') = leave_update_que now r f in (nums (main_que r'), r', f'))
         else (Some (take num (que r)), r, f))"

definition SetLogout :: "GentReplication \<Rightarrow> GentFile \<Rightarrow> bool \<times> GentReplication \<times> GentFile" where
  "SetLogout r f =
     (if rconn r \<noteq> None then (False, r, f)
      else (True, r\<lparr>is_run := False\<rparr>, repinfo_set Available 0 (rinfo r) f))"

section \<open>The frames the master sends\<close>

definition bulk :: "string \<Rightarrow> string" where
  "bulk s = ''$'' @ dec (length s) @ crlf @ s @ crlf"

definition MsetReply :: "nat \<Rightarrow> string \<Rightarrow> string" where
  "MsetReply num outstr =
     snprintf_buf 30 (''*'' @ dec (num * 2 + 1) @ crlf @ ''$4'' @ crlf @ ''mset'' @ crlf) @ outstr"

definition Reply :: "optType \<Rightarrow> string \<Rightarrow> string \<Rightarrow> nat \<Rightarrow> string" where
  "Reply type key nr expire =
     (case type of
        ADD \<Rightarrow>
          (if expire = 0 then
             snprintf_buf 300 (''*3'' @ crlf @ ''$3'' @ crlf @ ''set'' @ crlf @
               ''$'' @ dec (length key) @ crlf @ cstr key @ crlf @ ''$'' @ dec (length nr) @ crlf)
           else
             (let expstr = snprintf_buf 20 (dec expire)
              in snprintf_buf 300 (''*4'' @ crlf @ ''$5'' @ crlf @ ''setex'' @ crlf @
                   ''$'' @ dec (length key) @ crlf @ cstr key @ crlf @
                   ''$'' @ dec (length expstr) @ crlf @ expstr @ crlf @ ''$'' @ dec (length nr) @ crlf)))
          @ nr @ crlf
      | DEL \<Rightarrow>
          snprintf_buf 300 (''*2'' @ crlf @ ''$3'' @ crlf @ ''del'' @ crlf @
            ''$'' @ dec (length key) @ crlf @ cstr key @ crlf))"

definition ReplyItem :: "string \<Rightarrow> string \<Rightarrow> string" where
  "ReplyItem key nr =
     snprintf_buf 100 (''$'' @ dec (length key) @ crlf @ cstr key @ crlf @ ''$'' @ dec (length nr) @ crlf)
       @ nr @ crlf"

text \<open>\<open>setSync\<close> on the \<open>i\<close>-th item of the queue in use.\<close>

definition sync_item :: "nat \<Rightarrow> GentReplication \<Rightarrow> GentReplication" where
  "sync_item i r =
     (if is_update_que r then r\<lparr>que := (que r)[i := setSync (que r ! i)]\<rparr>
      else r\<lparr>main_que := (main_que r)[i := setSync (main_que r ! i)]\<rparr>)"

text \<open>The loop of \<open>Start\<close> over the items to send, from the \<open>i\<close>-th on.\<close>

fun Start_loop ::
  "GentDb \<Rightarrow> nat \<Rightarrow> nat \<Rightarrow> itemData list \<Rightarrow> nat \<Rightarrow> string \<Rightarrow> GentReplication \<Rightarrow> (string \<times> GentReplication) res" where
  "Start_loop g now i [] msetNum outstr r = Inr (MsetReply msetNum outstr, r)"
| "Start_loop g now i (it # its) msetNum outstr r =
     (if itype it \<noteq> ADD \<and> msetNum \<noteq> 0 then Inr (MsetReply msetNum outstr, r)
      else if itype it \<noteq> ADD then Inr (Reply DEL (iname it) [] 0, sync_item i r)
      else rbind (GentDb_Get_expire (iname it) g) (\<lambda>(found, expire).
        case found of
          None \<Rightarrow>
            (if msetNum = 0 then Inr (Reply DEL (iname it) [] 0, sync_item i r)
             else Inr (MsetReply msetNum outstr, r))
        | Some nr \<Rightarrow>
            if expire \<noteq> 0 \<and> expire < now then
              (if msetNum = 0 then Inr (Reply DEL (iname it) [] 0, sync_item i r)
               else Inr (MsetReply msetNum outstr, r))
            else if expire \<noteq> 0 then
              (if msetNum > 0 then Inr (MsetReply msetNum outstr, r)
               else Inr (Reply ADD (iname it) nr (expire - now), sync_item i r))
            else if iname it \<noteq> [] then
              Start_loop g now (i + 1) its (msetNum + 1) (outstr @ ReplyItem (iname it) nr) (sync_item i r)
            else Start_loop g now (i + 1) its msetNum outstr (sync_item i r)))"

definition reply_frame :: "string \<Rightarrow> string" where
  "reply_frame t = ''*2'' @ crlf @ ''$5'' @ crlf @ ''reply'' @ crlf @ bulk t"

text \<open>\<open>Start\<close> when a frame is outstanding: \<open>ok\<close> acknowledges it.\<close>

definition Start_ack :: "nat \<Rightarrow> string \<Rightarrow> GentReplication \<Rightarrow> GentFile \<Rightarrow> GentReplication \<times> GentFile" where
  "Start_ack now msg r f =
     (if rstatus r = 1
      then (let r' = r\<lparr>rstatus := 0\<rparr> in if msg = ''ok'' then Repl_Pop True now r' f else (r', f))
      else (r, f))"

definition Repl_Start ::
  "GentDb \<Rightarrow> nat \<Rightarrow> string \<Rightarrow> nat \<Rightarrow> string \<Rightarrow> GentReplication \<Rightarrow> GentFile \<Rightarrow>
   (bool \<times> string \<times> GentReplication \<times> GentFile) res" where
  "Repl_Start g now msg c ip r f =
     (let r0 = r\<lparr>rconn := Some c, slave_ip := ip, slave_last_time := now\<rparr>
      in if msg = ''auth'' then Inr (True, reply_frame ''authok'', r0, f)
         else if msg = ''autherror'' then Inr (True, reply_frame ''autherror'', r0, f)
         else if msg \<noteq> ''ok'' \<and> msg \<noteq> ''data'' then Inr (True, reply_frame ''close'', r0, f)
         else
           (let (r1, f1) = Start_ack now msg r0 f;
                (syncData, r2, f2) = front_nums_element now SYNC_NUM r1 f1
            in case syncData of
                 None \<Rightarrow> Inr (False, [], r2, f2)
               | Some its \<Rightarrow>
                   rbind (Start_loop g now 0 its 0 [] (r2\<lparr>rstatus := 1\<rparr>)) (\<lambda>(outstr, r3).
                     Inr (True, outstr, r3, f2))))"

section \<open>The manager\<close>

datatype mgr_status = INIT | AUTH | WAIT | CONTINUE

record GentRepMgr =
  rep_list :: "(string, GentReplication) smap"
  mstatus :: mgr_status
  repfile :: GentFile
  rep_map :: "(string, nat) smap"
  mgr_start_time :: nat
  mgr_send_time :: nat
  server_id :: string
  mgr_conn :: "nat option"

text \<open>The constructor; \<open>conn_\<close> of the base class is not initialised.\<close>

definition GentRepMgr_new :: "nat option \<Rightarrow> string \<Rightarrow> GentFile \<times> (string, nat) smap \<Rightarrow> GentRepMgr" where
  "GentRepMgr_new junk sid file =
     \<lparr>rep_list = [], mstatus = INIT, repfile = fst file, rep_map = snd file, mgr_start_time = 0,
      mgr_send_time = 0, server_id = sid, mgr_conn = junk\<rparr>"

fun RepMgr_Init_loop :: "GentReplication \<Rightarrow> nat \<Rightarrow> GentDb \<Rightarrow> (string, nat) smap \<Rightarrow> GentRepMgr \<Rightarrow> GentRepMgr" where
  "RepMgr_Init_loop junk now g [] m = m"
| "RepMgr_Init_loop junk now g ((nm, i) # rest) m =
     (let (r, f) = GentReplication_new junk now g nm i True (repfile m)
      in RepMgr_Init_loop junk now g rest (m\<lparr>rep_list := sm_put nm r (rep_list m), repfile := f\<rparr>))"

definition RepMgr_Init :: "GentReplication \<Rightarrow> nat \<Rightarrow> GentDb \<Rightarrow> GentRepMgr \<Rightarrow> GentRepMgr" where
  "RepMgr_Init junk now g m = RepMgr_Init_loop junk now g (rep_map m) m"

text \<open>\<open>None\<close>: the slot file is full. The replication returned is the one stored under the name.\<close>

definition RepMgr_Get ::
  "GentReplication \<Rightarrow> string \<Rightarrow> nat \<Rightarrow> GentDb \<Rightarrow> string \<Rightarrow> bool \<Rightarrow> GentRepMgr \<Rightarrow> GentReplication option \<times> GentRepMgr" where
  "RepMgr_Get junk fjunk now g nm is_sync_all m =
     (case sm_get (rep_list m) nm of
        Some r \<Rightarrow> (Some r, m)
      | None \<Rightarrow>
          (let (info, f) = (case sm_get (rep_map m) nm of
                              None \<Rightarrow> AddItem fjunk nm (repfile m)
                            | Some i \<Rightarrow> (Some i, repfile m))
           in case info of
                None \<Rightarrow> (None, m\<lparr>repfile := f\<rparr>)
              | Some i \<Rightarrow>
                  (let (r, f') = GentReplication_new junk now g nm i is_sync_all f
                   in (Some r, m\<lparr>rep_list := sm_put nm r (rep_list m), repfile := f'\<rparr>))))"

text \<open>\<open>Push\<close> to every slave, in the order of the names; the names to notify are collected.\<close>

fun RepMgr_Push_loop ::
  "nat \<Rightarrow> (nat \<Rightarrow> bool) \<Rightarrow> optType \<Rightarrow> string \<Rightarrow> (string, GentReplication) smap \<Rightarrow> GentFile \<Rightarrow>
   (string, GentReplication) smap \<times> GentFile \<times> string list" where
  "RepMgr_Push_loop now conn_open type key [] f = ([], f, [])"
| "RepMgr_Push_loop now conn_open type key ((nm, r) # rs) f =
     (let (r', f1, notify) = Repl_Push now conn_open type key r f;
          (rs', f2, ns) = RepMgr_Push_loop now conn_open type key rs f1
      in ((nm, r') # rs', f2, if notify then nm # ns else ns))"

definition RepMgr_Push ::
  "nat \<Rightarrow> (nat \<Rightarrow> bool) \<Rightarrow> optType \<Rightarrow> string \<Rightarrow> GentRepMgr \<Rightarrow> GentRepMgr \<times> string list" where
  "RepMgr_Push now conn_open type key m =
     (let (rs, f, ns) = RepMgr_Push_loop now conn_open type key (rep_list m) (repfile m)
      in (m\<lparr>rep_list := rs, repfile := f\<rparr>, ns))"

text \<open>
  \<open>Logout\<close>: the second component is the replication handed to the clearing thread, which
  deletes it (\<open>ClearRep\<close>).
\<close>

definition RepMgr_Logout :: "bool \<Rightarrow> string \<Rightarrow> GentRepMgr \<Rightarrow> bool \<times> GentReplication option \<times> GentRepMgr" where
  "RepMgr_Logout created nm m =
     (case sm_get (rep_list m) nm of
        None \<Rightarrow> (True, None, m)
      | Some r \<Rightarrow>
          (let (ok, r', f) = SetLogout r (repfile m)
           in if \<not> ok then (False, None, m)
              else
                (let m1 = m\<lparr>rep_list := sm_put nm r' (rep_list m), repfile := f\<rparr>
                 in if \<not> created then (False, None, m1)
                    else (True, Some r', m1\<lparr>rep_list := sm_del nm (rep_list m1)\<rparr>))))"

definition GetReplicationNum :: "GentRepMgr \<Rightarrow> nat" where
  "GetReplicationNum m = length (rep_list m) mod 2 ^ 32"

definition RepMgr_QueLength :: "GentRepMgr \<Rightarrow> nat" where
  "RepMgr_QueLength m = fold (\<lambda>(nm, r) len. add64 len (main_que_length r)) (rep_list m) 0"

text \<open>\<open>timestr\<close> is \<open>GentUtil::TimeToStr\<close> (local time), \<open>conn_st\<close> the status name of a connection.\<close>

definition Repl_GetInfo :: "(nat \<Rightarrow> string) \<Rightarrow> (nat \<Rightarrow> string) \<Rightarrow> GentReplication \<Rightarrow> string" where
  "Repl_GetInfo timestr conn_st r =
     (let s = (case rconn r of None \<Rightarrow> ''close'' | Some c \<Rightarrow> conn_st c)
      in snprintf_buf 500 (''name:'' @ cstr (rep_name r) @ '',ip:'' @ cstr (slave_ip r) @
           '',start:'' @ timestr (slave_start_time r) @ '',last:'' @ timestr (slave_last_time r) @
           '',status:'' @ s @ '',need_sync: '' @ dec (main_que_length r) @ crlf))"

definition GetSlaveInfo :: "(nat \<Rightarrow> string) \<Rightarrow> (nat \<Rightarrow> string) \<Rightarrow> GentRepMgr \<Rightarrow> string" where
  "GetSlaveInfo timestr conn_st m =
     (let str = concat (map (\<lambda>(nm, r). Repl_GetInfo timestr conn_st r) (rep_list m))
      in if str = [] then ''no slave'' @ crlf else str)"

fun stage_name :: "mgr_status \<Rightarrow> string" where
  "stage_name INIT = ''initialization''"
| "stage_name AUTH = ''authentication''"
| "stage_name WAIT = ''wait''"
| "stage_name CONTINUE = ''transmit''"

definition RepMgr_GetInfo :: "GentConfig \<Rightarrow> GentRepMgr \<Rightarrow> string" where
  "RepMgr_GetInfo config m =
     (if config_at config ''slaveof_ip'' \<noteq> [] \<and> config_at config ''slaveof_port'' \<noteq> [] then
        snprintf_buf 200 (''connect master '' @ cstr (config_at config ''slaveof_ip'') @ '':'' @
          cstr (config_at config ''slaveof_port'') @ '',start_time:'' @ dec (mgr_start_time m) @
          '',stage: '' @ stage_name (mstatus m) @ crlf)
      else ''no master'' @ crlf)"

section \<open>The slave side\<close>

definition SlaveReply :: "nat \<Rightarrow> GentRepMgr \<Rightarrow> string" where
  "SlaveReply suc m =
     (let t = (if suc = 1 then ''ok'' else ''error'')
      in snprintf_buf 300 (''*3'' @ crlf @ ''$3'' @ crlf @ ''rep'' @ crlf @
           ''$'' @ dec (length (server_id m)) @ crlf @ cstr (server_id m) @ crlf @
           ''$'' @ dec (length t) @ crlf @ t @ crlf))"

definition SlaveSetStatus :: "mgr_status \<Rightarrow> GentRepMgr \<Rightarrow> GentRepMgr" where
  "SlaveSetStatus t m = m\<lparr>mstatus := t\<rparr>"

definition SlaveAuth :: "GentConfig \<Rightarrow> string \<Rightarrow> string \<Rightarrow> string" where
  "SlaveAuth config client_name auth =
     (let sync = (if config_at config ''slave_sync_all'' = ''false'' then ''false'' else ''true'')
      in snprintf_buf 300 (''*4'' @ crlf @ ''$3'' @ crlf @ ''rep'' @ crlf @
           ''$'' @ dec (length client_name) @ crlf @ cstr client_name @ crlf @
           ''$4'' @ crlf @ ''auth'' @ crlf @
           ''$'' @ dec (length auth) @ crlf @ cstr auth @ crlf @
           ''$'' @ dec (length sync) @ crlf @ sync @ crlf))"

definition data_request :: "GentRepMgr \<Rightarrow> string" where
  "data_request m =
     snprintf_buf 300 (''*3'' @ crlf @ ''$3'' @ crlf @ ''rep'' @ crlf @
       ''$'' @ dec (length (server_id m)) @ crlf @ cstr (server_id m) @ crlf @
       ''$4'' @ crlf @ ''data'' @ crlf)"

text \<open>
  What the timer finds: the time, the state of the connection (\<open>fd > 0\<close>, status \<open>close\<close>), the
  connection \<open>LinkMaster\<close> would open, and whether \<open>OutString\<close> fails.
\<close>

record slave_env =
  se_now :: nat
  se_fd :: bool
  se_closed :: bool
  se_link :: "nat option"
  se_send_ok :: bool

text \<open>One call of the timer; the second component is what is handed to \<open>OutString\<close>.\<close>

definition Slave :: "GentConfig \<Rightarrow> slave_env \<Rightarrow> GentRepMgr \<Rightarrow> GentRepMgr \<times> string option" where
  "Slave config e m =
     (if (mstatus m = AUTH \<or> mstatus m = WAIT) \<and> mgr_conn m \<noteq> None \<and> se_fd e then
        (if mgr_send_time m > 0 \<and> sub64 (se_now e) (mgr_send_time m) > 60
         then (m\<lparr>mstatus := CONTINUE\<rparr>, None) else (m, None))
      else
        (let m0 = (if mstatus m = AUTH \<or> mstatus m = WAIT then m\<lparr>mstatus := CONTINUE\<rparr> else m);
             relink = (mgr_conn m0 = None \<or> se_closed e)
         in if relink \<and> (config_at config ''slaveof_ip'' = [] \<or> config_at config ''slaveof_port'' = [])
            then (m0, None)
            else if relink \<and> se_link e = None then (m0\<lparr>mgr_conn := None\<rparr>, None)
            else
              (let m1 = (if relink
                         then m0\<lparr>mgr_conn := se_link e, mstatus := INIT,
                                 mgr_start_time := (if mgr_start_time m0 = 0 then se_now e else mgr_start_time m0)\<rparr>
                         else m0)
               in case mstatus m1 of
                    INIT \<Rightarrow>
                      (if config_at config ''master_auth'' = [] then (m1\<lparr>mstatus := CONTINUE\<rparr>, None)
                       else
                         (let out = SlaveAuth config (server_id m1) (config_at config ''master_auth'')
                          in if \<not> se_send_ok e then (m1, Some out) else (m1\<lparr>mstatus := AUTH\<rparr>, Some out)))
                  | CONTINUE \<Rightarrow>
                      (if \<not> se_send_ok e then (m1, Some (data_request m1))
                       else (m1\<lparr>mgr_send_time := se_now e, mstatus := WAIT\<rparr>, Some (data_request m1)))
                  | _ \<Rightarrow> (m1, None))))"

end
