(* ===== verification/Redis.thy ===== *)
theory Redis
  imports Repl
begin

text \<open>
  The Redis protocol (\<open>src/gent_redis.cpp\<close>): splitting a request into tokens, one parser and
  one completion per command, and the dispatch. A parser returns the number of value bytes
  still to read, or a negative code; a completion runs the command and builds the answer.
  The fields of the connection that the handlers touch (\<open>conn->curstatus\<close>,
  \<open>conn->is_slave\<close>) are kept with the handler's own.
\<close>

section \<open>State\<close>

datatype Status =
  CONN_READ | CONN_NREAD | CONN_WRITE | CONN_WAIT | CONN_CLOSE | CONN_DATA | CONN_CONREAD

datatype GentSubCommand =
    ProcessGet | ProcessSet | ProcessSetex | ProcessMset | ProcessAuth | ProcessTtl | ProcessMget
  | ProcessRandomkey | ProcessDel | ProcessQuit | ProcessKeys | ProcessExists | ProcessPing
  | ProcessInfo | ProcessRep | ProcessReply | ProcessSlave

record mset_data =
  keys_values :: "(string, string) smap"
  mcontent :: string
  cur_key :: string
  cur_key_end :: nat
  cur_content_len :: nat
  cur_content_start :: nat
  totalSetNum :: int
  setNum :: int

record GentRedis =
  auth :: int
  master_auth :: int
  keystr :: string
  mdata :: mset_data
  keyvec :: "string list"
  content :: string
  repmsg :: string
  subc :: "GentSubCommand option"
  rlbytes :: nat
  expire :: nat
  is_sync_all :: bool
  curstatus :: Status
  is_slave :: bool
  conn_id :: nat
  conn_ip :: string

record Server =
  sdb :: GentDb
  master :: GentRepMgr
  slave :: GentRepMgr
  master_msgs :: "string list"
  config :: GentConfig
  pending_deletes :: "GentReplication list"

definition AUTH_REQ_FAIL :: int where "AUTH_REQ_FAIL = - 4"
definition AUTH_FAIL :: int where "AUTH_FAIL = - 5"
definition MGET_REQ :: int where "MGET_REQ = - 6"

definition TY_STRING :: int where "TY_STRING = 1"

text \<open>\<open>mset_data::init\<close> leaves \<open>cur_key_end\<close> and the map as they are.\<close>

definition mset_init :: "mset_data \<Rightarrow> mset_data" where
  "mset_init m = m\<lparr>mcontent := [], cur_key := [], cur_content_len := 0, cur_content_start := 0,
     totalSetNum := 0, setNum := 0\<rparr>"

definition mset_set :: "mset_data \<Rightarrow> mset_data" where
  "mset_set m = m\<lparr>setNum := setNum m - 1, cur_key := [], cur_key_end := 0, cur_content_start := 0,
     cur_content_len := 0, mcontent := []\<rparr>"

text \<open>The constructor; \<open>master_auth\<close>, \<open>subc\<close> and \<open>cur_key_end\<close> keep the contents of \<open>junk\<close>.\<close>

definition GentRedis_new :: "GentRedis \<Rightarrow> GentRedis" where
  "GentRedis_new junk = junk\<lparr>keystr := [], auth := 0, rlbytes := 0, expire := 0, is_sync_all := True,
     mdata := mset_init ((mdata junk)\<lparr>keys_values := []\<rparr>), keyvec := [], content := [], repmsg := []\<rparr>"

section \<open>Tokens\<close>

function Redis_Split_loop :: "string \<Rightarrow> string \<Rightarrow> nat \<Rightarrow> string list \<Rightarrow> string list" where
  "Redis_Split_loop str delimit last_pos v =
     (case find_first_of str delimit last_pos of
        None \<Rightarrow> v
      | Some pos \<Rightarrow>
          (let (last_pos', v') =
                 (if pos = last_pos then (last_pos + 2, v)
                  else (pos + 2, v @ [take (pos - last_pos) (drop last_pos str)]))
           in if length v' = 10 \<and> (v' ! 2 = ''mset'' \<or> v' ! 2 = ''MSET'') then v'
              else Redis_Split_loop str delimit last_pos' v'))"
  by pat_completeness auto
termination
proof (relation "measure (\<lambda>(str, _, last_pos, _). length str - last_pos)")
  fix str delimit :: string and last_pos pos and v v' v'' :: "string list" and p last_pos'
  assume f: "find_first_of str delimit last_pos = Some pos"
    and p: "p = (if pos = last_pos then (last_pos + 2, v)
                 else (pos + 2, v @ [take (pos - last_pos) (drop last_pos str)]))"
    and l: "(last_pos', v') = p"
  have "last_pos \<le> pos" "pos < length str" using find_first_of_Some(1,2) [OF f] by auto
  moreover have "pos < last_pos'" using l p by (auto split: if_splits)
  ultimately show "((str, delimit, last_pos', v'), str, delimit, last_pos, v)
      \<in> measure (\<lambda>(str, _, last_pos, _). length str - last_pos)" by auto
qed simp

declare Redis_Split_loop.simps [simp del]

definition Redis_Split :: "string \<Rightarrow> string \<Rightarrow> string list" where
  "Redis_Split str delimit = Redis_Split_loop str delimit 0 []"

definition GetLength :: "string \<Rightarrow> nat res" where
  "GetLength str = rbind (substr_from str 1) (\<lambda>s. Inr (to_u64 (atoi (cstr s))))"

text \<open>\<open>tokenList[j].substr (0, GetLength (tokenList[i]))\<close>.\<close>

definition arg_at :: "string list \<Rightarrow> nat \<Rightarrow> nat \<Rightarrow> string res" where
  "arg_at tokenList i j =
     rbind (vec_at tokenList i) (\<lambda>l. rbind (GetLength l) (\<lambda>n.
     rbind (vec_at tokenList j) (\<lambda>t. substr t 0 n)))"

text \<open>The loops that step over \<open>n\<close> lines; \<open>None\<close>: \<open>npos\<close>.\<close>

fun skip_lines :: "nat \<Rightarrow> string \<Rightarrow> nat \<Rightarrow> nat option" where
  "skip_lines 0 data pos = Some pos"
| "skip_lines (Suc n) data pos =
     (case find_first_of data crlf pos of None \<Rightarrow> None | Some p \<Rightarrow> skip_lines n data (p + 2))"

section \<open>Parsers\<close>

definition IsAuth :: "Server \<Rightarrow> GentRedis \<Rightarrow> bool \<times> GentRedis" where
  "IsAuth s r =
     (if auth r \<noteq> 0 then (True, r)
      else if config_at (config s) ''auth'' = [] then (True, r\<lparr>auth := 1\<rparr>)
      else (False, r))"

type_synonym parse_result = "(int \<times> GentRedis \<times> Server) res"

text \<open>The guard with which most parsers begin.\<close>

definition with_auth :: "Server \<Rightarrow> GentRedis \<Rightarrow> (GentRedis \<Rightarrow> parse_result) \<Rightarrow> parse_result" where
  "with_auth s r k = (let (ok, r') = IsAuth s r in if \<not> ok then Inr (AUTH_REQ_FAIL, r', s) else k r')"

definition Slave_Parser :: "string list \<Rightarrow> GentRedis \<Rightarrow> Server \<Rightarrow> parse_result" where
  "Slave_Parser tokenList r s =
     with_auth s r (\<lambda>r.
       if length tokenList \<noteq> 7 then Inr (- 1, r, s)
       else rbind (arg_at tokenList 5 6) (\<lambda>act.
         if act \<noteq> ''clear'' then Inr (- 1, r, s)
         else rbind (arg_at tokenList 3 4) (\<lambda>key.
           Inr (0, r\<lparr>curstatus := CONN_DATA, keystr := key\<rparr>, s))))"

text \<open>\<open>GET\<close>, \<open>TTL\<close>, \<open>DEL\<close> and \<open>EXISTS\<close> have the same parser.\<close>

definition Get_Parser :: "string list \<Rightarrow> GentRedis \<Rightarrow> Server \<Rightarrow> parse_result" where
  "Get_Parser tokenList r s =
     with_auth s r (\<lambda>r.
       if length tokenList \<noteq> 5 then Inr (- 1, r, s)
       else rbind (arg_at tokenList 3 4) (\<lambda>key.
         Inr (0, r\<lparr>curstatus := CONN_DATA, keystr := key\<rparr>, s)))"

definition Ttl_Parser :: "string list \<Rightarrow> GentRedis \<Rightarrow> Server \<Rightarrow> parse_result" where
  "Ttl_Parser = Get_Parser"

definition Del_Parser :: "string list \<Rightarrow> GentRedis \<Rightarrow> Server \<Rightarrow> parse_result" where
  "Del_Parser = Get_Parser"

definition Exists_Parser :: "string list \<Rightarrow> GentRedis \<Rightarrow> Server \<Rightarrow> parse_result" where
  "Exists_Parser = Get_Parser"

text \<open>The end of the two \<open>SET\<close> parsers: what of the value is in the request already.\<close>

definition take_value :: "string \<Rightarrow> nat \<Rightarrow> nat \<Rightarrow> GentRedis \<Rightarrow> (int \<times> GentRedis) res" where
  "take_value data pos rl r =
     rbind (substr_from data pos) (\<lambda>c.
       if rl < length c then rbind (substr data pos rl) (\<lambda>c'. Inr (0, r\<lparr>content := c', rlbytes := rl\<rparr>))
       else Inr (to_i32 (int (sub64 rl (length c))), r\<lparr>content := c, rlbytes := rl\<rparr>))"

definition Set_Parser :: "string list \<Rightarrow> string \<Rightarrow> GentRedis \<Rightarrow> Server \<Rightarrow> parse_result" where
  "Set_Parser tokenList data r s =
     with_auth s r (\<lambda>r0.
       let r = r0\<lparr>curstatus := CONN_NREAD\<rparr> in
       if length tokenList < 5 then Inr (- 1, r, s)
       else rbind (arg_at tokenList 3 4) (\<lambda>key.
         let r = r\<lparr>keystr := key\<rparr> in
         if length key \<ge> 250 then Inr (- 3, r, s)
         else (case find_first_of data ''*3'' 0 of
             None \<Rightarrow> Inr (- 1, r, s)
           | Some p0 \<Rightarrow>
               (case skip_lines 6 data p0 of
                  None \<Rightarrow> Inr (- 1, r, s)
                | Some pos \<Rightarrow>
                    rbind (vec_at tokenList 5) (\<lambda>l. rbind (GetLength l) (\<lambda>rl.
                    rbind (take_value data pos rl r) (\<lambda>(n, r'). Inr (n, r', s))))))))"

definition Setex_Parser :: "nat \<Rightarrow> string list \<Rightarrow> string \<Rightarrow> GentRedis \<Rightarrow> Server \<Rightarrow> parse_result" where
  "Setex_Parser now tokenList data r s =
     with_auth s r (\<lambda>r0.
       let r = r0\<lparr>curstatus := CONN_NREAD\<rparr> in
       if length tokenList < 7 then Inr (- 1, r, s)
       else rbind (arg_at tokenList 3 4) (\<lambda>key.
         let r = r\<lparr>keystr := key\<rparr> in
         if length key \<ge> 250 then Inr (- 3, r, s)
         else (case find_first_of data ''*4'' 0 of
             None \<Rightarrow> Inr (- 1, r, s)
           | Some p0 \<Rightarrow>
               (case skip_lines 8 data p0 of
                  None \<Rightarrow> Inr (- 1, r, s)
                | Some pos \<Rightarrow>
                    rbind (vec_at tokenList 6) (\<lambda>ex.
                    rbind (vec_at tokenList 7) (\<lambda>l. rbind (GetLength l) (\<lambda>rl.
                    rbind (take_value data pos rl (r\<lparr>expire := add64 (to_u64 (atoi (cstr ex))) now\<rparr>)) (\<lambda>(n, r').
                      Inr (n, r', s)))))))))"

subsection \<open>MSET\<close>

text \<open>
  One round of \<open>ItemParser\<close>: \<open>Item_more\<close> is \<open>MGET_REQ\<close> (more data is needed), \<open>Item_done\<close> gives
  the data left after the pair. \<open>pos\<close> is 0 at the start of every round.
\<close>

datatype item_result = Item_more mset_data | Item_done mset_data string

text \<open>\<open>Inl\<close>: more data is needed; \<open>Inr\<close>: the key is known, with the position after it.\<close>

definition item_key :: "string \<Rightarrow> mset_data \<Rightarrow> (mset_data + mset_data) res" where
  "item_key data m =
     (if cur_key m \<noteq> [] then Inr (Inr m)
      else
        (case find_first_of data crlf 0 of
           None \<Rightarrow> Inr (Inl (m\<lparr>mcontent := data\<rparr>))
         | Some p \<Rightarrow>
             rbind (substr data 0 p) (\<lambda>d. rbind (GetLength d) (\<lambda>keyLen.
               if length data < add64 (p + 2) keyLen then Inr (Inl (m\<lparr>mcontent := data\<rparr>))
               else rbind (substr data (p + 2) keyLen) (\<lambda>key.
                 Inr (Inr (m\<lparr>cur_key := key, cur_key_end := add64 (add64 (p + 2) keyLen) 2\<rparr>)))))))"

text \<open>The length of the value; \<open>clpos\<close> is the position after the key.\<close>

definition item_len :: "string \<Rightarrow> nat \<Rightarrow> mset_data \<Rightarrow> (mset_data + mset_data \<times> nat \<times> nat) res" where
  "item_len data clpos m =
     (if cur_content_len m > 0 then Inr (Inr (m, cur_content_start m, cur_content_len m))
      else
        (case find_first_of data crlf clpos of
           None \<Rightarrow> Inr (Inl (m\<lparr>mcontent := data\<rparr>))
         | Some p \<Rightarrow>
             rbind (substr data clpos (p - clpos)) (\<lambda>d. rbind (GetLength d) (\<lambda>cLen.
               Inr (Inr (m\<lparr>cur_content_len := cLen, cur_content_start := p + 2\<rparr>, p + 2, cLen))))))"

definition item_step :: "string \<Rightarrow> mset_data \<Rightarrow> item_result res" where
  "item_step data m =
     rbind (item_key data m) (\<lambda>k. case k of Inl m' \<Rightarrow> Inr (Item_more m') | Inr m1 \<Rightarrow>
     rbind (item_len data (cur_key_end m1) m1) (\<lambda>l. case l of Inl m' \<Rightarrow> Inr (Item_more m') | Inr (m2, cpos, cLen) \<Rightarrow>
       if length data < add64 (add64 cpos cLen) 2 then Inr (Item_more (m2\<lparr>mcontent := data\<rparr>))
       else
         rbind (substr data cpos cLen) (\<lambda>v.
         rbind (substr_from data (add64 (add64 cpos cLen) 2)) (\<lambda>rest.
           Inr (Item_done (mset_set (m2\<lparr>keys_values := sm_put (cur_key m1) v (keys_values m2)\<rparr>)) rest)))))"

text \<open>The loop runs at most \<open>setNum\<close> rounds; \<open>n\<close> is \<open>nat setNum\<close>.\<close>

fun ItemParser_loop :: "nat \<Rightarrow> string \<Rightarrow> mset_data \<Rightarrow> (int \<times> mset_data) res" where
  "ItemParser_loop 0 data m =
     (if setNum m \<noteq> 0 then Inr (MGET_REQ, m\<lparr>mcontent := data\<rparr>) else Inr (0, m))"
| "ItemParser_loop (Suc n) data m =
     rbind (item_step data m) (\<lambda>x. case x of
       Item_more m' \<Rightarrow> Inr (MGET_REQ, m')
     | Item_done m' rest \<Rightarrow> ItemParser_loop n rest m')"

definition ItemParser :: "string \<Rightarrow> mset_data \<Rightarrow> (int \<times> mset_data) res" where
  "ItemParser data m = ItemParser_loop (nat (setNum m)) data m"

definition Mset_Parser :: "string list \<Rightarrow> string \<Rightarrow> GentRedis \<Rightarrow> Server \<Rightarrow> parse_result" where
  "Mset_Parser tokenList data r s =
     with_auth s r (\<lambda>r0.
       let r = r0\<lparr>curstatus := CONN_NREAD\<rparr> in
       if length tokenList < 3 then Inr (- 1, r, s)
       else rbind (vec_at tokenList 0) (\<lambda>t0. rbind (substr_from t0 1) (\<lambda>d.
         let fieldNum = atoi (cstr d) in
         if (fieldNum - 1) mod 2 \<noteq> 0 then Inr (- 1, r, s)
         else
           (let r = r\<lparr>mdata := (mdata r)\<lparr>totalSetNum := (fieldNum - 1) div 2, setNum := (fieldNum - 1) div 2\<rparr>\<rparr>
            in case find_first_of data t0 0 of
                 None \<Rightarrow> Inr (- 1, r, s)
               | Some p0 \<Rightarrow>
                   (case skip_lines 3 data p0 of
                      None \<Rightarrow> Inr (- 1, r, s)
                    | Some pos \<Rightarrow>
                        rbind (substr_from data pos) (\<lambda>dat.
                        rbind (ItemParser dat (mdata r)) (\<lambda>(ret, m).
                          Inr (ret, r\<lparr>mdata := m,
                                 curstatus := (if ret = MGET_REQ then CONN_CONREAD else curstatus r)\<rparr>, s))))))))"

definition Mset_ContinueParser :: "string \<Rightarrow> GentRedis \<Rightarrow> (int \<times> GentRedis) res" where
  "Mset_ContinueParser data r =
     rbind (ItemParser (mcontent (mdata r) @ data) (mdata r)) (\<lambda>(ret, m).
       Inr (ret, r\<lparr>mdata := m,
         curstatus := (if ret = MGET_REQ then CONN_CONREAD else if ret = 0 then CONN_DATA else curstatus r)\<rparr>))"

subsection \<open>The other commands\<close>

text \<open>\<open>fieldNum\<close> is an \<open>int\<close>; the loop reads the tokens \<open>2 i + 1\<close> and \<open>2 i + 2\<close> for \<open>1 \<le> i < fieldNum\<close>.\<close>

fun Mget_args :: "string list \<Rightarrow> nat list \<Rightarrow> string list res" where
  "Mget_args tokenList [] = Inr []"
| "Mget_args tokenList (i # is) =
     rbind (arg_at tokenList (2 * i + 1) (2 * i + 2)) (\<lambda>key.
     rbind (Mget_args tokenList is) (\<lambda>keys. Inr (key # keys)))"

definition Mget_Parser :: "string list \<Rightarrow> GentRedis \<Rightarrow> Server \<Rightarrow> parse_result" where
  "Mget_Parser tokenList r s =
     with_auth s r (\<lambda>r.
       rbind (vec_at tokenList 0) (\<lambda>t0. rbind (GetLength t0) (\<lambda>n.
         let fieldNum = to_i32 (int n) in
         if length tokenList < 5 \<or> int (length tokenList) \<noteq> to_i32 (fieldNum * 2 + 1) then Inr (- 1, r, s)
         else rbind (Mget_args tokenList [1..<nat fieldNum]) (\<lambda>keys.
           Inr (0, r\<lparr>keyvec := keys, curstatus := CONN_DATA\<rparr>, s)))))"

definition Info_Parser :: "string list \<Rightarrow> GentRedis \<Rightarrow> Server \<Rightarrow> parse_result" where
  "Info_Parser tokenList r s =
     with_auth s r (\<lambda>r.
       rbind (if length tokenList \<ge> 5 then arg_at tokenList 3 4 else Inr []) (\<lambda>key.
         Inr (0, r\<lparr>keystr := key, curstatus := CONN_DATA\<rparr>, s)))"

definition Quit_Parser :: "GentRedis \<Rightarrow> Server \<Rightarrow> parse_result" where
  "Quit_Parser r s = Inr (0, r\<lparr>curstatus := CONN_CLOSE\<rparr>, s)"

definition Randomkey_Parser :: "GentRedis \<Rightarrow> Server \<Rightarrow> parse_result" where
  "Randomkey_Parser r s = with_auth s r (\<lambda>r. Inr (0, r\<lparr>curstatus := CONN_DATA\<rparr>, s))"

definition Keys_Parser :: "string list \<Rightarrow> GentRedis \<Rightarrow> Server \<Rightarrow> parse_result" where
  "Keys_Parser tokenList r s =
     with_auth s r (\<lambda>r.
       if length tokenList \<noteq> 5 then Inr (- 2, r, s)
       else rbind (arg_at tokenList 3 4) (\<lambda>key.
         Inr (0, r\<lparr>keystr := key, curstatus := CONN_DATA\<rparr>, s)))"

definition Ping_Parser :: "GentRedis \<Rightarrow> Server \<Rightarrow> parse_result" where
  "Ping_Parser r s = with_auth s r (\<lambda>r. Inr (0, r\<lparr>curstatus := CONN_DATA\<rparr>, s))"

definition Rep_Parser :: "string list \<Rightarrow> GentRedis \<Rightarrow> Server \<Rightarrow> parse_result" where
  "Rep_Parser tokenList r s =
     (if length tokenList < 7 then Inr (- 1, r, s)
      else
        (let r1 = r\<lparr>repmsg := tokenList ! 6\<rparr>;
             r2 = (if master_auth r1 \<noteq> 0 then r1
                   else if config_at (config s) ''master_auth'' = [] then r1\<lparr>master_auth := 1\<rparr>
                   else if length tokenList \<noteq> 11 \<or> tokenList ! 6 \<noteq> ''auth'' \<or>
                           tokenList ! 8 \<noteq> config_at (config s) ''master_auth''
                        then r1\<lparr>repmsg := ''autherror''\<rparr>
                        else r1\<lparr>master_auth := 1, is_sync_all := (tokenList ! 10 = ''true'')\<rparr>)
         in rbind (arg_at tokenList 3 4) (\<lambda>key.
              Inr (0, r2\<lparr>keystr := key, curstatus := CONN_DATA\<rparr>, s))))"

definition Reply_Parser :: "string list \<Rightarrow> GentRedis \<Rightarrow> Server \<Rightarrow> parse_result" where
  "Reply_Parser tokenList r s =
     with_auth s r (\<lambda>r.
       if length tokenList = 5 \<and> tokenList ! 4 = ''close'' then Inr (0, r\<lparr>curstatus := CONN_CLOSE\<rparr>, s)
       else if length tokenList = 5 \<and> (tokenList ! 4 = ''complete'' \<or> tokenList ! 4 = ''authok'') then
         Inr (0, r\<lparr>curstatus := CONN_WAIT\<rparr>, s\<lparr>slave := SlaveSetStatus CONTINUE (slave s)\<rparr>)
       else if length tokenList = 5 \<and> tokenList ! 4 = ''autherror'' then Inr (0, r\<lparr>curstatus := CONN_WAIT\<rparr>, s)
       else Inr (0, r, s))"

definition Auth_Parser :: "string list \<Rightarrow> GentRedis \<Rightarrow> Server \<Rightarrow> parse_result" where
  "Auth_Parser tokenList r s =
     (if length tokenList \<noteq> 5 then Inr (- 1, r, s)
      else rbind (arg_at tokenList 3 4) (\<lambda>str.
        if config_at (config s) ''auth'' = [] then Inr (0, r\<lparr>auth := 1\<rparr>, s)
        else if str \<noteq> config_at (config s) ''auth'' then Inr (AUTH_FAIL, r, s)
        else Inr (0, r\<lparr>curstatus := CONN_DATA\<rparr>, s)))"

section \<open>Dispatch\<close>

definition commands :: "(string \<times> GentSubCommand) list" where
  "commands =
     [(''get'', ProcessGet), (''GET'', ProcessGet), (''set'', ProcessSet), (''SET'', ProcessSet),
      (''setex'', ProcessSetex), (''SETEX'', ProcessSetex), (''mset'', ProcessMset), (''MSET'', ProcessMset),
      (''auth'', ProcessAuth), (''AUTH'', ProcessAuth), (''ttl'', ProcessTtl), (''TTL'', ProcessTtl),
      (''mget'', ProcessMget), (''MGET'', ProcessMget), (''randomkey'', ProcessRandomkey),
      (''RANDOMKEY'', ProcessRandomkey), (''del'', ProcessDel), (''DEL'', ProcessDel),
      (''quit'', ProcessQuit), (''QUIT'', ProcessQuit), (''exit'', ProcessQuit), (''EXIT'', ProcessQuit),
      (''keys'', ProcessKeys), (''KEYS'', ProcessKeys), (''exists'', ProcessExists), (''EXISTS'', ProcessExists),
      (''ping'', ProcessPing), (''PING'', ProcessPing), (''info'', ProcessInfo), (''INFO'', ProcessInfo),
      (''rep'', ProcessRep), (''REP'', ProcessRep), (''reply'', ProcessReply), (''REPLY'', ProcessReply),
      (''slave'', ProcessSlave), (''SLAVE'', ProcessSlave)]"

fun Parser :: "GentSubCommand \<Rightarrow> nat \<Rightarrow> string list \<Rightarrow> string \<Rightarrow> GentRedis \<Rightarrow> Server \<Rightarrow> parse_result" where
  "Parser ProcessGet now tokenList data r s = Get_Parser tokenList r s"
| "Parser ProcessSet now tokenList data r s = Set_Parser tokenList data r s"
| "Parser ProcessSetex now tokenList data r s = Setex_Parser now tokenList data r s"
| "Parser ProcessMset now tokenList data r s = Mset_Parser tokenList data r s"
| "Parser ProcessAuth now tokenList data r s = Auth_Parser tokenList r s"
| "Parser ProcessTtl now tokenList data r s = Ttl_Parser tokenList r s"
| "Parser ProcessMget now tokenList data r s = Mget_Parser tokenList r s"
| "Parser ProcessRandomkey now tokenList data r s = Randomkey_Parser r s"
| "Parser ProcessDel now tokenList data r s = Del_Parser tokenList r s"
| "Parser ProcessQuit now tokenList data r s = Quit_Parser r s"
| "Parser ProcessKeys now tokenList data r s = Keys_Parser tokenList r s"
| "Parser ProcessExists now tokenList data r s = Exists_Parser tokenList r s"
| "Parser ProcessPing now tokenList data r s = Ping_Parser r s"
| "Parser ProcessInfo now tokenList data r s = Info_Parser tokenList r s"
| "Parser ProcessRep now tokenList data r s = Rep_Parser tokenList r s"
| "Parser ProcessReply now tokenList data r s = Reply_Parser tokenList r s"
| "Parser ProcessSlave now tokenList data r s = Slave_Parser tokenList r s"

definition ParseCommand :: "nat \<Rightarrow> string \<Rightarrow> GentRedis \<Rightarrow> Server \<Rightarrow> parse_result" where
  "ParseCommand now data r s =
     (if data = [] then Inr (0, r, s)
      else
        (let tokenList = Redis_Split data crlf
         in if tokenList = [] then Inr (0, r, s)
            else if length tokenList < 3 then Inr (- 1, r, s)
            else (case map_of commands (tokenList ! 2) of
                    None \<Rightarrow> Inr (- 1, r, s)
                  | Some c \<Rightarrow> Parser c now tokenList data (r\<lparr>subc := Some c\<rparr>) s)))"

definition REDIS_ERROR :: string where
  "REDIS_ERROR = ''-ERR''"

definition error_line :: "int \<Rightarrow> string option" where
  "error_line status =
     (if status = - 1 then Some (REDIS_ERROR @ '' unknown command'' @ crlf)
      else if status = - 2 then
        Some (REDIS_ERROR @ '' wrong number of arguments for '' @ [CHR 0x27] @ ''keys'' @ [CHR 0x27] @ '' command'' @ crlf)
      else if status = - 3 then Some (REDIS_ERROR @ '' key is very very long'' @ crlf)
      else if status = AUTH_REQ_FAIL then Some (''- '' @ ''NOAUTH Authentication required.'' @ crlf)
      else if status = AUTH_FAIL then Some (REDIS_ERROR @ '' '' @ ''invalid password'' @ crlf)
      else None)"

text \<open>The result: the number returned and \<open>outstr\<close>, which \<open>TryRunning\<close> passes in empty.\<close>

definition Process :: "nat \<Rightarrow> string \<Rightarrow> GentRedis \<Rightarrow> Server \<Rightarrow> (int \<times> string \<times> GentRedis \<times> Server) res" where
  "Process now data r s =
     rbind (ParseCommand now data r s) (\<lambda>(status, r', s').
       case error_line status of
         Some out \<Rightarrow> Inr (0, out, r', s')
       | None \<Rightarrow> Inr (status, [], r', s'))"

definition ContinueProcess :: "string \<Rightarrow> GentRedis \<Rightarrow> (int \<times> GentRedis) res" where
  "ContinueProcess data r =
     (case subc r of
        None \<Rightarrow> Inl Null_pointer
      | Some ProcessMset \<Rightarrow> Mset_ContinueParser data r
      | Some _ \<Rightarrow> Inr (0, r))"

section \<open>Completions\<close>

text \<open>
  The environment of a request: that of the database writes, the open connections, \<open>rand ()\<close>,
  whether the notification pipe and \<open>pthread_create\<close> work, uninitialised memory, and the
  figures \<open>INFO\<close> reports that do not come from the modelled state.
\<close>

record info_env =
  info_pid :: nat
  info_port :: int
  info_file :: string
  info_levels :: string
  info_total_conn :: nat
  info_conn :: nat
  info_size :: nat
  info_human :: string
  info_timestr :: "nat \<Rightarrow> string"
  info_conn_st :: "nat \<Rightarrow> string"

record req_env =
  q_db :: db_env
  q_open :: "nat \<Rightarrow> bool"
  q_rand :: nat
  q_pipe :: bool
  q_thread :: bool
  q_junk :: GentReplication
  q_fjunk :: string
  q_info :: info_env

definition q_now :: "req_env \<Rightarrow> nat" where
  "q_now q = env_now (q_db q)"

definition Redis_Info :: "string \<Rightarrow> string \<Rightarrow> string" where
  "Redis_Info msg type = (if msg = [] then type @ crlf else type @ '' '' @ msg @ crlf)"

text \<open>\<open>GentRepMgr::Instance ("master")->Push\<close>, with the messages to the master thread.\<close>

definition master_push :: "req_env \<Rightarrow> optType \<Rightarrow> string \<Rightarrow> Server \<Rightarrow> Server" where
  "master_push q type key s =
     (let (m, ns) = RepMgr_Push (q_now q) (q_open q) type key (master s)
      in s\<lparr>master := m, master_msgs := master_msgs s @ ns\<rparr>)"

type_synonym complete_result = "(string \<times> GentRedis \<times> Server) res"

text \<open>\<open>string (recont, len)\<close> is the argument \<open>recont\<close>.\<close>

definition store_reply :: "GentRedis \<Rightarrow> Server \<Rightarrow> bool \<Rightarrow> string" where
  "store_reply r s ok =
     (if is_slave r then SlaveReply (if ok then 1 else 0) (slave s)
      else if ok then ''+OK'' @ crlf else Redis_Info ''NOT_STORED'' REDIS_ERROR)"

text \<open>
  \<open>Put (key, content.c_str (), rlbytes, \<dots>)\<close>: \<open>rlbytes\<close> bytes from the buffer of \<open>content\<close>; \<open>junk\<close> is what
  follows the buffer, read when \<open>content\<close> is shorter.
\<close>

definition value_bytes :: "string \<Rightarrow> string \<Rightarrow> nat \<Rightarrow> string" where
  "value_bytes junk c n = take n (c @ NUL # junk)"

definition Set_Complete :: "req_env \<Rightarrow> string \<Rightarrow> GentRedis \<Rightarrow> Server \<Rightarrow> complete_result" where
  "Set_Complete q recont r s =
     (let r1 = r\<lparr>content := content r @ recont\<rparr>;
          (ok, g) = GentDb_Put (q_db q) (keystr r1) (value_bytes (q_fjunk q) (content r1) (rlbytes r1)) 0 TY_STRING (sdb s);
          s1 = s\<lparr>sdb := g\<rparr>
      in if \<not> ok then Inr (store_reply r1 s1 False, r1, s1)
         else (let s2 = master_push q ADD (keystr r1) s1 in Inr (store_reply r1 s2 True, r1, s2)))"

definition Setex_Complete :: "req_env \<Rightarrow> string \<Rightarrow> GentRedis \<Rightarrow> Server \<Rightarrow> complete_result" where
  "Setex_Complete q recont r s =
     (let r1 = r\<lparr>content := content r @ recont\<rparr>;
          (ok, g) = GentDb_Put (q_db q) (keystr r1) (value_bytes (q_fjunk q) (content r1) (rlbytes r1))
                      (expire r1) TY_STRING (sdb s);
          s1 = s\<lparr>sdb := g\<rparr>
      in if \<not> ok then Inr (store_reply r1 s1 False, r1, s1)
         else (let s2 = master_push q ADD (keystr r1) s1 in Inr (store_reply r1 s2 True, r1, s2)))"

definition Mset_Complete :: "req_env \<Rightarrow> GentRedis \<Rightarrow> Server \<Rightarrow> complete_result" where
  "Mset_Complete q r s =
     (let (ok, g) = BatchPut (q_db q) (keys_values (mdata r)) (sdb s);
          s1 = s\<lparr>sdb := g\<rparr>;
          s2 = (if ok then fold (\<lambda>(key, v). master_push q ADD key) (keys_values (mdata r)) s1 else s1)
      in Inr (store_reply r s2 ok, r\<lparr>mdata := (mdata r)\<lparr>keys_values := []\<rparr>\<rparr>, s2))"

definition Get_Complete :: "req_env \<Rightarrow> GentRedis \<Rightarrow> Server \<Rightarrow> complete_result" where
  "Get_Complete q r s =
     rbind (GentDb_Get (q_now q) (keystr r) (sdb s)) (\<lambda>nr.
       Inr (case nr of
              None \<Rightarrow> ''$-1'' @ crlf
            | Some v \<Rightarrow> snprintf_buf 50 (''$'' @ dec (length v mod 2 ^ 32) @ crlf) @ v @ crlf, r, s))"

fun Mget_loop :: "nat \<Rightarrow> string list \<Rightarrow> GentDb \<Rightarrow> string res" where
  "Mget_loop now [] g = Inr []"
| "Mget_loop now (k # ks) g =
     rbind (GentDb_Get now k g) (\<lambda>v. rbind (Mget_loop now ks g) (\<lambda>rest.
       let nr = (case v of None \<Rightarrow> [] | Some x \<Rightarrow> x)
       in Inr (snprintf_buf 20 (''$'' @ dec (length nr mod 2 ^ 32) @ crlf) @ nr @ crlf @ rest)))"

definition Mget_Complete :: "req_env \<Rightarrow> GentRedis \<Rightarrow> Server \<Rightarrow> complete_result" where
  "Mget_Complete q r s =
     rbind (Mget_loop (q_now q) (keyvec r) (sdb s)) (\<lambda>out.
       Inr (snprintf_buf 20 (''*'' @ dec (length (keyvec r)) @ crlf) @ out, r, s))"

definition Ttl_Complete :: "req_env \<Rightarrow> GentRedis \<Rightarrow> Server \<Rightarrow> complete_result" where
  "Ttl_Complete q r s =
     rbind (GentDb_Ttl (keystr r) (sdb s)) (\<lambda>(isTtl, ex).
       Inr (if isTtl \<and> ex > 0 then
              (if ex > q_now q then snprintf_buf 50 ('':'' @ dec (ex - q_now q) @ crlf) else '':-2'' @ crlf)
            else if isTtl \<and> ex = 0 then '':-1'' @ crlf
            else '':-2'' @ crlf, r, s))"

definition Del_Complete :: "req_env \<Rightarrow> GentRedis \<Rightarrow> Server \<Rightarrow> complete_result" where
  "Del_Complete q r s =
     rbind (GentDb_Get (q_now q) (keystr r) (sdb s)) (\<lambda>nr.
       if nr = None then
         Inr (if is_slave r then SlaveReply 1 (slave s) else '':0'' @ crlf, r, s)
       else
         (let (ok, g) = GentDb_Del (q_db q) (keystr r) (sdb s); s1 = s\<lparr>sdb := g\<rparr>
          in if \<not> ok then Inr (if is_slave r then SlaveReply 0 (slave s1) else '':0'' @ crlf, r, s1)
             else
               (let s2 = master_push q DEL (keystr r) s1
                in Inr (if is_slave r then SlaveReply 1 (slave s2) else '':1'' @ crlf, r, s2))))"

definition Randomkey_Complete :: "req_env \<Rightarrow> GentRedis \<Rightarrow> Server \<Rightarrow> complete_result" where
  "Randomkey_Complete q r s =
     (let out = snd (Random (q_rand q) (sdb s))
      in Inr (snprintf_buf 260 (''$'' @ dec (length out mod 2 ^ 32) @ crlf @ cstr out @ crlf), r, s))"

definition keys_line :: "string \<Rightarrow> string" where
  "keys_line k = snprintf_buf 260 (''$'' @ dec (length k mod 2 ^ 32) @ crlf @ cstr k @ crlf)"

definition Keys_Complete :: "req_env \<Rightarrow> GentRedis \<Rightarrow> Server \<Rightarrow> complete_result" where
  "Keys_Complete q r s =
     (let outvec = Keys (keystr r) (sdb s)
      in Inr (snprintf_buf 20 (''*'' @ dec (length outvec mod 2 ^ 32) @ crlf) @ concat (map keys_line outvec), r, s))"

definition Exists_Complete :: "req_env \<Rightarrow> GentRedis \<Rightarrow> Server \<Rightarrow> complete_result" where
  "Exists_Complete q r s =
     rbind (GentDb_Get (q_now q) (keystr r) (sdb s)) (\<lambda>nr.
       Inr (if nr = None then '':0'' @ crlf else '':1'' @ crlf, r, s))"

definition Ping_Complete :: "GentRedis \<Rightarrow> Server \<Rightarrow> complete_result" where
  "Ping_Complete r s = Inr (''+PONG'' @ crlf, r, s)"

definition Slave_Complete :: "req_env \<Rightarrow> GentRedis \<Rightarrow> Server \<Rightarrow> complete_result" where
  "Slave_Complete q r s =
     (let (ok, del, m) = RepMgr_Logout (q_thread q) (keystr r) (master s);
          s1 = s\<lparr>master := m, pending_deletes := pending_deletes s @ (case del of None \<Rightarrow> [] | Some d \<Rightarrow> [d])\<rparr>
      in Inr (if ok then ''+OK'' @ crlf
              else Redis_Info (keystr r @ '' is run,failed to stop'') REDIS_ERROR, r, s1))"

definition info_text :: "info_env \<Rightarrow> Server \<Rightarrow> string" where
  "info_text i s =
     (let role = (if config_at (config s) ''slaveof_ip'' \<noteq> [] \<and> config_at (config s) ''slaveof_port'' \<noteq> []
                  then ''master,slave'' else ''master'')
      in snprintf_buf 500
           (''# Server'' @ crlf @ ''process_id: '' @ dec (info_pid i) @ crlf @ ''port: '' @ dec_int (info_port i) @ crlf @
            ''config_file: '' @ cstr (info_file i) @ crlf @ ''file_num: '' @ cstr (info_levels i) @ crlf @
            crlf @ ''# Clients'' @ crlf @ ''total_connect: '' @ dec (info_total_conn i) @ crlf @
            ''current_connect: '' @ dec (info_conn i) @ crlf @
            crlf @ ''# Disk'' @ crlf @ ''disk_use: '' @ dec (info_size i) @ crlf @
            ''disk_use_human: '' @ info_human i @ crlf @
            crlf @ ''# Keyspace'' @ crlf @ ''key_num: '' @ dec (fst (Count FileOk [] (sdb s))) @ crlf @
            crlf @ ''# Replication'' @ crlf @ ''role:'' @ role @ crlf @
            ''connected_slaves:'' @ dec (GetReplicationNum (master s)) @ crlf @
            ''master_repl_length:'' @ dec (RepMgr_QueLength (master s)) @ crlf @ crlf))"

definition Info_Complete :: "req_env \<Rightarrow> GentRedis \<Rightarrow> Server \<Rightarrow> complete_result" where
  "Info_Complete q r s =
     (let i = q_info q;
          (out, s1) =
            (if keystr r = ''rep'' then
               (''# Master'' @ crlf @ GetSlaveInfo (info_timestr i) (info_conn_st i) (master s) @
                ''# Slave'' @ crlf @ RepMgr_GetInfo (config s) (slave s) @ crlf, s)
             else (info_text i s, s\<lparr>sdb := snd (Count (env_file (q_db q)) [] (sdb s))\<rparr>))
      in Inr (snprintf_buf 50 (''$'' @ dec (to_u32 (int (length out) - 2)) @ crlf) @ out, r, s1))"

text \<open>
  \<open>REP\<close>: the message queued for the master thread is the replication of that name, and its
  connection is set.
\<close>

definition Rep_Complete :: "req_env \<Rightarrow> GentRedis \<Rightarrow> Server \<Rightarrow> complete_result" where
  "Rep_Complete q r s =
     (if master_auth r = 0 then
        Inr (if repmsg r = ''auth'' then reply_frame ''authok'' else reply_frame ''autherror'', r, s)
      else
        (let (rep, m) = RepMgr_Get (q_junk q) (q_fjunk q) (q_now q) (sdb s) (keystr r) (is_sync_all r) (master s)
         in case rep of
              None \<Rightarrow> Inr (REDIS_ERROR @ '' slave full,manual clear'' @ crlf, r, s\<lparr>master := m\<rparr>)
            | Some p \<Rightarrow>
                (let m1 = m\<lparr>rep_list := sm_put (keystr r) (p\<lparr>rconn := Some (conn_id r)\<rparr>) (rep_list m)\<rparr>;
                     s1 = s\<lparr>master := m1, master_msgs := master_msgs s @ [keystr r]\<rparr>
                 in Inr (if q_pipe q then [] else REDIS_ERROR @ '' send master message failed'' @ crlf,
                         r\<lparr>curstatus := CONN_WAIT\<rparr>, s1))))"

definition Auth_Complete :: "GentRedis \<Rightarrow> Server \<Rightarrow> complete_result" where
  "Auth_Complete r s = Inr (''+OK'' @ crlf, r\<lparr>auth := 1\<rparr>, s)"

definition Complete :: "req_env \<Rightarrow> string \<Rightarrow> GentRedis \<Rightarrow> Server \<Rightarrow> complete_result" where
  "Complete q recont r s =
     (case subc r of
        None \<Rightarrow> Inr (Redis_Info ''command'' REDIS_ERROR, r, s)
      | Some ProcessGet \<Rightarrow> Get_Complete q r s
      | Some ProcessSet \<Rightarrow> Set_Complete q recont r s
      | Some ProcessSetex \<Rightarrow> Setex_Complete q recont r s
      | Some ProcessMset \<Rightarrow> Mset_Complete q r s
      | Some ProcessAuth \<Rightarrow> Auth_Complete r s
      | Some ProcessTtl \<Rightarrow> Ttl_Complete q r s
      | Some ProcessMget \<Rightarrow> Mget_Complete q r s
      | Some ProcessRandomkey \<Rightarrow> Randomkey_Complete q r s
      | Some ProcessDel \<Rightarrow> Del_Complete q r s
      | Some ProcessQuit \<Rightarrow> Inr ([], r, s)
      | Some ProcessKeys \<Rightarrow> Keys_Complete q r s
      | Some ProcessExists \<Rightarrow> Exists_Complete q r s
      | Some ProcessPing \<Rightarrow> Ping_Complete r s
      | Some ProcessInfo \<Rightarrow> Info_Complete q r s
      | Some ProcessRep \<Rightarrow> Rep_Complete q r s
      | Some ProcessReply \<Rightarrow> Inr ([], r, s)
      | Some ProcessSlave \<Rightarrow> Slave_Complete q r s)"

end
