(* ===== verification/Connect.thy ===== *)
theory Connect
  imports Redis
begin

text \<open>
  One client connection (\<open>gent_connect.cpp\<close>): reading a request from the socket, running the
  command, writing the reply, as the state machine \<open>TryRunning\<close> that \<open>GentEvent::Handle\<close>
  calls whenever the socket is ready. The socket is explicit: \<open>reads\<close> lists what the coming
  \<open>read\<close> calls meet (after its end they would block), \<open>sends\<close> what the \<open>i\<close>-th \<open>send\<close> does, and
  \<open>wire\<close> collects the bytes the peer receives. \<open>curstatus\<close> is the field of that name, kept in
  the command object because the parsers set it. The buffer sizes are naturals (\<open>int\<close> in the
  code), and a buffer is represented by the bytes in it, so \<open>rbytes\<close>, \<open>cbytes\<close> and \<open>actualsize\<close>
  are lengths. Loops that may not end carry fuel; \<open>None\<close> is fuel exhausted.
\<close>

section \<open>The socket\<close>

datatype rd = Bytes string | Eof | Again | Read_error

datatype sd = Sent nat | Send_again | Send_error

datatype ev_result = EvOk | EvDelFail | EvAddFail

record sock =
  reads :: "rd list"
  sends :: "nat \<Rightarrow> sd"
  nsends :: nat
  wire :: string
  sock_ev :: ev_result
  sock_mem :: bool

text \<open>
  \<open>read (fd, buf, avail)\<close>: at most \<open>avail\<close> bytes of what has arrived; asking for 0 bytes
  returns 0, which the callers take for the end of the stream.
\<close>

fun sock_read :: "nat \<Rightarrow> sock \<Rightarrow> rd \<times> sock" where
  "sock_read avail k =
     (if avail = 0 then (Eof, k)
      else (case reads k of
          [] \<Rightarrow> (Again, k)
        | Bytes s # rs \<Rightarrow>
            if s = [] then (Again, k\<lparr>reads := rs\<rparr>)
            else if length s \<le> avail then (Bytes s, k\<lparr>reads := rs\<rparr>)
            else (Bytes (take avail s), k\<lparr>reads := Bytes (drop avail s) # rs\<rparr>)
        | Eof # rs \<Rightarrow> (Eof, k)
        | Again # rs \<Rightarrow> (Again, k\<lparr>reads := rs\<rparr>)
        | Read_error # rs \<Rightarrow> (Read_error, k\<lparr>reads := rs\<rparr>)))"

declare sock_read.simps [simp del]

section \<open>The connection\<close>

datatype ev_flag = eventRead | eventWrite

record GentConnect =
  comm :: GentRedis
  rsize :: nat
  ccontent :: "string option"
  remainsize :: nat
  outstr :: string
  sendsize :: nat
  cursendsize :: nat
  cbuf :: "string option"
  csize :: nat
  ev_flags :: ev_flag
  start_time :: nat

definition READ_BUFFER_SIZE :: nat where
  "READ_BUFFER_SIZE = 4096"

definition SetStatus :: "Status \<Rightarrow> GentConnect \<Rightarrow> GentConnect" where
  "SetStatus st c = c\<lparr>comm := (comm c)\<lparr>curstatus := st\<rparr>\<rparr>"

definition GetStatus :: "GentConnect \<Rightarrow> string" where
  "GetStatus c =
     (case curstatus (comm c) of
        CONN_READ \<Rightarrow> ''read'' | CONN_NREAD \<Rightarrow> ''read'' | CONN_WRITE \<Rightarrow> ''send'' | CONN_WAIT \<Rightarrow> ''wait''
      | CONN_CLOSE \<Rightarrow> ''close'' | CONN_DATA \<Rightarrow> ''parse'' | CONN_CONREAD \<Rightarrow> ''continue_read'')"

text \<open>A read buffer of size 0 stands for the null pointer.\<close>

definition ReAllocation :: "GentConnect \<Rightarrow> GentConnect" where
  "ReAllocation c = c\<lparr>ccontent := None, rsize := (if rsize c = 0 then READ_BUFFER_SIZE else rsize c)\<rparr>"

definition Reset :: "GentConnect \<Rightarrow> GentConnect" where
  "Reset c = ReAllocation (c\<lparr>ccontent := None, cbuf := None\<rparr>)"

text \<open>
  \<open>Init\<close>, with the command object \<open>GetCommand\<close> makes: \<open>r\<close> is a fresh \<open>GentRedis\<close>; a recycled
  connection keeps \<open>rbuf\<close> if it still has one.
\<close>

definition Connect_Init :: "nat \<Rightarrow> nat \<Rightarrow> GentRedis \<Rightarrow> GentConnect \<Rightarrow> GentConnect" where
  "Connect_Init now sfd r c =
     ReAllocation (c\<lparr>comm := r\<lparr>is_slave := False, curstatus := CONN_READ, conn_id := sfd\<rparr>, start_time := now,
       remainsize := 0, sendsize := 0, cursendsize := 0, csize := 0, cbuf := None, ev_flags := eventRead\<rparr>)"

definition SetClientData :: "string \<Rightarrow> GentConnect \<Rightarrow> GentConnect" where
  "SetClientData ip c = c\<lparr>comm := (comm c)\<lparr>conn_ip := ip\<rparr>\<rparr>"

text \<open>\<open>GentEvent::UpdateEvent\<close>: 0, or -1 when the event library fails.\<close>

definition UpdateEvent :: "ev_flag \<Rightarrow> sock \<Rightarrow> GentConnect \<Rightarrow> int \<times> GentConnect" where
  "UpdateEvent state k c =
     (if ev_flags c = state then (0, c)
      else (case sock_ev k of
          EvDelFail \<Rightarrow> (- 1, c)
        | EvAddFail \<Rightarrow> (- 1, c\<lparr>ev_flags := state\<rparr>)
        | EvOk \<Rightarrow> (0, c\<lparr>ev_flags := state\<rparr>)))"

section \<open>Reading\<close>

text \<open>
  The loop \<open>InitRead\<close> and \<open>ContinueRead\<close> share: read until a short read, growing the buffer
  at most four times.
\<close>

datatype read_end = Rd_full | Rd_short | Rd_again | Rd_eof | Rd_fail | Rd_nomem

function read_loop :: "nat \<Rightarrow> bool \<Rightarrow> string \<Rightarrow> nat \<Rightarrow> sock \<Rightarrow> read_end \<times> bool \<times> string \<times> nat \<times> sock" where
  "read_loop num_allocs gotdata buf sz k =
     (if length buf \<ge> sz \<and> num_allocs \<ge> 4 then (Rd_full, gotdata, buf, sz, k)
      else if length buf \<ge> sz \<and> \<not> sock_mem k then (Rd_nomem, gotdata, buf, sz, k)
      else
        (let num_allocs' = (if length buf \<ge> sz then num_allocs + 1 else num_allocs);
             sz' = (if length buf \<ge> sz then sz * 2 else sz);
             avail = sz' - length buf
         in case sock_read avail k of
              (Bytes s, k') \<Rightarrow>
                if length s < avail then (Rd_short, True, buf @ s, sz', k')
                else read_loop num_allocs' True (buf @ s) sz' k'
            | (Eof, k') \<Rightarrow> (Rd_eof, gotdata, buf, sz', k')
            | (Again, k') \<Rightarrow> (Rd_again, gotdata, buf, sz', k')
            | (Read_error, k') \<Rightarrow> (Rd_fail, gotdata, buf, sz', k')))"
  by pat_completeness auto
termination
  by (relation "measure (\<lambda>(n, _, buf, sz, _). 2 * (4 - n) + (if length buf < sz then 1 else 0))")
    (auto split: if_splits)

declare read_loop.simps [simp del]

definition read_result :: "read_end \<Rightarrow> bool \<Rightarrow> int" where
  "read_result e gotdata =
     (case e of Rd_eof \<Rightarrow> - 3 | Rd_fail \<Rightarrow> - 1 | Rd_nomem \<Rightarrow> - 2 | _ \<Rightarrow> (if gotdata then 1 else 0))"

definition InitRead :: "string \<Rightarrow> GentConnect \<Rightarrow> sock \<Rightarrow> int \<times> string \<times> GentConnect \<times> sock" where
  "InitRead rbuf c k =
     (let (e, gotdata, buf, sz, k') = read_loop 0 False rbuf (rsize c) k
      in (read_result e gotdata, if e = Rd_nomem then [] else buf, c\<lparr>rsize := sz\<rparr>, k'))"

definition ContinueRead :: "GentConnect \<Rightarrow> sock \<Rightarrow> int \<times> GentConnect \<times> sock" where
  "ContinueRead c k =
     (let (e, gotdata, buf, sz, k') = read_loop 0 False (case cbuf c of None \<Rightarrow> [] | Some b \<Rightarrow> b) (csize c) k;
          c1 = c\<lparr>cbuf := Some buf, csize := sz\<rparr>;
          c2 = (if e = Rd_again then snd (UpdateEvent eventRead k' c1) else c1)
      in (read_result e gotdata, c2, k'))"

definition NextRead :: "GentConnect \<Rightarrow> sock \<Rightarrow> int \<times> GentConnect \<times> sock" where
  "NextRead c k =
     (if remainsize c = 0 then (0, SetStatus CONN_DATA c, k)
      else (case sock_read (remainsize c) k of
          (Bytes s, k') \<Rightarrow>
            (0, c\<lparr>ccontent := Some ((case ccontent c of None \<Rightarrow> [] | Some b \<Rightarrow> b) @ s),
                  remainsize := remainsize c - length s\<rparr>, k')
        | (Eof, k') \<Rightarrow> (0, SetStatus CONN_CLOSE c, k')
        | (Again, k') \<Rightarrow> (- 1, snd (UpdateEvent eventRead k' c), k')
        | (Read_error, k') \<Rightarrow> (0, SetStatus CONN_CLOSE c, k')))"

section \<open>Writing\<close>

text \<open>The loop of \<open>OutString\<close>: -1 a failed \<open>send\<close>, 0 one that would block, else the bytes sent.\<close>

fun OutString_loop :: "nat \<Rightarrow> string \<Rightarrow> GentConnect \<Rightarrow> sock \<Rightarrow> (int \<times> GentConnect \<times> sock) option" where
  "OutString_loop 0 str c k = None"
| "OutString_loop (Suc n) str c k =
     (if sendsize c = 0 then Some (int (cursendsize c), SetStatus CONN_WAIT c, k)
      else
        (let k1 = k\<lparr>nsends := nsends k + 1\<rparr>
         in case sends k (nsends k) of
              Send_again \<Rightarrow> Some (0, snd (UpdateEvent eventWrite k1 c), k1)
            | Send_error \<Rightarrow> Some (- 1, c, k1)
            | Sent m \<Rightarrow>
                (let slen = min m (sendsize c)
                 in OutString_loop n str
                      (c\<lparr>sendsize := sendsize c - slen, cursendsize := cursendsize c + slen\<rparr>)
                      (k1\<lparr>wire := wire k1 @ take slen (drop (cursendsize c) str)\<rparr>))))"

definition OutString :: "nat \<Rightarrow> string \<Rightarrow> GentConnect \<Rightarrow> sock \<Rightarrow> (int \<times> GentConnect \<times> sock) option" where
  "OutString n str c k =
     OutString_loop n str (if sendsize c = 0 then c\<lparr>sendsize := length str, cursendsize := 0\<rparr> else c) k"

definition SetWrite :: "string \<Rightarrow> sock \<Rightarrow> GentConnect \<Rightarrow> GentConnect" where
  "SetWrite str k c = snd (UpdateEvent eventWrite k (SetStatus CONN_WRITE (c\<lparr>outstr := str\<rparr>)))"

section \<open>The state machine\<close>

text \<open>The result: what \<open>TryRunning\<close> returns, or the fault it meets.\<close>

type_synonym run_result = "(int \<times> GentConnect \<times> Server \<times> sock) res"

definition finish :: "int \<Rightarrow> int \<times> GentConnect \<Rightarrow> Server \<Rightarrow> sock \<Rightarrow> run_result option" where
  "finish ret ec s k = Some (Inr (if fst ec = - 1 then - 1 else ret, snd ec, s, k))"

fun TryRunning :: "nat \<Rightarrow> req_env \<Rightarrow> string \<Rightarrow> GentConnect \<Rightarrow> Server \<Rightarrow> sock \<Rightarrow> run_result option" where
  "TryRunning 0 q rbuf c s k = None"
| "TryRunning (Suc n) q rbuf c s k =
     (case curstatus (comm c) of
        CONN_READ \<Rightarrow>
          (let (readNum, rbuf', c1, k1) = InitRead rbuf (c\<lparr>outstr := []\<rparr>) k
           in if readNum < 0 then Some (Inr (readNum, Reset c1, s, k1))
              else if readNum = 0 then TryRunning n q rbuf' (SetStatus CONN_WAIT c1) s k1
              else (case Process (q_now q) rbuf' (comm c1) s of
                  Inl e \<Rightarrow> Some (Inl e)
                | Inr (status, out, r, s1) \<Rightarrow>
                    (let c2 = c1\<lparr>comm := r, outstr := out, remainsize := to_u64 status\<rparr>
                     in if remainsize c2 = 0 \<and> out \<noteq> []
                        then finish 0 (UpdateEvent eventWrite k1 (Reset (SetStatus CONN_WRITE c2))) s1 k1
                        else TryRunning n q rbuf' c2 s1 k1)))
      | CONN_NREAD \<Rightarrow>
          (let c1 = (if ccontent c = None then c\<lparr>ccontent := Some []\<rparr> else c);
               (ret, c2, k1) = NextRead c1 k
           in if ret = - 1 then Some (Inr (1, c2, s, k1)) else TryRunning n q rbuf c2 s k1)
      | CONN_DATA \<Rightarrow>
          (case Complete q (case ccontent c of None \<Rightarrow> [] | Some b \<Rightarrow> b) (comm c) s of
             Inl e \<Rightarrow> Some (Inl e)
           | Inr (out, r, s1) \<Rightarrow>
               (let c1 = c\<lparr>comm := r, outstr := out\<rparr>
                in if out \<noteq> [] then finish 0 (UpdateEvent eventWrite k (SetStatus CONN_WRITE c1)) s1 k
                   else Some (Inr (0, c1, s1, k))))
      | CONN_WRITE \<Rightarrow>
          (case OutString n (outstr c) (Reset c) k of
             None \<Rightarrow> None
           | Some (ret, c1, k1) \<Rightarrow> TryRunning n q rbuf c1 s k1)
      | CONN_WAIT \<Rightarrow>
          finish 0 (UpdateEvent eventRead k (SetStatus CONN_READ (Reset (c\<lparr>remainsize := 0\<rparr>)))) s k
      | CONN_CONREAD \<Rightarrow>
          (let c1 = (if cbuf c = None then c\<lparr>cbuf := Some [], csize := READ_BUFFER_SIZE\<rparr> else c);
               (readNum, c2, k1) = ContinueRead c1 k
           in if readNum < 0 then Some (Inr (readNum, Reset c2, s, k1))
              else if readNum = 0 then finish 0 (UpdateEvent eventRead k1 c2) s k1
              else (case ContinueProcess (case cbuf c2 of None \<Rightarrow> [] | Some b \<Rightarrow> b) (comm c2) of
                  Inl e \<Rightarrow> Some (Inl e)
                | Inr (ret, r) \<Rightarrow>
                    if ret = 0 then TryRunning n q rbuf (c2\<lparr>comm := r, cbuf := None, csize := 0\<rparr>) s k1
                    else Some (Inr (0, snd (UpdateEvent eventRead k1 (c2\<lparr>comm := r, cbuf := Some []\<rparr>)), s, k1))))
      | CONN_CLOSE \<Rightarrow> Some (Inr (- 1, c, s, k)))"

text \<open>\<open>GentEvent::Handle\<close> for a ready socket: a new call, so \<open>rbytes\<close> starts at 0.\<close>

definition Handle :: "nat \<Rightarrow> req_env \<Rightarrow> GentConnect \<Rightarrow> Server \<Rightarrow> sock \<Rightarrow> run_result option" where
  "Handle n q c s k = TryRunning n q [] c s k"

end
