(* ===== verification/DbProps.thy ===== *)
theory DbProps
  imports Db
begin

text \<open>
  Correctness of \<open>GentDb\<close>: the metadata encoding round trips, every operation refines the
  corresponding operation on a map from keys to values with an expiry time, the prefix
  scans return exactly the keys with the prefix, and what the key counter counts.
\<close>

section \<open>Metadata\<close>

definition ten_digits :: "nat \<Rightarrow> bool" where
  "ten_digits n \<longleftrightarrow> 10 ^ 9 \<le> n \<and> n < 10 ^ 10"

definition good_expire :: "nat \<Rightarrow> bool" where
  "good_expire x \<longleftrightarrow> x = 0 \<or> ten_digits x"

definition good_type :: "int \<Rightarrow> bool" where
  "good_type d \<longleftrightarrow> 0 \<le> d \<and> d \<le> 9"

lemma length_dec_ten: "ten_digits n \<Longrightarrow> length (dec n) = 10"
  using length_dec_exact [of 9 n] by (simp add: ten_digits_def)

lemma ten_digits_small: "ten_digits n \<Longrightarrow> n < 2 ^ 64" "ten_digits n \<Longrightarrow> n \<le> REDIS_EXPIRE_TIME"
  "ten_digits n \<Longrightarrow> n \<noteq> 0"
  by (simp_all add: ten_digits_def REDIS_EXPIRE_TIME_def)

lemma dec_digit: "good_type d \<Longrightarrow> dec_int d = [digit_char (nat d)]"
proof -
  assume "good_type d"
  then have "nat d < 10" "0 \<le> d" by (auto simp: good_type_def)
  then show ?thesis by (simp add: dec.simps)
qed

lemma atoi_digit: "good_type d \<Longrightarrow> atoi (cstr (dec_int d)) = d"
  using atoi_dec [of "nat d"] by (auto simp: good_type_def cstr_id)

lemma length_MetaSerialize: "length (MetaSerialize now d x) < 100"
  unfolding MetaSerialize_def by (rule snprintf_buf_length) simp

lemma MetaSerialize_star:
  assumes "good_type d" "ten_digits now" "x = 0 \<or> x > REDIS_EXPIRE_TIME"
  shows "MetaSerialize now d x = digit_char (nat d) # ''*0000000000'' @ dec now"
  using assms length_dec_ten [of now]
  by (simp add: MetaSerialize_def dec_digit snprintf_buf_fits del: dec_int_nonneg)

lemma MetaSerialize_plus:
  assumes "good_type d" "ten_digits now" "x \<noteq> 0" "x \<le> REDIS_EXPIRE_TIME"
  shows "MetaSerialize now d x = digit_char (nat d) # CHR ''+'' # dec x @ dec now"
proof -
  have "x < 10 ^ 20" using assms(4) by (simp add: REDIS_EXPIRE_TIME_def)
  then have "length (dec x) \<le> 20" by (intro length_dec_le) auto
  then show ?thesis using assms length_dec_ten [of now]
    by (simp add: MetaSerialize_def dec_digit snprintf_buf_fits del: dec_int_nonneg)
qed

lemma MetaUnserialize_star:
  assumes "good_type d" "ten_digits now"
  shows "MetaUnserialize (digit_char (nat d) # ''*0000000000'' @ dec now)
    = Inr \<lparr>md_datatype = d, md_expire = 0, md_store_time = now\<rparr>"
  using assms length_dec_ten [of now] atoi_digit [of d] ten_digits_small [of now]
  by (simp add: MetaUnserialize_def dec_digit cstr_id del: dec_int_nonneg)

lemma MetaUnserialize_plus:
  assumes "good_type d" "10 \<le> length (e @ t)"
  shows "MetaUnserialize (digit_char (nat d) # CHR ''+'' # e @ t) =
    Inr \<lparr>md_datatype = d, md_expire = strtoull10 (cstr (take 10 (e @ t))),
         md_store_time = strtoull10 (cstr (take 10 (drop 10 (e @ t))))\<rparr>"
  using assms atoi_digit [of d]
  by (simp add: MetaUnserialize_def dec_digit eval_nat_numeral del: dec_int_nonneg)

lemma Meta_roundtrip_aux:
  assumes "good_type d" "good_expire x" "ten_digits now"
  shows "MetaUnserialize (MetaSerialize now d x)
    = Inr \<lparr>md_datatype = d, md_expire = x, md_store_time = now\<rparr>"
proof (cases "x = 0")
  case True
  then show ?thesis using assms MetaUnserialize_star [OF assms(1,3)] by (simp add: MetaSerialize_star)
next
  case False
  then have x: "ten_digits x" using assms by (simp add: good_expire_def)
  show ?thesis
    using assms False x length_dec_ten [OF x] length_dec_ten [OF assms(3)]
      ten_digits_small [OF x] ten_digits_small [OF assms(3)]
    by (simp add: MetaSerialize_plus MetaUnserialize_plus cstr_id)
qed

lemma MetaSerialize_parses:
  assumes "good_type d" "ten_digits now"
  shows "is_ok (MetaUnserialize (MetaSerialize now d x))"
proof (cases "x = 0 \<or> x > REDIS_EXPIRE_TIME")
  case True
  then show ?thesis using assms MetaUnserialize_star [OF assms] by (simp add: MetaSerialize_star)
next
  case False
  then show ?thesis using assms length_dec_ten [OF assms(2)]
    by (simp add: MetaSerialize_plus MetaUnserialize_plus)
qed

section \<open>Invariant and abstraction\<close>

definition meta_ok :: "GentDb \<Rightarrow> bool" where
  "meta_ok g \<longleftrightarrow> (\<forall>k m. DB_Get (gmeta g) k = Some m \<longrightarrow> key_fits k \<and> is_ok (MetaUnserialize m))"

definition GentDb_inv :: "GentDb \<Rightarrow> bool" where
  "GentDb_inv g \<longleftrightarrow> DB_inv (gdb g) \<and> DB_inv (gmeta g) \<and> meta_ok g"

text \<open>Both databases hold the same keys.\<close>

definition agree :: "GentDb \<Rightarrow> bool" where
  "agree g \<longleftrightarrow> (\<forall>k. DB_Get (gmeta g) k = None \<longleftrightarrow> DB_Get (gdb g) k = None)"

definition expire_of :: "GentDb \<Rightarrow> string \<Rightarrow> nat" where
  "expire_of g k = (case DB_Get (gmeta g) k of None \<Rightarrow> 0
     | Some m \<Rightarrow> (case MetaUnserialize m of Inl _ \<Rightarrow> 0 | Inr dat \<Rightarrow> md_expire dat))"

text \<open>The abstract store: a key has a value and an expiry time, 0 for none.\<close>

type_synonym store = "string \<rightharpoonup> string \<times> nat"

definition store_of :: "GentDb \<Rightarrow> store" where
  "store_of g k = map_option (\<lambda>v. (v, expire_of g k)) (DB_Get (gdb g) k)"

definition visible :: "nat \<Rightarrow> (string \<times> nat) option \<Rightarrow> string option" where
  "visible now r = (case r of None \<Rightarrow> None | Some (v, x) \<Rightarrow> if x \<noteq> 0 \<and> x < now then None else Some v)"

definition env_ok :: "db_env \<Rightarrow> bool" where
  "env_ok e \<longleftrightarrow> write_ok (env_db e) \<and> (\<forall>i. write_ok (env_meta e i)) \<and> ten_digits (env_now e)"

lemma GentDb_inv_parse:
  "GentDb_inv g \<Longrightarrow> DB_Get (gmeta g) k = Some m \<Longrightarrow>
     \<exists>dat. MetaUnserialize m = Inr dat \<and> expire_of g k = md_expire dat"
  by (fastforce simp: GentDb_inv_def meta_ok_def is_ok_iff expire_of_def)

lemma Get_visible:
  assumes "GentDb_inv g"
  shows "GentDb_Get now k g = Inr (visible now (store_of g k))"
proof (cases "DB_Get (gmeta g) k")
  case None
  then show ?thesis
    by (auto simp: GentDb_Get_def visible_def store_of_def expire_of_def split: option.splits)
next
  case (Some m)
  then show ?thesis using GentDb_inv_parse [OF assms Some]
    by (auto simp: GentDb_Get_def visible_def store_of_def split: option.splits)
qed

lemma SetNum_dbs [simp]:
  "gdb (SetNum fe n g) = gdb g" "gmeta (SetNum fe n g) = gmeta g" "key_num (SetNum fe n g) = key_num g"
  "write_num (SetNum fe n g) = write_num g" "is_clear (SetNum fe n g) = is_clear g"
  by (simp_all add: SetNum_def Let_def split: file_env.splits)

lemma meta_fits: "key_fits k \<Longrightarrow> pair_fits k (MetaSerialize now d x)"
  using length_MetaSerialize [of now d x] by (simp add: pair_fits_def key_fits_def)

lemma pair_fits_key: "pair_fits k v \<Longrightarrow> key_fits k"
  by (simp add: pair_fits_def key_fits_def)

lemma store_of_cong:
  "(\<And>k. DB_Get (gdb g) k = DB_Get (gdb h) k) \<Longrightarrow> (\<And>k. DB_Get (gmeta g) k = DB_Get (gmeta h) k) \<Longrightarrow>
     store_of g = store_of h"
  by (rule ext) (simp add: store_of_def expire_of_def)

lemma expire_of_update:
  "DB_Get (gmeta g) j = (if j = k then Some m else DB_Get (gmeta h) j) \<Longrightarrow>
     MetaUnserialize m = Inr dat \<Longrightarrow>
     expire_of g j = (if j = k then md_expire dat else expire_of h j)"
  by (simp add: expire_of_def)

section \<open>Put, BatchPut, Del\<close>

lemma Put_body_dbs:
  assumes "GentDb_inv g" "pair_fits k v"
  shows "fst (Put_body e k v x d g) \<longleftrightarrow> write_ok (env_db e)"
    and "gdb (snd (Put_body e k v x d g)) = snd (DB_Put (env_db e) k v (gdb g))"
    and "gmeta (snd (Put_body e k v x d g)) =
      (if write_ok (env_db e) then snd (DB_Put (env_meta e 0) k (MetaSerialize (env_now e) d x) (gmeta g))
       else gmeta g)"
    and "key_num (snd (Put_body e k v x d g)) =
      (if DB_Get (gmeta g) k = None then add64 (key_num g) 1 else key_num g)"
  using assms DB_Put_ops(1) [of "gdb g" k v "env_db e"]
  by (cases "DB_Put (env_db e) k v (gdb g)";
      simp add: Put_body_def Let_def GentDb_inv_def)+

lemma Put_body_get:
  assumes "GentDb_inv g" "pair_fits k v"
  shows "DB_Get (gdb (snd (Put_body e k v x d g))) j =
      (if write_ok (env_db e) \<and> j = k then Some v else DB_Get (gdb g) j)"
    and "DB_Get (gmeta (snd (Put_body e k v x d g))) j =
      (if write_ok (env_db e) \<and> write_ok (env_meta e 0) \<and> j = k
       then Some (MetaSerialize (env_now e) d x) else DB_Get (gmeta g) j)"
  using assms meta_fits [OF pair_fits_key [OF assms(2)]]
  by (simp_all add: Put_body_dbs GentDb_inv_def DB_Put_ops)

lemma Put_body_inv:
  assumes "GentDb_inv g" "pair_fits k v" "good_type d" "ten_digits (env_now e)"
  shows "GentDb_inv (snd (Put_body e k v x d g))"
proof -
  let ?g = "snd (Put_body e k v x d g)"
  have "DB_inv (gdb ?g)" "DB_inv (gmeta ?g)"
    using assms meta_fits [OF pair_fits_key [OF assms(2)]]
    by (simp_all add: Put_body_dbs DB_Put_ops GentDb_inv_def)
  moreover have "meta_ok ?g"
    using assms MetaSerialize_parses [OF assms(3,4), of x]
    by (auto simp: meta_ok_def Put_body_get GentDb_inv_def pair_fits_key)
  ultimately show ?thesis by (simp add: GentDb_inv_def)
qed

text \<open>The clearing check of the second \<open>Put\<close> touches neither database.\<close>

definition Put_check :: "db_env \<Rightarrow> GentDb \<Rightarrow> GentDb" where
  "Put_check e g = (if write_num g > MAX_WRITE_CLEAR \<and> \<not> is_clear g
     then (StartClear (env_thread e) g)\<lparr>write_num := 0\<rparr> else g)"

lemma GentDb_Put_check: "GentDb_Put e k v x d g = Put_body e k v x d (Put_check e g)"
  by (simp add: GentDb_Put_def Put_check_def Let_def)

lemma Put_check_dbs [simp]:
  "gdb (Put_check e g) = gdb g" "gmeta (Put_check e g) = gmeta g" "key_num (Put_check e g) = key_num g"
  by (simp_all add: Put_check_def StartClear_def)

lemma Put_check_inv [simp]: "GentDb_inv (Put_check e g) = GentDb_inv g" "agree (Put_check e g) = agree g"
  "store_of (Put_check e g) = store_of g"
  by (simp_all add: GentDb_inv_def meta_ok_def agree_def store_of_def expire_of_def fun_eq_iff)

lemma Put_body_store:
  assumes "GentDb_inv g" "pair_fits k v" "env_ok e" "good_type d" "good_expire x"
  shows "store_of (snd (Put_body e k v x d g)) = (store_of g)(k \<mapsto> (v, x))"
proof
  fix j
  have p: "MetaUnserialize (MetaSerialize (env_now e) d x) =
      Inr \<lparr>md_datatype = d, md_expire = x, md_store_time = env_now e\<rparr>"
    using assms by (simp add: Meta_roundtrip_aux env_ok_def)
  show "store_of (snd (Put_body e k v x d g)) j = ((store_of g)(k \<mapsto> (v, x))) j"
    using assms p by (simp add: store_of_def expire_of_def Put_body_get env_ok_def)
qed

lemma Put_body_agree:
  assumes "GentDb_inv g" "pair_fits k v" "env_ok e" "agree g"
  shows "agree (snd (Put_body e k v x d g))"
  using assms by (simp add: agree_def Put_body_get env_ok_def)

lemma BatchPut_meta_dbs [simp]:
  "gdb (BatchPut_meta e i data g) = gdb g" "key_num (BatchPut_meta e i data g) = key_num g"
  by (induction e i data g rule: BatchPut_meta.induct) simp_all

lemma BatchPut_meta_get:
  assumes "DB_inv (gmeta g)" "\<forall>p \<in> set data. key_fits (fst p)" "\<forall>i. write_ok (env_meta e i)"
  shows "DB_inv (gmeta (BatchPut_meta e i data g)) \<and>
    DB_Get (gmeta (BatchPut_meta e i data g)) j =
      (if j \<in> fst ` set data then Some (MetaSerialize (env_now e) 0 0) else DB_Get (gmeta g) j)"
  using assms
proof (induction e i data g rule: BatchPut_meta.induct)
  case (2 e i key val data g)
  then show ?case by (simp add: DB_Put_ops meta_fits)
qed simp

lemma BatchPut_dbs:
  assumes "GentDb_inv g" "\<forall>p \<in> set data. pair_fits (fst p) (snd p)" "env_ok e"
  shows "fst (BatchPut e data g)"
    and "DB_inv (gdb (snd (BatchPut e data g)))" and "DB_inv (gmeta (snd (BatchPut e data g)))"
    and "DB_Get (gdb (snd (BatchPut e data g))) j =
      (case map_of (rev data) j of Some v \<Rightarrow> Some v | None \<Rightarrow> DB_Get (gdb g) j)"
    and "DB_Get (gmeta (snd (BatchPut e data g))) j =
      (if j \<in> fst ` set data then Some (MetaSerialize (env_now e) 0 0) else DB_Get (gmeta g) j)"
    and "key_num (snd (BatchPut e data g)) = add64 (key_num g) (length data)"
proof -
  obtain ok db1 where w: "DB_put_all (env_db e) data (gdb g) = (ok, db1)" by fastforce
  have inv: "DB_inv (gdb g)" "DB_inv (gmeta g)" using assms(1) by (simp_all add: GentDb_inv_def)
  have kf: "\<forall>p \<in> set data. key_fits (fst p)" using assms(2) by (auto dest: pair_fits_key)
  have mo: "\<forall>i. write_ok (env_meta e i)" using assms(3) by (simp add: env_ok_def)
  note P = DB_put_all_ops [OF inv(1) assms(2), of "env_db e"]
  have ok: "ok" using P(1) w assms(3) by (simp add: env_ok_def)
  let ?g1 = "g\<lparr>gdb := db1\<rparr>"
  note M = BatchPut_meta_get [of ?g1 data e 0, simplified, OF inv(2) kf mo]
  show "fst (BatchPut e data g)" "DB_inv (gdb (snd (BatchPut e data g)))"
    "DB_inv (gmeta (snd (BatchPut e data g)))"
    "key_num (snd (BatchPut e data g)) = add64 (key_num g) (length data)"
    using w ok P(2) M by (simp_all add: BatchPut_def Let_def)
  show "DB_Get (gdb (snd (BatchPut e data g))) j =
      (case map_of (rev data) j of Some v \<Rightarrow> Some v | None \<Rightarrow> DB_Get (gdb g) j)"
    using w ok P(3) [of j] assms(3) by (simp add: BatchPut_def Let_def env_ok_def)
  show "DB_Get (gmeta (snd (BatchPut e data g))) j =
      (if j \<in> fst ` set data then Some (MetaSerialize (env_now e) 0 0) else DB_Get (gmeta g) j)"
    using w ok M [of j] by (simp add: BatchPut_def Let_def)
qed

lemma BatchPut_inv:
  assumes "GentDb_inv g" "\<forall>p \<in> set data. pair_fits (fst p) (snd p)" "env_ok e"
  shows "GentDb_inv (snd (BatchPut e data g))"
proof -
  have "is_ok (MetaUnserialize (MetaSerialize (env_now e) 0 0))"
    using assms(3) by (intro MetaSerialize_parses) (simp_all add: env_ok_def good_type_def)
  then have "meta_ok (snd (BatchPut e data g))"
    using assms(1,2)
    by (auto simp: meta_ok_def BatchPut_dbs [OF assms] GentDb_inv_def dest: pair_fits_key split: if_splits)
  then show ?thesis using BatchPut_dbs [OF assms] by (simp add: GentDb_inv_def)
qed

lemma map_of_rev_None: "map_of (rev data) j = None \<longleftrightarrow> j \<notin> fst ` set data"
  by (simp add: map_of_eq_None_iff)

lemma BatchPut_store_agree:
  assumes "GentDb_inv g" "\<forall>p \<in> set data. pair_fits (fst p) (snd p)" "env_ok e"
  shows "store_of (snd (BatchPut e data g)) j =
      (case map_of (rev data) j of Some v \<Rightarrow> Some (v, 0) | None \<Rightarrow> store_of g j)"
    and "agree g \<Longrightarrow> agree (snd (BatchPut e data g))"
proof -
  have p: "MetaUnserialize (MetaSerialize (env_now e) 0 0) =
      Inr \<lparr>md_datatype = 0, md_expire = 0, md_store_time = env_now e\<rparr>"
    using assms(3) by (intro Meta_roundtrip_aux) (simp_all add: env_ok_def good_type_def good_expire_def)
  show "store_of (snd (BatchPut e data g)) j =
      (case map_of (rev data) j of Some v \<Rightarrow> Some (v, 0) | None \<Rightarrow> store_of g j)"
  proof (cases "map_of (rev data) j")
    case None
    then show ?thesis using map_of_rev_None [of data j]
      by (simp add: store_of_def expire_of_def BatchPut_dbs [OF assms])
  next
    case (Some v)
    then have "j \<in> fst ` set data" using map_of_rev_None [of data j] by auto
    then show ?thesis using Some p by (simp add: store_of_def expire_of_def BatchPut_dbs [OF assms])
  qed
  show "agree (snd (BatchPut e data g))" if "agree g"
    unfolding agree_def
  proof
    fix k
    show "DB_Get (gmeta (snd (BatchPut e data g))) k = None \<longleftrightarrow> DB_Get (gdb (snd (BatchPut e data g))) k = None"
      using that map_of_rev_None [of data k]
      by (auto simp: agree_def BatchPut_dbs [OF assms] split: option.splits)
  qed
qed

lemma Del_dbs:
  assumes "GentDb_inv g" "key_fits k"
  shows "fst (GentDb_Del e k g) \<longleftrightarrow> write_ok (env_db e)"
    and "gdb (snd (GentDb_Del e k g)) = snd (DB_Delete (env_db e) k (gdb g))"
    and "gmeta (snd (GentDb_Del e k g)) =
      (if write_ok (env_db e) then snd (DB_Delete (env_meta e 0) k (gmeta g)) else gmeta g)"
    and "key_num (snd (GentDb_Del e k g)) =
      (if write_ok (env_db e) \<and> key_num g > 0 then key_num g - 1 else key_num g)"
  using assms DB_Delete_ops(1) [of "gdb g" k "env_db e"]
  by (cases "DB_Delete (env_db e) k (gdb g)"; simp add: GentDb_Del_def Let_def GentDb_inv_def)+

lemma Del_get:
  assumes "GentDb_inv g" "key_fits k"
  shows "DB_Get (gdb (snd (GentDb_Del e k g))) j =
      (if write_ok (env_db e) \<and> j = k then None else DB_Get (gdb g) j)"
    and "DB_Get (gmeta (snd (GentDb_Del e k g))) j =
      (if write_ok (env_db e) \<and> write_ok (env_meta e 0) \<and> j = k then None else DB_Get (gmeta g) j)"
  using assms by (simp_all add: Del_dbs GentDb_inv_def DB_Delete_ops)

lemma Del_inv:
  assumes "GentDb_inv g" "key_fits k"
  shows "GentDb_inv (snd (GentDb_Del e k g))"
proof -
  have "DB_inv (gdb (snd (GentDb_Del e k g)))" "DB_inv (gmeta (snd (GentDb_Del e k g)))"
    using assms by (simp_all add: Del_dbs DB_Delete_ops GentDb_inv_def)
  moreover have "meta_ok (snd (GentDb_Del e k g))"
    using assms by (auto simp: meta_ok_def Del_get GentDb_inv_def split: if_splits)
  ultimately show ?thesis by (simp add: GentDb_inv_def)
qed

lemma Del_store_agree:
  assumes "GentDb_inv g" "key_fits k" "write_ok (env_db e)" "write_ok (env_meta e 0)"
  shows "store_of (snd (GentDb_Del e k g)) = (store_of g)(k := None)"
    and "agree g \<Longrightarrow> agree (snd (GentDb_Del e k g))"
  using assms by (auto simp: fun_eq_iff store_of_def expire_of_def agree_def Del_get)

section \<open>Clearing\<close>

definition expired_entry :: "nat \<Rightarrow> string \<times> string \<Rightarrow> bool" where
  "expired_entry now kv \<longleftrightarrow> (case MetaUnserialize (snd kv) of
      Inl _ \<Rightarrow> False | Inr dat \<Rightarrow> md_expire dat \<noteq> 0 \<and> md_expire dat \<le> now)"

definition del_env_ok :: "db_env \<Rightarrow> bool" where
  "del_env_ok e \<longleftrightarrow> write_ok (env_db e) \<and> write_ok (env_meta e 0)"

lemma Clear_loop_ok:
  assumes "GentDb_inv g" "\<forall>kv \<in> set it. key_fits (fst kv) \<and> is_ok (MetaUnserialize (snd kv))"
    and "\<forall>i. del_env_ok (e i)"
  shows "\<exists>g'. Clear_loop e now i it num g = Inr (num + length (filter (expired_entry now) it), g') \<and>
    GentDb_inv g' \<and> is_clear g' = is_clear g \<and>
    (\<forall>j. DB_Get (gdb g') j =
      (if j \<in> fst ` set (filter (expired_entry now) it) then None else DB_Get (gdb g) j)) \<and>
    (\<forall>j. DB_Get (gmeta g') j =
      (if j \<in> fst ` set (filter (expired_entry now) it) then None else DB_Get (gmeta g) j))"
  using assms
proof (induction it arbitrary: i num g)
  case (Cons kv it)
  obtain dat where dat: "MetaUnserialize (snd kv) = Inr dat" using Cons.prems(2) by (auto simp: is_ok_iff)
  have kf: "key_fits (fst kv)" using Cons.prems(2) by simp
  show ?case
  proof (cases "expired_entry now kv")
    case True
    let ?d = "snd (GentDb_Del (e i) (fst kv) g)"
    have inv: "GentDb_inv ?d" using Cons.prems(1) kf by (rule Del_inv)
    have ok: "write_ok (env_db (e i))" "write_ok (env_meta (e i) 0)"
      using Cons.prems(3) by (simp_all add: del_env_ok_def)
    have "is_clear ?d = is_clear g"
      by (simp add: GentDb_Del_def Let_def split: prod.split)
    moreover have "Clear_loop e now i (kv # it) num g = Clear_loop e now (i + 1) it (num + 1) ?d"
      using True dat by (simp add: expired_entry_def)
    ultimately show ?thesis
      using Cons.IH [OF inv _ Cons.prems(3), of "i + 1" "num + 1"] Cons.prems(2) True
        Del_get [OF Cons.prems(1) kf, of "e i"] ok
      by auto
  next
    case False
    then have "Clear_loop e now i (kv # it) num g = Clear_loop e now (i + 1) it num g"
      using dat by (auto simp: expired_entry_def)
    then show ?thesis using Cons.IH [OF Cons.prems(1) _ Cons.prems(3), of "i + 1" num] Cons.prems(2) False
      by auto
  qed
qed simp

definition expired :: "nat \<Rightarrow> GentDb \<Rightarrow> string \<Rightarrow> bool" where
  "expired now g k \<longleftrightarrow> expire_of g k \<noteq> 0 \<and> expire_of g k \<le> now"

lemma expired_keys:
  assumes "GentDb_inv g"
  shows "fst ` set (filter (expired_entry now) (DB_entries (gmeta g))) = {k. expired now g k}"
proof -
  have m: "(k, v) \<in> set (DB_entries (gmeta g)) \<longleftrightarrow> DB_Get (gmeta g) k = Some v" for k v
    using assms by (intro ldb.entries_mem) (simp add: GentDb_inv_def)
  have "k \<in> fst ` set (filter (expired_entry now) (DB_entries (gmeta g))) \<longleftrightarrow>
      (\<exists>v. DB_Get (gmeta g) k = Some v \<and> expired_entry now (k, v))" for k
    using m by force
  also have "\<dots> k \<longleftrightarrow> expired now g k" for k
    by (auto simp: expired_def expired_entry_def expire_of_def split: option.splits sum.splits)
  finally show ?thesis by auto
qed

lemma ClearExpireKey_ok:
  assumes "GentDb_inv g" "\<forall>i. del_env_ok (e i)"
  shows "\<exists>g'. ClearExpireKey e now g = Inr (card {k. expired now g k}, g') \<and> GentDb_inv g' \<and> \<not> is_clear g' \<and>
    (\<forall>j. DB_Get (gdb g') j = (if expired now g j then None else DB_Get (gdb g) j)) \<and>
    (\<forall>j. DB_Get (gmeta g') j = (if expired now g j then None else DB_Get (gmeta g) j))"
proof -
  let ?it = "DB_entries (gmeta g)" and ?g0 = "g\<lparr>is_clear := True\<rparr>"
  let ?x = "filter (expired_entry now) ?it"
  have inv: "DB_inv (gmeta g)" "GentDb_inv ?g0"
    using assms(1) by (simp_all add: GentDb_inv_def meta_ok_def)
  have it: "\<forall>kv \<in> set ?it. key_fits (fst kv) \<and> is_ok (MetaUnserialize (snd kv))"
    using assms(1) ldb.entries_mem [OF inv(1)] by (auto simp: GentDb_inv_def meta_ok_def)
  have "distinct (map fst ?x)"
    using ldb.entries_distinct [OF inv(1)] by (rule distinct_map_filter)
  then have "card {k. expired now g k} = length ?x"
    using expired_keys [OF assms(1), of now] distinct_card [of "map fst ?x"] by simp
  moreover obtain g' where g': "Clear_loop e now 0 ?it 0 ?g0 = Inr (length ?x, g')" "GentDb_inv g'"
    "\<forall>j. DB_Get (gdb g') j = (if j \<in> fst ` set ?x then None else DB_Get (gdb g) j)"
    "\<forall>j. DB_Get (gmeta g') j = (if j \<in> fst ` set ?x then None else DB_Get (gmeta g) j)"
    using Clear_loop_ok [OF inv(2) it assms(2), of now 0 0] by auto
  ultimately show ?thesis
    using expired_keys [OF assms(1), of now]
    by (auto simp: ClearExpireKey_def GentDb_inv_def meta_ok_def)
qed

section \<open>Prefix scans\<close>

definition has_prefix :: "string \<Rightarrow> string \<Rightarrow> bool" where
  "has_prefix pre k \<longleftrightarrow> take (length pre) k = pre"

lemma prefix_convex:
  "has_prefix p a \<Longrightarrow> has_prefix p c \<Longrightarrow> a \<le> b \<Longrightarrow> b \<le> c \<Longrightarrow> has_prefix p b"
proof (induction p arbitrary: a b c)
  case (Cons x p)
  obtain a' where a: "a = x # a'" "has_prefix p a'" using Cons.prems(1) by (cases a) (auto simp: has_prefix_def)
  obtain c' where c: "c = x # c'" "has_prefix p c'" using Cons.prems(2) by (cases c) (auto simp: has_prefix_def)
  obtain y b' where b: "b = y # b'" using Cons.prems(3) a(1) by (cases b) auto
  have "y = x" "a' \<le> b'" "b' \<le> c'" using Cons.prems(3,4) a(1) b c(1) by auto
  then show ?case using Cons.IH [OF a(2) c(2)] b by (simp add: has_prefix_def)
qed (simp add: has_prefix_def)

lemma convex_scan:
  assumes "sorted_wrt (<) (map fst it)"
    and "\<And>a b c. P a \<Longrightarrow> P c \<Longrightarrow> a \<le> b \<Longrightarrow> b \<le> c \<Longrightarrow> P (b::'a::linorder)"
  shows "takeWhile (\<lambda>kv. P (fst kv)) (dropWhile (\<lambda>kv. \<not> P (fst kv)) it) = filter (\<lambda>kv. P (fst kv)) it"
proof -
  have tw: "takeWhile (\<lambda>kv. P (fst kv)) it = filter (\<lambda>kv. P (fst kv)) it"
    if "sorted_wrt (<) (map fst it)" "\<forall>kv \<in> set it. a \<le> fst kv" "P a" for a it
    using that
  proof (induction it)
    case (Cons kv it)
    show ?case
    proof (cases "P (fst kv)")
      case False
      have "\<not> P (fst q)" if "q \<in> set it" for q
        using assms(2) [of a "fst q" "fst kv"] Cons.prems False that by fastforce
      then show ?thesis using False by simp
    qed (use Cons in simp)
  qed simp
  show ?thesis using assms(1)
  proof (induction it)
    case (Cons kv it)
    show ?case
    proof (cases "P (fst kv)")
      case True
      then show ?thesis using tw [of "kv # it" "fst kv"] Cons.prems by (force simp: less_imp_le)
    qed (use Cons in simp)
  qed simp
qed

lemma Keys_loop_eq:
  "pre \<noteq> ''*'' \<Longrightarrow> Keys_loop pre first out it =
     out @ map fst (takeWhile (\<lambda>kv. has_prefix pre (fst kv))
       (if first then dropWhile (\<lambda>kv. \<not> has_prefix pre (fst kv)) it else it))"
  by (induction pre first out it rule: Keys_loop.induct) (auto simp: has_prefix_def)

lemma Keys_loop_star: "Keys_loop ''*'' first out it = out @ map fst it"
  by (induction it arbitrary: out) auto

lemma Keys_filter:
  assumes "GentDb_inv g"
  shows "Keys pre g = filter (\<lambda>k. pre = ''*'' \<or> has_prefix pre k) (map fst (DB_entries (gmeta g)))"
proof (cases "pre = ''*''")
  case True
  then show ?thesis by (simp add: Keys_def Keys_loop_star)
next
  case False
  have "sorted_wrt (<) (map fst (DB_entries (gmeta g)))"
    using assms by (intro ldb.entries_sorted) (simp add: GentDb_inv_def)
  from convex_scan [OF this, of "has_prefix pre"] prefix_convex
  have "takeWhile (\<lambda>kv. has_prefix pre (fst kv))
      (dropWhile (\<lambda>kv. \<not> has_prefix pre (fst kv)) (DB_entries (gmeta g)))
      = filter (\<lambda>kv. has_prefix pre (fst kv)) (DB_entries (gmeta g))" by blast
  then show ?thesis using False by (simp add: Keys_def Keys_loop_eq filter_map comp_def)
qed

lemma Count_loop_eq:
  "pre \<noteq> [] \<Longrightarrow> Count_loop pre first n it = n +
     length (takeWhile (\<lambda>kv. has_prefix pre (fst kv))
       (if \<not> first then dropWhile (\<lambda>kv. \<not> has_prefix pre (fst kv)) it else it))"
  by (induction pre first n it rule: Count_loop.induct) (auto simp: has_prefix_def)

lemma Count_loop_all: "Count_loop [] first n it = n + length it"
  by (induction it arbitrary: n) auto

lemma Count_scan:
  assumes "GentDb_inv g"
  shows "Count_loop pre False 0 (DB_entries (gmeta g)) =
    length (filter (has_prefix pre) (map fst (DB_entries (gmeta g))))"
proof (cases "pre = []")
  case True
  then show ?thesis by (simp add: Count_loop_all has_prefix_def)
next
  case False
  have "sorted_wrt (<) (map fst (DB_entries (gmeta g)))"
    using assms by (intro ldb.entries_sorted) (simp add: GentDb_inv_def)
  from convex_scan [OF this, of "has_prefix pre"] prefix_convex
  have "takeWhile (\<lambda>kv. has_prefix pre (fst kv))
      (dropWhile (\<lambda>kv. \<not> has_prefix pre (fst kv)) (DB_entries (gmeta g)))
      = filter (\<lambda>kv. has_prefix pre (fst kv)) (DB_entries (gmeta g))" by blast
  then show ?thesis using False by (simp add: Count_loop_eq filter_map comp_def)
qed

lemma Random_loop_mem: "it \<noteq> [] \<Longrightarrow> ni < length it + i \<Longrightarrow> Random_loop ni i it \<in> fst ` set it"
proof (induction it arbitrary: i)
  case (Cons kv it)
  then show ?case by (cases "it = []") auto
qed simp

section \<open>Sequences of operations, failed writes included\<close>

datatype db_op =
    Op_Put db_env string string nat int
  | Op_BatchPut db_env "(string, string) smap"
  | Op_Del db_env string
  | Op_Clear "nat \<Rightarrow> db_env" nat

fun db_step :: "db_op \<Rightarrow> GentDb \<Rightarrow> GentDb res" where
  "db_step (Op_Put e k v x d) g = Inr (snd (GentDb_Put e k v x d g))"
| "db_step (Op_BatchPut e data) g = Inr (snd (BatchPut e data g))"
| "db_step (Op_Del e k) g = Inr (snd (GentDb_Del e k g))"
| "db_step (Op_Clear e now) g = rbind (ClearExpireKey e now g) (\<lambda>(num, g'). Inr g')"

fun db_run :: "db_op list \<Rightarrow> GentDb \<Rightarrow> GentDb res" where
  "db_run [] g = Inr g"
| "db_run (x # xs) g = rbind (db_step x g) (db_run xs)"

fun op_ok :: "db_op \<Rightarrow> bool" where
  "op_ok (Op_Put e k v x d) \<longleftrightarrow> pair_fits k v \<and> good_type d \<and> ten_digits (env_now e)"
| "op_ok (Op_BatchPut e data) \<longleftrightarrow> (\<forall>p \<in> set data. pair_fits (fst p) (snd p)) \<and> ten_digits (env_now e)"
| "op_ok (Op_Del e k) \<longleftrightarrow> key_fits k"
| "op_ok (Op_Clear e now) \<longleftrightarrow> True"

lemma BatchPut_meta_inv:
  assumes "GentDb_inv g" "\<forall>p \<in> set data. key_fits (fst p)" "ten_digits (env_now e)"
  shows "GentDb_inv (BatchPut_meta e i data g)"
  using assms
proof (induction e i data g rule: BatchPut_meta.induct)
  case (2 e i key val data g)
  let ?g = "g\<lparr>gmeta := snd (DB_Put (env_meta e i) key (MetaSerialize (env_now e) 0 0) (gmeta g)),
          write_num := add64 (write_num g) 1,
          trigger_num_save := to_i32 (trigger_num_save g + 1)\<rparr>"
  have "pair_fits key (MetaSerialize (env_now e) 0 0)" using "2.prems"(2) by (simp add: meta_fits)
  moreover have "is_ok (MetaUnserialize (MetaSerialize (env_now e) 0 0))"
    using "2.prems"(3) by (intro MetaSerialize_parses) (simp_all add: good_type_def)
  ultimately have "GentDb_inv ?g"
    using "2.prems"(1,2) by (auto simp: GentDb_inv_def meta_ok_def DB_Put_ops split: if_splits)
  then show ?case using "2.IH" "2.prems"(2,3) by simp
qed simp

lemma SetNum_inv [simp]: "GentDb_inv (SetNum fe n g) = GentDb_inv g"
  by (simp add: GentDb_inv_def meta_ok_def)

lemma BatchPut_inv_any:
  assumes "GentDb_inv g" "\<forall>p \<in> set data. pair_fits (fst p) (snd p)" "ten_digits (env_now e)"
  shows "GentDb_inv (snd (BatchPut e data g))"
proof -
  obtain ok db1 where w: "DB_put_all (env_db e) data (gdb g) = (ok, db1)" by fastforce
  have "DB_inv db1"
    using DB_put_all_ops(2) [of "gdb g" data "env_db e"] assms(1,2) w by (simp add: GentDb_inv_def)
  then have g1: "GentDb_inv (g\<lparr>gdb := db1\<rparr>)" using assms(1) by (simp add: GentDb_inv_def meta_ok_def)
  have kf: "\<forall>p \<in> set data. key_fits (fst p)" using assms(2) by (auto dest: pair_fits_key)
  have upd: "GentDb_inv (g'\<lparr>key_num := n\<rparr>) = GentDb_inv g'" for g' n
    by (simp add: GentDb_inv_def meta_ok_def)
  show ?thesis using w g1 BatchPut_meta_inv [OF g1 kf assms(3)] by (simp add: BatchPut_def Let_def upd)
qed

lemma Clear_loop_total:
  assumes "GentDb_inv g" "\<forall>kv \<in> set it. key_fits (fst kv) \<and> is_ok (MetaUnserialize (snd kv))"
  shows "\<exists>n g'. Clear_loop e now i it num g = Inr (n, g') \<and> GentDb_inv g'"
  using assms
proof (induction it arbitrary: i num g)
  case (Cons kv it)
  obtain dat where dat: "MetaUnserialize (snd kv) = Inr dat" using Cons.prems(2) by (auto simp: is_ok_iff)
  have "GentDb_inv (snd (GentDb_Del (e i) (fst kv) g))" using Cons.prems by (intro Del_inv) auto
  then show ?case using Cons dat by simp
qed simp

lemma ClearExpireKey_total:
  assumes "GentDb_inv g"
  shows "\<exists>n g'. ClearExpireKey e now g = Inr (n, g') \<and> GentDb_inv g'"
proof -
  have inv: "DB_inv (gmeta g)" "GentDb_inv (g\<lparr>is_clear := True\<rparr>)"
    using assms by (simp_all add: GentDb_inv_def meta_ok_def)
  have "\<forall>kv \<in> set (DB_entries (gmeta g)). key_fits (fst kv) \<and> is_ok (MetaUnserialize (snd kv))"
    using assms ldb.entries_mem [OF inv(1)] by (auto simp: GentDb_inv_def meta_ok_def)
  from Clear_loop_total [OF inv(2) this, of e now 0 0]
  show ?thesis by (auto simp: ClearExpireKey_def GentDb_inv_def meta_ok_def)
qed

lemma db_step_inv:
  assumes "GentDb_inv g" "op_ok x"
  shows "\<exists>g'. db_step x g = Inr g' \<and> GentDb_inv g'"
proof (cases x)
  case (Op_Clear e now)
  then show ?thesis using ClearExpireKey_total [OF assms(1), of e now] by auto
qed (use assms in \<open>simp_all add: GentDb_Put_check Put_body_inv BatchPut_inv_any Del_inv\<close>)

lemma db_run_inv:
  "GentDb_inv g \<Longrightarrow> list_all op_ok xs \<Longrightarrow> \<exists>g'. db_run xs g = Inr g' \<and> GentDb_inv g'"
proof (induction xs arbitrary: g)
  case (Cons x xs)
  then show ?case using db_step_inv [of g x] by auto
qed simp

section \<open>The key counter\<close>

definition counter_ok :: "GentDb \<Rightarrow> bool" where
  "counter_ok g \<longleftrightarrow> key_num g = length (DB_entries (gmeta g))"

lemma counter_card:
  "GentDb_inv g \<Longrightarrow> length (DB_entries (gmeta g)) = card {k. DB_Get (gmeta g) k \<noteq> None}"
  using ldb.card_keys [of "gmeta g"] by (simp add: GentDb_inv_def)

lemma Put_body_counter:
  assumes "GentDb_inv g" "pair_fits k v" "env_ok e" "counter_ok g" "key_num g + 1 < 2 ^ 64"
  shows "counter_ok (snd (Put_body e k v x d g))"
  using assms meta_fits [OF pair_fits_key [OF assms(2)], of "env_now e" d x]
  by (simp add: counter_ok_def Put_body_dbs env_ok_def ldb.length_put GentDb_inv_def)

lemma Del_counter:
  assumes "GentDb_inv g" "key_fits k" "write_ok (env_db e)" "write_ok (env_meta e 0)"
    and "counter_ok g" "DB_Get (gmeta g) k \<noteq> None"
  shows "counter_ok (snd (GentDb_Del e k g))"
  using assms by (auto simp: counter_ok_def Del_dbs ldb.length_del GentDb_inv_def)

section \<open>Properties\<close>

text \<open>A database with no keys, and an environment in which every write succeeds.\<close>

definition db0 :: GentDb where
  "db0 = GentDb_new DB_empty DB_empty None"

definition env0 :: db_env where
  "env0 = \<lparr>env_db = \<lparr>env_room = RoomFits, env_log = True, env_bytes = length\<rparr>,
     env_meta = (\<lambda>_. \<lparr>env_room = RoomSwitch, env_log = True, env_bytes = length\<rparr>),
     env_file = FileOk, env_thread = True, env_now = 1400000000\<rparr>"

lemma db0_simps [simp]:
  "GentDb_inv db0" "agree db0" "gdb db0 = DB_empty" "gmeta db0 = DB_empty" "key_num db0 = 0" "counter_ok db0"
  "store_of db0 = Map.empty"
  by (simp_all add: db0_def GentDb_new_def GentDb_inv_def meta_ok_def agree_def counter_ok_def store_of_def fun_eq_iff)

lemma env0_ok [simp]: "env_ok env0" "del_env_ok env0"
  by (simp_all add: env_ok_def env0_def write_ok_def ten_digits_def del_env_ok_def)

text \<open>
  C5: a successful \<open>Put\<close> stores the value with its expiry time and nothing else changes: the
  pair of databases, seen as a map from keys to values with expiry times, is updated at
  the key, the invariant is kept, and a \<open>Get\<close> at any later time returns the value until
  the expiry time has passed.
\<close>

theorem GentDb_Put_refines:
  assumes "GentDb_inv g" "pair_fits k v" "env_ok e" "good_type d" "good_expire x"
  shows "fst (GentDb_Put e k v x d g) \<and>
    GentDb_inv (snd (GentDb_Put e k v x d g)) \<and>
    store_of (snd (GentDb_Put e k v x d g)) = (store_of g)(k \<mapsto> (v, x)) \<and>
    GentDb_Get now k (snd (GentDb_Put e k v x d g)) = Inr (if x \<noteq> 0 \<and> x < now then None else Some v)"
proof -
  let ?g = "snd (GentDb_Put e k v x d g)"
  have inv: "GentDb_inv ?g"
    using assms by (simp add: GentDb_Put_check Put_body_inv env_ok_def)
  have st: "store_of ?g = (store_of g)(k \<mapsto> (v, x))"
    using assms by (simp add: GentDb_Put_check Put_body_store)
  have "fst (GentDb_Put e k v x d g)"
    using assms by (simp add: GentDb_Put_check Put_body_dbs env_ok_def)
  then show ?thesis using inv st Get_visible [OF inv, of now k] by (simp add: visible_def)
qed

theorem GentDb_Put_refines_witness:
  "GentDb_inv db0 \<and> pair_fits ''a'' ''1'' \<and> good_expire 1500000000 \<and>
   GentDb_Get 1500000001 ''a'' (snd (GentDb_Put env0 ''a'' ''1'' 1500000000 0 db0)) = Inr None \<and>
   GentDb_Get 1500000000 ''a'' (snd (GentDb_Put env0 ''a'' ''1'' 1500000000 0 db0)) = Inr (Some ''1'')"
  using GentDb_Put_refines [of db0 "''a''" "''1''" env0 0 1500000000 1500000001]
    GentDb_Put_refines [of db0 "''a''" "''1''" env0 0 1500000000 1500000000]
  by (simp add: pair_fits_def good_type_def good_expire_def ten_digits_def)

lemma BatchPut_store:
  assumes "GentDb_inv g" "\<forall>p \<in> set data. pair_fits (fst p) (snd p)" "env_ok e"
  shows "store_of (snd (BatchPut e data g)) = store_of g ++ (map_option (\<lambda>v. (v, 0)) \<circ> map_of (rev data))"
proof (rule ext)
  show "store_of (snd (BatchPut e data g)) j = (store_of g ++ (map_option (\<lambda>v. (v, 0)) \<circ> map_of (rev data))) j" for j
    using BatchPut_store_agree(1) [OF assms, of j] by (simp add: map_add_def split: option.split)
qed

text \<open>
  C20: a successful \<open>BatchPut\<close> stores every pair of the batch without an expiry time and leaves
  the other keys as they were.
\<close>

theorem BatchPut_refines:
  assumes "GentDb_inv g" "\<forall>p \<in> set data. pair_fits (fst p) (snd p)" "env_ok e"
  shows "fst (BatchPut e data g) \<and> GentDb_inv (snd (BatchPut e data g)) \<and>
    store_of (snd (BatchPut e data g)) = store_of g ++ (map_option (\<lambda>v. (v, 0)) \<circ> map_of (rev data))"
  using BatchPut_dbs(1) [OF assms] BatchPut_inv [OF assms] BatchPut_store [OF assms] by simp

theorem BatchPut_refines_witness:
  "GentDb_inv db0 \<and>
   store_of (snd (BatchPut env0 [(''a'', ''1''), (''b'', ''2'')] db0)) ''b'' = Some (''2'', 0)"
  using BatchPut_refines [of db0 "[(''a'', ''1''), (''b'', ''2'')]" env0]
  by (simp add: pair_fits_def map_add_def)

text \<open>C21: a successful \<open>Del\<close> removes the key from both databases and nothing else.\<close>

theorem GentDb_Del_refines:
  assumes "GentDb_inv g" "key_fits k" "env_ok e"
  shows "fst (GentDb_Del e k g) \<and> GentDb_inv (snd (GentDb_Del e k g)) \<and>
    store_of (snd (GentDb_Del e k g)) = (store_of g)(k := None) \<and>
    (agree g \<longrightarrow> agree (snd (GentDb_Del e k g))) \<and>
    GentDb_Get now k (snd (GentDb_Del e k g)) = Inr None"
proof -
  have ok: "write_ok (env_db e)" "write_ok (env_meta e 0)" using assms(3) by (simp_all add: env_ok_def)
  have inv: "GentDb_inv (snd (GentDb_Del e k g))" using assms(1,2) by (rule Del_inv)
  show ?thesis
    using Del_store_agree [OF assms(1,2) ok] Del_dbs(1) [OF assms(1,2), of e] ok inv Get_visible [OF inv, of now k]
    by (simp add: visible_def)
qed

theorem GentDb_Del_refines_witness:
  "GentDb_inv db0 \<and> key_fits ''a'' \<and> GentDb_Get 1400000000 ''a'' (snd (GentDb_Del env0 ''a'' db0)) = Inr None"
  using GentDb_Del_refines [of db0 "''a''" env0 1400000000] by (simp add: key_fits_def)

text \<open>
  C19: \<open>ClearExpireKey\<close> removes exactly the keys whose expiry time is set and not after \<open>now\<close>,
  returns their number, keeps every other key with its value and expiry time, and resets
  \<open>is_clear\<close>.
\<close>

theorem ClearExpireKey_exact:
  assumes "GentDb_inv g" "\<forall>i. del_env_ok (e i)"
  shows "\<exists>g'. ClearExpireKey e now g = Inr (card {k. expired now g k}, g') \<and> GentDb_inv g' \<and> \<not> is_clear g' \<and>
    store_of g' = (\<lambda>k. if expired now g k then None else store_of g k)"
proof -
  obtain g' where g': "ClearExpireKey e now g = Inr (card {k. expired now g k}, g')" "GentDb_inv g'" "\<not> is_clear g'"
    "\<forall>j. DB_Get (gdb g') j = (if expired now g j then None else DB_Get (gdb g) j)"
    "\<forall>j. DB_Get (gmeta g') j = (if expired now g j then None else DB_Get (gmeta g) j)"
    using ClearExpireKey_ok [OF assms, of now] by blast
  have "store_of g' k = (if expired now g k then None else store_of g k)" for k
    using g'(4,5) by (simp add: store_of_def expire_of_def)
  then show ?thesis using g'(1-3) by auto
qed

theorem ClearExpireKey_exact_witness:
  "GentDb_inv db0 \<and> (\<exists>g'. ClearExpireKey (\<lambda>_. env0) 1400000000 db0 = Inr (card {k. expired 1400000000 db0 k}, g'))"
  using ClearExpireKey_exact [of db0 "\<lambda>_. env0" 1400000000] by auto

text \<open>
  At the second at which a key expires the two notions of expiry differ: \<open>Get\<close> still
  returns the value (it hides a key when \<open>expire < now\<close>), and \<open>ClearExpireKey\<close> run at that
  second deletes it (it deletes when \<open>expire \<le> now\<close>).
\<close>

lemma expiry_boundary:
  assumes "GentDb_inv g" "\<forall>i. del_env_ok (e i)" "store_of g k = Some (v, now)" "now \<noteq> 0"
  shows "GentDb_Get now k g = Inr (Some v) \<and>
    (\<exists>n g'. ClearExpireKey e now g = Inr (n, g') \<and> GentDb_Get now k g' = Inr None)"
proof -
  obtain g' where g': "ClearExpireKey e now g = Inr (card {k. expired now g k}, g')" "GentDb_inv g'"
    "\<forall>j. DB_Get (gdb g') j = (if expired now g j then None else DB_Get (gdb g) j)"
    using ClearExpireKey_ok [OF assms(1,2), of now] by blast
  have x: "expired now g k" using assms(3,4) by (auto simp: expired_def store_of_def)
  have "GentDb_Get now k g' = Inr None"
    using Get_visible [OF g'(2), of now k] g'(3) x by (simp add: visible_def store_of_def)
  then show ?thesis using g'(1) Get_visible [OF assms(1), of now k] assms(3) by (simp add: visible_def)
qed

text \<open>
  C24: \<open>Keys\<close> returns, in increasing order and without repetition, exactly the stored keys that
  start with the pattern, and all keys for the pattern \<open>*\<close>; stopping at the first key
  after the matching run loses nothing, because LevelDB iterates in key order.
\<close>

theorem Keys_exact:
  assumes "GentDb_inv g"
  shows "set (Keys pre g) = {k. DB_Get (gmeta g) k \<noteq> None \<and> (pre = ''*'' \<or> has_prefix pre k)} \<and>
    sorted_wrt (<) (Keys pre g)"
proof -
  have inv: "DB_inv (gmeta g)" using assms by (simp add: GentDb_inv_def)
  show ?thesis
    using ldb.keys_get [OF inv] ldb.sorted_filter_keys [OF inv, of "\<lambda>k. pre = ''*'' \<or> has_prefix pre k"]
    by (auto simp: Keys_filter [OF assms] simp del: set_map)
qed

theorem Keys_exact_witness:
  "GentDb_inv db0 \<and> sorted_wrt (<) (Keys ''a'' db0)"
  using Keys_exact [of db0 "''a''"] by simp



text \<open>
  C22: in every sequence of operations, failed database writes included, no operation throws:
  every metadata record the server has stored can be parsed back.
\<close>

theorem db_never_throws:
  assumes "list_all op_ok ops"
  shows "\<exists>g. db_run ops db0 = Inr g \<and> GentDb_inv g \<and>
    (\<forall>now k. is_ok (GentDb_Get now k g) \<and> is_ok (GentDb_Ttl k g) \<and> is_ok (GentDb_Get_expire k g))"
proof -
  obtain g where g: "db_run ops db0 = Inr g" "GentDb_inv g" using db_run_inv [OF _ assms, of db0] by auto
  have "is_ok (GentDb_Ttl k g)" "is_ok (GentDb_Get_expire k g)" for k
    using GentDb_inv_parse [OF g(2), of k]
    by (auto simp: GentDb_Ttl_def GentDb_Get_expire_def split: option.splits)
  then show ?thesis using g Get_visible [OF g(2)] by auto
qed

theorem db_never_throws_witness:
  "\<exists>g. db_run [Op_Put env0 ''a'' ''1'' 5 0, Op_Del env0 ''b'', Op_Clear (\<lambda>_. env0) 1400000000] db0 = Inr g \<and>
     is_ok (GentDb_Get 1400000000 ''a'' g)"
  using db_never_throws [of "[Op_Put env0 ''a'' ''1'' 5 0, Op_Del env0 ''b'', Op_Clear (\<lambda>_. env0) 1400000000]"]
  by (auto simp: pair_fits_def key_fits_def good_type_def ten_digits_def env0_def)

text \<open>
  C25: the metadata of a key (type, expiry time, store time) reads back as it was written, for
  expiry times that are 0 or have ten decimal digits, the width \<open>MetaUnserialize\<close> cuts out.
\<close>

theorem Meta_roundtrip:
  assumes "good_type d" "good_expire x" "ten_digits now"
  shows "MetaUnserialize (MetaSerialize now d x)
    = Inr \<lparr>md_datatype = d, md_expire = x, md_store_time = now\<rparr>"
  by (rule Meta_roundtrip_aux [OF assms])

theorem Meta_roundtrip_witness:
  "MetaUnserialize (MetaSerialize 1400000000 0 1500000000)
    = Inr \<lparr>md_datatype = 0, md_expire = 1500000000, md_store_time = 1400000000\<rparr>"
  using Meta_roundtrip [of 0 1500000000 1400000000]
  by (simp add: good_type_def good_expire_def ten_digits_def)



text \<open>The number of keys written to the counter file is the number read at the next start.\<close>

lemma number_file_roundtrip:
  assumes "trigger_num_save g \<ge> 100" "n < 2 ^ 63"
  shows "key_num (LoadNum (SetNum FileOk n g)) = n \<and> trigger_num_save (SetNum FileOk n g) = 0"
proof -
  have "length (dec n) \<le> 19" using assms(2) by (intro length_dec_le) auto
  then have "cstr (take 100 (dec n @ replicate (100 - length (dec n)) NUL)) = dec n"
    by (simp add: cstr_append cstr_replicate_NUL)
  then show ?thesis using assms \<open>length (dec n) \<le> 19\<close> strtol10_dec [of "[]" n]
    by (simp add: SetNum_def LoadNum_def Let_def snprintf_buf_fits)
qed

text \<open>
  When the counter equals a positive number of stored keys, \<open>Random\<close> returns a stored key
  whatever \<open>rand ()\<close> yields.
\<close>

lemma Random_stored:
  assumes "GentDb_inv g" "counter_ok g" "key_num g > 0"
  shows "fst (Random r g) \<and> DB_Get (gmeta g) (snd (Random r g)) \<noteq> None"
proof -
  let ?it = "DB_entries (gmeta g)" and ?m = "if key_num g < 1000 then key_num g else 1000"
  have "?it \<noteq> []" using assms(2,3) by (auto simp: counter_ok_def)
  moreover have "r mod ?m < length ?it + 1" using assms(2,3) by (auto simp: counter_ok_def intro: less_trans)
  ultimately have "Random_loop (r mod ?m) 1 ?it \<in> fst ` set ?it" by (rule Random_loop_mem)
  then have "DB_Get (gmeta g) (Random_loop (r mod ?m) 1 ?it) \<noteq> None"
    using ldb.keys_get [of "gmeta g"] assms(1) by (auto simp: GentDb_inv_def)
  then show ?thesis using assms(3) by (simp add: Random_def Let_def)
qed

end
