(* ===== verification/ReplProps.thy ===== *)
theory ReplProps
  imports Repl DbProps
begin

text \<open>
  Properties of replication on the master: the counter counts the queued items, an item
  leaves a queue only on an acknowledgement, a full synchronisation queues every key, and
  the destructor may not end.
\<close>

section \<open>Queues and their counter\<close>

definition rep_inv :: "GentReplication \<Rightarrow> bool" where
  "rep_inv r \<longleftrightarrow> main_que_length r = (length (main_que r) + length (que r)) mod 2 ^ 64"

text \<open>The changes a queue stands for, without the flags.\<close>

definition changes :: "itemData list \<Rightarrow> (string \<times> optType) list" where
  "changes q = map (\<lambda>it. (iname it, itype it)) q"

text \<open>What is still to be sent, in order.\<close>

definition pending :: "GentReplication \<Rightarrow> (string \<times> optType) list" where
  "pending r = changes (que r) @ changes (main_que r)"

lemma changes_simps [simp]: "changes [] = []" "changes (it # q) = (iname it, itype it) # changes q"
  "changes (p @ q) = changes p @ changes q" "length (changes q) = length q"
  by (simp_all add: changes_def)

lemma changes_sync [simp]: "changes (q[i := setSync (q ! i)]) = changes q"
proof (cases "i < length q")
  case True
  then show ?thesis
    by (simp add: changes_def setSync_def map_update list_update_same_conv)
qed (simp add: list_update_beyond not_less)

lemma sync_item_simps [simp]:
  "changes (main_que (sync_item i r)) = changes (main_que r)" "changes (que (sync_item i r)) = changes (que r)"
  "length (main_que (sync_item i r)) = length (main_que r)" "length (que (sync_item i r)) = length (que r)"
  "main_que_length (sync_item i r) = main_que_length r" "is_update_que (sync_item i r) = is_update_que r"
  "rinfo (sync_item i r) = rinfo r" "rstatus (sync_item i r) = rstatus r" "is_run (sync_item i r) = is_run r"
  by (simp_all add: sync_item_def)

lemma Start_loop_keeps:
  "Start_loop g now i its n out r = Inr (out', r') \<Longrightarrow>
     changes (main_que r') = changes (main_que r) \<and> changes (que r') = changes (que r) \<and>
     main_que_length r' = main_que_length r \<and> length (main_que r') = length (main_que r) \<and>
     length (que r') = length (que r)"
proof (induction g now i its n out r rule: Start_loop.induct)
  case (2 g now i it its n out r)
  show ?case
  proof (cases "itype it \<noteq> ADD")
    case True
    then show ?thesis using "2.prems" by (auto split: if_splits)
  next
    case False
    then obtain found x where fx: "GentDb_Get_expire (iname it) g = Inr (found, x)"
      using "2.prems" by (cases "GentDb_Get_expire (iname it) g") auto
    show ?thesis
    proof (cases found)
      case None
      then show ?thesis using "2.prems" False fx by (auto split: if_splits)
    next
      case (Some nr)
      then show ?thesis
        using "2.prems" "2.IH"(1) [OF _ _ fx refl Some] "2.IH"(2) [OF _ _ fx refl Some] False fx
        by (auto split: if_splits)
    qed
  qed
qed auto

section \<open>Acknowledgements\<close>

lemma Pop_main_loop_drop:
  "Pop_main_loop n is_rep now r f = (r', f') \<Longrightarrow>
     \<exists>k \<le> n. k \<le> length (main_que r) \<and> main_que r' = drop k (main_que r) \<and>
       (\<forall>it \<in> set (take k (main_que r)). is_sync it) \<and> que r' = que r \<and>
       is_update_que r' = is_update_que r \<and> (rep_inv r \<longrightarrow> rep_inv r')"
proof (induction n is_rep now r f rule: Pop_main_loop.induct)
  case (2 n is_rep now r f)
  show ?case
  proof (cases "main_que r")
    case Nil
    then show ?thesis using "2.prems" by auto
  next
    case (Cons it q)
    show ?thesis
    proof (cases "is_sync it")
      case False
      then show ?thesis using "2.prems" Cons by auto
    next
      case True
      let ?r1 = "r\<lparr>main_que := q, main_que_length := sub64 (main_que_length r) 1\<rparr>"
      have inv: "rep_inv r \<Longrightarrow> rep_inv ?r1"
        using sub64_length [of "length q + length (que r)"] Cons by (simp add: rep_inv_def)
      have "\<exists>k \<le> n. k \<le> length q \<and> main_que r' = drop k q \<and> (\<forall>it \<in> set (take k q). is_sync it) \<and>
          que r' = que r \<and> is_update_que r' = is_update_que r \<and> (rep_inv ?r1 \<longrightarrow> rep_inv r')"
        using "2.IH" [OF Cons] True "2.prems" Cons by auto
      then obtain k where k: "k \<le> n" "k \<le> length q" "main_que r' = drop k q" "\<forall>it \<in> set (take k q). is_sync it"
        "que r' = que r" "is_update_que r' = is_update_que r" "rep_inv ?r1 \<longrightarrow> rep_inv r'" by blast
      then show ?thesis using inv True Cons by (intro exI [of _ "Suc k"]) auto
    qed
  qed
qed auto

lemma Pop_que_loop_drop:
  "\<exists>k \<le> n. k \<le> length (que r) \<and> que (Pop_que_loop n r) = drop k (que r) \<and>
     (\<forall>it \<in> set (take k (que r)). is_sync it) \<and> main_que (Pop_que_loop n r) = main_que r \<and>
     is_update_que (Pop_que_loop n r) = is_update_que r \<and> (rep_inv r \<longrightarrow> rep_inv (Pop_que_loop n r))"
proof (induction n r rule: Pop_que_loop.induct)
  case (2 n r)
  show ?case
  proof (cases "que r")
    case Nil
    then show ?thesis by auto
  next
    case (Cons it q)
    show ?thesis
    proof (cases "is_sync it")
      case False
      then show ?thesis using Cons by auto
    next
      case True
      let ?r1 = "r\<lparr>que := q, main_que_length := sub64 (main_que_length r) 1\<rparr>"
      have inv: "rep_inv r \<Longrightarrow> rep_inv ?r1"
        using sub64_length [of "length (main_que r) + length q"] Cons by (simp add: rep_inv_def)
      have eq: "Pop_que_loop (Suc n) r = Pop_que_loop n ?r1" using True Cons by simp
      obtain k where "k \<le> n" "k \<le> length q" "que (Pop_que_loop n ?r1) = drop k q" "\<forall>it \<in> set (take k q). is_sync it"
        "main_que (Pop_que_loop n ?r1) = main_que r" "is_update_que (Pop_que_loop n ?r1) = is_update_que r"
        "rep_inv ?r1 \<longrightarrow> rep_inv (Pop_que_loop n ?r1)"
        using "2.IH" [OF Cons] True by auto
      then show ?thesis unfolding eq using inv True Cons by (intro exI [of _ "Suc k"]) auto
    qed
  qed
qed auto

definition active :: "GentReplication \<Rightarrow> itemData list" where
  "active r = (if is_update_que r then que r else main_que r)"

definition idle :: "GentReplication \<Rightarrow> itemData list" where
  "idle r = (if is_update_que r then main_que r else que r)"

lemma active_upd [simp]:
  "active (r\<lparr>rstatus := s\<rparr>) = active r" "active (r\<lparr>rconn := c, slave_ip := ip, slave_last_time := t\<rparr>) = active r"
  "idle (r\<lparr>rstatus := s\<rparr>) = idle r" "idle (r\<lparr>rconn := c, slave_ip := ip, slave_last_time := t\<rparr>) = idle r"
  "rep_inv (r\<lparr>rstatus := s\<rparr>) = rep_inv r" "rep_inv (r\<lparr>rconn := c, slave_ip := ip, slave_last_time := t\<rparr>) = rep_inv r"
  by (simp_all add: active_def idle_def rep_inv_def)

lemma Repl_Pop_drop:
  assumes "Repl_Pop is_rep now r f = (r', f')"
  shows "\<exists>k \<le> 4. k \<le> length (active r) \<and> active r' = drop k (active r) \<and>
    (\<forall>it \<in> set (take k (active r)). is_sync it) \<and> idle r' = idle r \<and> is_update_que r' = is_update_que r \<and>
    (rep_inv r \<longrightarrow> rep_inv r')"
proof (cases "is_update_que r")
  case True
  then have "r' = Pop_que_loop 4 r" using assms by (simp add: Repl_Pop_def SYNC_NUM_def Let_def)
  then show ?thesis using True Pop_que_loop_drop [of 4 r] by (auto simp: active_def idle_def)
next
  case False
  then have "Pop_main_loop 4 is_rep now r f = (r', f')" using assms by (simp add: Repl_Pop_def SYNC_NUM_def Let_def)
  from Pop_main_loop_drop [OF this] show ?thesis using False by (auto simp: active_def idle_def)
qed

lemma front_nums_keeps:
  assumes "front_nums_element now n r f = (its, r', f')"
  shows "main_que r' = main_que r" "que r' = que r" "main_que_length r' = main_que_length r"
    "its = (if active r' = [] then None else Some (take n (active r')))"
  using assms
  by (auto simp: front_nums_element_def leave_update_que_def Let_def active_def split: if_splits)

section \<open>Properties\<close>

lemma Repl_Start_cases:
  assumes "Repl_Start g now msg c ip r f = Inr (b, out, r', f')"
  obtains "r' = r\<lparr>rconn := Some c, slave_ip := ip, slave_last_time := now\<rparr>"
  | r1 f1 its r2 f2 where "Start_ack now msg (r\<lparr>rconn := Some c, slave_ip := ip, slave_last_time := now\<rparr>) f = (r1, f1)"
    "front_nums_element now SYNC_NUM r1 f1 = (its, r2, f2)"
    "(its = None \<and> r' = r2) \<or> (\<exists>l. its = Some l \<and> Start_loop g now 0 l 0 [] (r2\<lparr>rstatus := 1\<rparr>) = Inr (out, r'))"
proof (cases "msg = ''ok'' \<or> msg = ''data''")
  case False
  then have "r' = r\<lparr>rconn := Some c, slave_ip := ip, slave_last_time := now\<rparr>"
    using assms by (simp add: Repl_Start_def Let_def split: if_splits)
  then show thesis by (rule that(1))
next
  case True
  then have msg: "msg \<noteq> ''auth''" "msg \<noteq> ''autherror''" by auto
  obtain r1 f1 where a: "Start_ack now msg (r\<lparr>rconn := Some c, slave_ip := ip, slave_last_time := now\<rparr>) f = (r1, f1)"
    by fastforce
  obtain its r2 f2 where fn: "front_nums_element now SYNC_NUM r1 f1 = (its, r2, f2)"
    by (cases "front_nums_element now SYNC_NUM r1 f1") auto
  have c3: "\<not> (msg \<noteq> ''ok'' \<and> msg \<noteq> ''data'')" using True by blast
  have "Repl_Start g now msg c ip r f = (case its of None \<Rightarrow> Inr (False, [], r2, f2)
      | Some l \<Rightarrow> rbind (Start_loop g now 0 l 0 [] (r2\<lparr>rstatus := 1\<rparr>)) (\<lambda>(outstr, r3). Inr (True, outstr, r3, f2)))"
    unfolding Repl_Start_def Let_def if_not_P [OF msg(1)] if_not_P [OF msg(2)] if_not_P [OF c3] a
    by (simp only: split_conv fn)
  then have "(its = None \<and> r' = r2) \<or> (\<exists>l. its = Some l \<and> Start_loop g now 0 l 0 [] (r2\<lparr>rstatus := 1\<rparr>) = Inr (out, r'))"
    using assms by (cases its) (auto simp: rbind_eq_Inr_iff Inr_eq_rbind_iff)
  then show thesis by (rule that(2) [OF a fn])
qed

lemma Start_ack_drop:
  assumes "Start_ack now msg r f = (r1, f1)"
  shows "\<exists>k \<le> 4. k \<le> length (active r) \<and> active r1 = drop k (active r) \<and> idle r1 = idle r \<and>
      (\<forall>it \<in> set (take k (active r)). is_sync it) \<and> is_update_que r1 = is_update_que r \<and>
      (msg \<noteq> ''ok'' \<or> rstatus r \<noteq> 1 \<longrightarrow> k = 0) \<and> (rep_inv r \<longrightarrow> rep_inv r1)"
proof (cases "rstatus r = 1 \<and> msg = ''ok''")
  case True
  then have "Repl_Pop True now (r\<lparr>rstatus := 0\<rparr>) f = (r1, f1)" using assms by (simp add: Start_ack_def Let_def)
  from Repl_Pop_drop [OF this] obtain k where "k \<le> 4" "k \<le> length (active (r\<lparr>rstatus := 0\<rparr>))"
    "active r1 = drop k (active (r\<lparr>rstatus := 0\<rparr>))"
    "\<forall>it \<in> set (take k (active (r\<lparr>rstatus := 0\<rparr>))). is_sync it" "idle r1 = idle (r\<lparr>rstatus := 0\<rparr>)"
    "is_update_que r1 = is_update_que (r\<lparr>rstatus := 0\<rparr>)" "rep_inv (r\<lparr>rstatus := 0\<rparr>) \<longrightarrow> rep_inv r1" by blast
  then show ?thesis using True by (intro exI [of _ k]) simp
next
  case False
  then have "r1 = r \<or> r1 = r\<lparr>rstatus := 0\<rparr>" using assms by (auto simp: Start_ack_def Let_def split: if_splits)
  then show ?thesis by (intro exI [of _ 0]) auto
qed

lemma Repl_Start_queues:
  assumes "Repl_Start g now msg c ip r f = Inr (b, out, r', f')"
  shows "\<exists>k \<le> 4. k \<le> length (active r) \<and> (\<forall>it \<in> set (take k (active r)). is_sync it) \<and>
    (msg \<noteq> ''ok'' \<or> rstatus r \<noteq> 1 \<longrightarrow> k = 0) \<and>
    changes (que r') = changes (if is_update_que r then drop k (que r) else que r) \<and>
    changes (main_que r') = changes (if is_update_que r then main_que r else drop k (main_que r)) \<and>
    (rep_inv r \<longrightarrow> rep_inv r')"
  using assms
proof (cases rule: Repl_Start_cases)
  case 1
  then show ?thesis by (intro exI [of _ 0]) simp
next
  case (2 r1 f1 its r2 f2)
  let ?r0 = "r\<lparr>rconn := Some c, slave_ip := ip, slave_last_time := now\<rparr>"
  note F = front_nums_keeps [OF 2(2)]
  have same: "changes (main_que r') = changes (main_que r1)" "changes (que r') = changes (que r1)"
    "rep_inv r1 \<longrightarrow> rep_inv r'"
    using 2(3) F Start_loop_keeps [of g now 0 _ 0 "[]" "r2\<lparr>rstatus := 1\<rparr>" out r']
    by (auto simp: rep_inv_def)
  obtain k where k: "k \<le> 4" "k \<le> length (active ?r0)" "active r1 = drop k (active ?r0)" "idle r1 = idle ?r0"
    "\<forall>it \<in> set (take k (active ?r0)). is_sync it" "is_update_que r1 = is_update_que ?r0"
    "msg \<noteq> ''ok'' \<or> rstatus ?r0 \<noteq> 1 \<longrightarrow> k = 0" "rep_inv ?r0 \<longrightarrow> rep_inv r1"
    using Start_ack_drop [OF 2(1)] by blast
  then show ?thesis using same
    by (intro exI [of _ k]) (cases "is_update_que r"; simp add: active_def [of r1] active_def [of r]
        idle_def [of r1] idle_def [of r])
qed


text \<open>A slave with two keys queued, nothing sent yet.\<close>

definition rep0 :: GentReplication where
  "rep0 = \<lparr>rep_name = ''s1'', is_run = True, rstatus = 0, is_update_que = False, slave_ip = [],
     main_que = [itemData_new 1400000000 ''a'' DEL, itemData_new 1400000000 ''b'' ADD], que = [],
     main_que_length = 2, rinfo = 0, slave_start_time = 0, slave_last_time = 0, rconn = None\<rparr>"


text \<open>
  The counter of a slave always equals the number of queued items (modulo \<open>2 ^ 64\<close>): the
  constructor establishes it, and \<open>Push\<close>, \<open>Pop\<close> and \<open>Start\<close> keep it.
\<close>

lemma queue_counter:
  assumes "rep_inv r"
  shows "rep_inv (fst (GentReplication_new junk now g nm i sync f)) \<and>
    rep_inv (fst (Repl_Push now conn_open ty key r f)) \<and>
    rep_inv (fst (Repl_Pop is_rep now r f)) \<and>
    (Repl_Start g now msg c ip r f = Inr (b, out, r', f') \<longrightarrow> rep_inv r')"
proof -
  have "rep_inv (fst (Repl_Push now conn_open ty key r f))"
    using assms add64_length [of "length (main_que r) + length (que r)"]
    by (auto simp: Repl_Push_def rep_inv_def Let_def)
  moreover have "rep_inv (fst (Repl_Pop is_rep now r f))"
    using assms Repl_Pop_drop [of is_rep now r f] by (cases "Repl_Pop is_rep now r f") auto
  ultimately show ?thesis
    using assms Repl_Start_queues [of g now msg c ip r f b out r' f']
    by (auto simp: GentReplication_new_def rep_inv_def Let_def)
qed

text \<open>
  C23: a slave that has never been served (\<open>ser_time\<close> is 0), or that was behind, and that asks for
  all data starts with every stored key queued, once each and in key order; \<open>Start\<close> then
  sends from this queue before the changes pushed in the meantime.
\<close>

theorem full_sync_queue:
  assumes "GentDb_inv g" "ser_time (head_list f ! i) = 0 \<or> ser_time (head_list f ! i) > rep_time (head_list f ! i)"
  shows "let r = fst (GentReplication_new junk now g nm i True f) in
    is_update_que r \<and> set (pending r) = {(k, ADD) | k. DB_Get (gmeta g) k \<noteq> None} \<and>
    distinct (pending r) \<and> sorted_wrt (<) (map fst (pending r)) \<and> \<not> (\<exists>it \<in> set (que r). is_sync it)"
proof -
  let ?r = "fst (GentReplication_new junk now g nm i True f)"
  have r: "is_update_que ?r" "que ?r = map (\<lambda>k. itemData_new now k ADD) (Keys ''*'' g)" "main_que ?r = []"
    using assms(2) by (auto simp: GentReplication_new_def Let_def)
  have inv: "DB_inv (gmeta g)" using assms(1) by (simp add: GentDb_inv_def)
  have p: "pending ?r = map (\<lambda>k. (k, ADD)) (Keys ''*'' g)"
    by (simp add: pending_def r changes_def itemData_new_def comp_def)
  have k: "Keys ''*'' g = map fst (DB_entries (gmeta g))" using assms(1) by (simp add: Keys_filter)
  have "set (Keys ''*'' g) = {k. DB_Get (gmeta g) k \<noteq> None}" "sorted_wrt (<) (Keys ''*'' g)"
    "distinct (Keys ''*'' g)"
    unfolding k using ldb.keys_get [OF inv] ldb.entries_sorted [OF inv] ldb.entries_distinct [OF inv] by auto
  then show ?thesis using r p
    by (auto simp: Let_def distinct_map inj_on_def itemData_new_def comp_def)
qed

theorem full_sync_queue_witness:
  "ser_time (head_list file0 ! 0) = 0 \<and>
   is_update_que (fst (GentReplication_new rep0 1400000000 db0 ''s1'' 0 True file0))"
proof -
  have "ser_time (head_list file0 ! 0) = 0"
    by (simp add: file0_def GentFile_Init_def Let_def split_beta upt_rec repinfo_init_def slot_bytes_def
        file_pages_def repinfo_size_def SLAVE_NAME_SIZE_def slot_head_def cstr_append to_u32_def)
      (simp add: cstr_def eval_nat_numeral)
  then show ?thesis using full_sync_queue [of db0 file0 0 rep0 1400000000 "''s1''"] by (simp add: Let_def)
qed

text \<open>
  C34: deleting a replication whose front item was never sent does not end: \<open>Pop\<close> removes
  nothing, the counter stays positive and the destructor's loop spins, whatever the number
  of rounds. A slave that is logged out with queued changes leaves such a thread behind.
\<close>

theorem Repl_delete_spins:
  assumes "active r \<noteq> []" "\<not> is_sync (hd (active r))" "main_que_length r \<noteq> 0"
  shows "Repl_delete fuel now r f = None"
proof -
  have pop: "Repl_Pop False now r f = (r, f)"
    using assms(1,2) by (cases "is_update_que r"; cases "active r")
      (auto simp: Repl_Pop_def SYNC_NUM_def active_def eval_nat_numeral)
  show ?thesis
    by (induction fuel) (simp_all add: Repl_delete.simps pop assms(3))
qed

theorem Repl_delete_spins_witness: "Repl_delete 1000 1400000000 rep0 file0 = None"
  by (rule Repl_delete_spins) (simp_all add: active_def rep0_def itemData_new_def)

lemma Get_expire_missing:
  "GentDb_inv g \<Longrightarrow> DB_Get (gdb g) k = None \<Longrightarrow> \<exists>x. GentDb_Get_expire k g = Inr (None, x)"
  using GentDb_inv_parse [of g k] by (auto simp: GentDb_Get_expire_def split: option.splits)

text \<open>
  C35: an acknowledgement can remove a change the slave never received. A frame with two keys is
  lost with the connection; the slave reconnects and asks for data; the first key has been
  deleted meanwhile, so the new frame is only its deletion; the acknowledgement of that
  frame removes both items, because the second still carries the mark of the lost frame.
\<close>

theorem ack_drops_unreceived:
  assumes "GentDb_inv g" "main_que r = [a, b]" "is_sync a" "is_sync b" "itype a = ADD" "rstatus r = 1"
    and "\<not> is_update_que r" "DB_Get (gdb g) (iname a) = None"
  shows "\<exists>r1 r2 f2. Repl_Start g now ''data'' c ip r f = Inr (True, Reply DEL (iname a) [] 0, r1, f) \<and>
    pending r1 = pending r \<and>
    Repl_Start g now ''ok'' c ip r1 f = Inr (False, [], r2, f2) \<and> main_que r2 = []"
proof -
  obtain x where x: "GentDb_Get_expire (iname a) g = Inr (None, x)"
    using Get_expire_missing [OF assms(1,8)] by blast
  let ?r1 = "r\<lparr>rconn := Some c, slave_ip := ip, slave_last_time := now, rstatus := 1, main_que := [setSync a, b]\<rparr>"
  have s1: "Repl_Start g now ''data'' c ip r f = Inr (True, Reply DEL (iname a) [] 0, ?r1, f)"
    using assms x by (simp add: Repl_Start_def Start_ack_def front_nums_element_def SYNC_NUM_def sync_item_def
        numeral_2_eq_2 Let_def)
  have "\<exists>r2 f2. Repl_Start g now ''ok'' c ip ?r1 f = Inr (False, [], r2, f2) \<and> main_que r2 = []"
    using assms by (simp add: Repl_Start_def Start_ack_def Repl_Pop_def front_nums_element_def SYNC_NUM_def setSync_def
        eval_nat_numeral Let_def)
  moreover have "pending ?r1 = pending r" using assms(2) by (simp add: pending_def setSync_def)
  ultimately show ?thesis using s1 by blast
qed

theorem ack_drops_unreceived_witness:
  "let r = rep0\<lparr>rstatus := 1, main_que := [setSync (itemData_new 0 ''a'' ADD), setSync (itemData_new 0 ''b'' ADD)]\<rparr> in
   \<exists>r1 r2 f2. Repl_Start db0 1400000000 ''data'' 1 [] r file0 = Inr (True, Reply DEL ''a'' [] 0, r1, file0) \<and>
     Repl_Start db0 1400000000 ''ok'' 1 [] r1 file0 = Inr (False, [], r2, f2) \<and> main_que r2 = []"
  using ack_drops_unreceived [of db0 "rep0\<lparr>rstatus := 1, main_que := [setSync (itemData_new 0 ''a'' ADD), setSync (itemData_new 0 ''b'' ADD)]\<rparr>"
      "setSync (itemData_new 0 ''a'' ADD)" "setSync (itemData_new 0 ''b'' ADD)" 1400000000 1 "[]" file0]
  by (auto simp: Let_def setSync_def itemData_new_def rep0_def)

end
