(* ===== verification/RedisProps.thy ===== *)
theory RedisProps
  imports Redis ReplProps
begin

text \<open>
  Correctness of the Redis protocol handlers: a well-formed request is split into its
  tokens, the value of a \<open>SET\<close> is recovered however it is cut into reads, \<open>MSET\<close> does
  not depend on the cuts at all, what one command stores another returns, and nothing
  is served before authentication.
\<close>

section \<open>Splitting\<close>

definition clean :: "string \<Rightarrow> bool" where
  "clean t \<longleftrightarrow> t \<noteq> [] \<and> CR \<notin> set t \<and> LF \<notin> set t"

definition lines :: "string list \<Rightarrow> string" where
  "lines ts = concat (map (\<lambda>t. t @ crlf) ts)"

definition not_mset :: "string list \<Rightarrow> bool" where
  "not_mset v \<longleftrightarrow> (length v \<ge> 10 \<longrightarrow> v ! 2 \<noteq> ''mset'' \<and> v ! 2 \<noteq> ''MSET'')"

lemma lines_simps [simp]: "lines [] = []" "lines (t # ts) = t @ crlf @ lines ts" "lines (ts @ us) = lines ts @ lines us"
  by (simp_all add: lines_def)

lemma crlf_Cons: "crlf = CR # [LF]"
  by (simp add: crlf_def)

lemma find_crlf_token:
  assumes "CR \<notin> set t" "LF \<notin> set t"
  shows "find_first_of (pre @ t @ crlf @ r) crlf (length pre) = Some (length pre + length t)"
  using find_first_of_hit [of t crlf CR pre "LF # r"] assms by (auto simp: crlf_Cons)

lemma Split_token:
  assumes "clean t" "\<not> (length (v @ [t]) = 10 \<and> ((v @ [t]) ! 2 = ''mset'' \<or> (v @ [t]) ! 2 = ''MSET''))"
  shows "Redis_Split_loop (pre @ t @ crlf @ r) crlf (length pre) v =
    Redis_Split_loop ((pre @ t @ crlf) @ r) crlf (length (pre @ t @ crlf)) (v @ [t])"
proof -
  have f: "find_first_of (pre @ t @ crlf @ r) crlf (length pre) = Some (length pre + length t)"
    using assms(1) by (intro find_crlf_token) (auto simp: clean_def)
  have ne: "length t \<noteq> 0" using assms(1) by (simp add: clean_def)
  show ?thesis
    by (subst Redis_Split_loop.simps) (use f ne assms(2) in \<open>auto simp: Let_def\<close>)
qed

lemma not_mset_append: "not_mset (v @ ts) \<Longrightarrow> not_mset v"
  by (auto simp: not_mset_def nth_append)

lemma Split_tokens:
  assumes "list_all clean ts" "not_mset (v @ ts)"
  shows "Redis_Split_loop (pre @ lines ts @ r) crlf (length pre) v =
    Redis_Split_loop ((pre @ lines ts) @ r) crlf (length (pre @ lines ts)) (v @ ts)"
  using assms
proof (induction ts arbitrary: pre v)
  case (Cons t ts)
  have nm: "not_mset (v @ [t])" using Cons.prems(2) not_mset_append [of "v @ [t]" ts] by simp
  then have b: "\<not> (length (v @ [t]) = 10 \<and> ((v @ [t]) ! 2 = ''mset'' \<or> (v @ [t]) ! 2 = ''MSET''))"
    by (auto simp: not_mset_def)
  have "Redis_Split_loop (pre @ lines (t # ts) @ r) crlf (length pre) v =
      Redis_Split_loop ((pre @ t @ crlf) @ lines ts @ r) crlf (length (pre @ t @ crlf)) (v @ [t])"
    using Split_token [OF _ b, of pre "lines ts @ r"] Cons.prems(1) by simp
  also have "\<dots> = Redis_Split_loop (((pre @ t @ crlf) @ lines ts) @ r) crlf (length ((pre @ t @ crlf) @ lines ts)) ((v @ [t]) @ ts)"
    using Cons.prems by (intro Cons.IH) auto
  finally show ?case by simp
qed simp

lemma Split_extends: "\<exists>rst. Redis_Split_loop str d pos v = v @ rst"
proof (induction str d pos v rule: Redis_Split_loop.induct)
  case (1 str d pos v)
  show ?case
  proof (cases "find_first_of str d pos")
    case None
    then show ?thesis by (simp add: Redis_Split_loop.simps)
  next
    case (Some p)
    define v' where "v' = (if p = pos then v else v @ [take (p - pos) (drop pos str)])"
    define l where "l = (if p = pos then pos + 2 else p + 2)"
    have eq: "(if p = pos then (pos + 2, v) else (p + 2, v @ [take (p - pos) (drop pos str)])) = (l, v')"
      by (simp add: v'_def l_def)
    have IH: "\<not> (length v' = 10 \<and> (v' ! 2 = ''mset'' \<or> v' ! 2 = ''MSET'')) \<Longrightarrow>
        \<exists>rst. Redis_Split_loop str d l v' = v' @ rst"
      using "1.IH" [OF Some refl] eq by metis
    have "Redis_Split_loop str d pos v = (if length v' = 10 \<and> (v' ! 2 = ''mset'' \<or> v' ! 2 = ''MSET'') then v'
        else Redis_Split_loop str d l v')"
      by (subst Redis_Split_loop.simps) (simp only: Some option.case eq Let_def split_conv)
    moreover have "\<exists>w. v' = v @ w" by (simp add: v'_def)
    ultimately show ?thesis using IH by (metis append_assoc)
  qed
qed

lemma Split_end: "Redis_Split_loop str crlf (length str) v = v"
proof -
  have "find_first_of str crlf (length str) = None" by (rule find_first_of_none) simp
  then show ?thesis by (simp add: Redis_Split_loop.simps)
qed

lemma Split_exact:
  assumes "list_all clean ts" "not_mset ts"
  shows "Redis_Split (lines ts) crlf = ts"
  using Split_tokens [OF assms(1), of "[]" "[]" "[]"] assms(2)
  by (simp add: Redis_Split_def Split_end)

lemma Split_prefix:
  assumes "list_all clean ts" "not_mset ts"
  shows "\<exists>rst. Redis_Split (lines ts @ r) crlf = ts @ rst"
  using Split_tokens [OF assms(1), of "[]" "[]" r] assms(2) Split_extends [of "lines ts @ r" crlf "length (lines ts)" ts]
  by (simp add: Redis_Split_def)

lemma skip_lines_tokens:
  assumes "list_all (\<lambda>t. CR \<notin> set t \<and> LF \<notin> set t) ts"
  shows "skip_lines (length ts) (pre @ lines ts @ r) (length pre) = Some (length (pre @ lines ts))"
  using assms
proof (induction ts arbitrary: pre)
  case (Cons t ts)
  then show ?case using find_crlf_token [of t pre "lines ts @ r"] Cons.IH [of "pre @ t @ crlf"] by simp
qed simp

section \<open>Tokens of a request\<close>

definition len_token :: "nat \<Rightarrow> string" where
  "len_token n = CHR ''$'' # dec n"

definition count_token :: "nat \<Rightarrow> string" where
  "count_token n = CHR ''*'' # dec n"

lemma clean_len_token [simp]: "clean (len_token n)" "clean (count_token n)"
  by (simp_all add: clean_def len_token_def count_token_def)

lemma GetLength_token [simp]: "n < 2 ^ 31 \<Longrightarrow> GetLength (len_token n) = Inr n"
  "n < 2 ^ 31 \<Longrightarrow> GetLength (count_token n) = Inr n"
  by (simp_all add: GetLength_def len_token_def count_token_def cstr_id)

text \<open>A request as clients send it: the number of arguments, then each with its length.\<close>

definition arg_tokens :: "string list \<Rightarrow> string list" where
  "arg_tokens as = concat (map (\<lambda>a. [len_token (length a), a]) as)"

definition request :: "string list \<Rightarrow> string" where
  "request as = lines (count_token (length as) # arg_tokens as)"

lemma arg_tokens_simps [simp]: "arg_tokens [] = []"
  "arg_tokens (a # as) = len_token (length a) # a # arg_tokens as"
  by (simp_all add: arg_tokens_def)

lemma clean_arg_tokens [simp]: "list_all clean as \<Longrightarrow> list_all clean (arg_tokens as)"
  by (induction as) auto

lemma bulk_lines: "bulk s = lines [len_token (length s), s]"
  by (simp add: bulk_def len_token_def)

lemma arg_at_token:
  "i < length ts \<Longrightarrow> j < length ts \<Longrightarrow> ts ! i = len_token (length (ts ! j)) \<Longrightarrow> length (ts ! j) < 2 ^ 31 \<Longrightarrow>
     arg_at (ts @ rst) i j = Inr (ts ! j)"
  by (simp add: arg_at_def nth_append)

definition good_key_arg :: "string \<Rightarrow> bool" where
  "good_key_arg k \<longleftrightarrow> clean k \<and> length k < 250"

lemma with_auth_ok: "auth r \<noteq> 0 \<Longrightarrow> with_auth s r k = k r"
  by (simp add: with_auth_def IsAuth_def)

text \<open>The header of a \<open>SET\<close>: everything before the value.\<close>

definition set_tokens :: "string \<Rightarrow> string \<Rightarrow> nat \<Rightarrow> string list" where
  "set_tokens c k n = [count_token 3, len_token 3, c, len_token (length k), k, len_token n]"

definition setex_tokens :: "string \<Rightarrow> string \<Rightarrow> nat \<Rightarrow> nat \<Rightarrow> string list" where
  "setex_tokens c k secs n =
     [count_token 4, len_token 5, c, len_token (length k), k, len_token (length (dec secs)), dec secs, len_token n]"

definition setex_name :: "string \<Rightarrow> bool" where
  "setex_name c \<longleftrightarrow> c = ''setex'' \<or> c = ''SETEX''"

definition set_name :: "string \<Rightarrow> bool" where
  "set_name c \<longleftrightarrow> c = ''set'' \<or> c = ''SET''"

lemma clean_dec [simp]: "clean (dec n)"
  by (simp add: clean_def)

lemma clean_name: "set_name c \<Longrightarrow> clean c" "setex_name c \<Longrightarrow> clean c"
  by (auto simp: set_name_def setex_name_def clean_def)

lemma clean_set_tokens:
  "good_key_arg k \<Longrightarrow> set_name c \<Longrightarrow> list_all clean (set_tokens c k n)"
  "good_key_arg k \<Longrightarrow> setex_name c \<Longrightarrow> list_all clean (setex_tokens c k secs n)"
  by (simp_all add: set_tokens_def setex_tokens_def good_key_arg_def clean_name)

lemma clean_no_crlf: "list_all clean ts \<Longrightarrow> list_all (\<lambda>t. CR \<notin> set t \<and> LF \<notin> set t) ts"
  by (induction ts) (auto simp: clean_def)

lemma take_value_chunk:
  assumes "n < 2 ^ 31" "length pre = pos"
  shows "take_value (pre @ chunk) pos n r =
    Inr (int (n - length chunk), r\<lparr>content := take n chunk, rlbytes := n\<rparr>)"
proof (cases "n < length chunk")
  case True
  then show ?thesis using assms(2) by (simp add: take_value_def)
next
  case False
  then have "sub64 n (length chunk) = n - length chunk" by (intro sub64_id) (use assms(1) in auto)
  then show ?thesis using assms False by (simp add: take_value_def to_i32_id)
qed

lemma Set_Parser_chunk:
  assumes "auth r \<noteq> 0" "good_key_arg k" "set_name c" "n < 2 ^ 31"
    and ts: "ts = set_tokens c k n @ rst" and data: "data = lines (set_tokens c k n) @ chunk"
  shows "Set_Parser ts data r s = Inr (int (n - length chunk),
    r\<lparr>curstatus := CONN_NREAD, keystr := k, content := take n chunk, rlbytes := n\<rparr>, s)"
proof -
  have k: "length k < 250" "length k < 2 ^ 31" using assms(2) by (auto simp: good_key_arg_def)
  have arg: "arg_at ts 3 4 = Inr k"
    using k(2) by (simp add: ts set_tokens_def arg_at_def)
  have cl: "list_all clean (set_tokens c k n)"
    using assms(2,3) by (rule clean_set_tokens)
  have p0: "find_first_of data ''*3'' 0 = Some 0"
    by (simp add: data set_tokens_def count_token_def find_first_of_def)
  have len: "length (set_tokens c k n) = 6" by (simp add: set_tokens_def)
  have sk: "skip_lines 6 data 0 = Some (length (lines (set_tokens c k n)))"
    using skip_lines_tokens [OF clean_no_crlf [OF cl], of "[]" chunk] by (simp add: data len)
  have v: "vec_at ts 5 = Inr (len_token n)" by (simp add: ts set_tokens_def)
  have g: "GetLength (len_token n) = Inr n" using assms(4) by simp
  have tv: "take_value data (length (lines (set_tokens c k n))) n r' =
      Inr (int (n - length chunk), r'\<lparr>content := take n chunk, rlbytes := n\<rparr>)" for r'
    using take_value_chunk [OF assms(4) refl] by (simp add: data)
  have "\<not> length ts < 5" by (simp add: ts set_tokens_def)
  then show ?thesis
    using tv k(1) by (simp add: Let_def Set_Parser_def with_auth_ok [OF assms(1)] arg p0 sk v g)
qed

lemma Setex_Parser_chunk:
  assumes "auth r \<noteq> 0" "good_key_arg k" "setex_name c" "n < 2 ^ 31" "secs < 2 ^ 31" "now + secs < 2 ^ 64"
    and ts: "ts = setex_tokens c k secs n @ rst" and data: "data = lines (setex_tokens c k secs n) @ chunk"
  shows "Setex_Parser now ts data r s = Inr (int (n - length chunk),
    r\<lparr>curstatus := CONN_NREAD, keystr := k, expire := now + secs, content := take n chunk, rlbytes := n\<rparr>, s)"
proof -
  have k: "length k < 250" "length k < 2 ^ 31" using assms(2) by (auto simp: good_key_arg_def)
  have arg: "arg_at ts 3 4 = Inr k"
    using k(2) by (simp add: ts setex_tokens_def arg_at_def)
  have cl: "list_all clean (setex_tokens c k secs n)"
    using assms(2,3) by (rule clean_set_tokens)
  have p0: "find_first_of data ''*4'' 0 = Some 0"
    by (simp add: data setex_tokens_def count_token_def find_first_of_def)
  have len: "length (setex_tokens c k secs n) = 8" by (simp add: setex_tokens_def)
  have sk: "skip_lines 8 data 0 = Some (length (lines (setex_tokens c k secs n)))"
    using skip_lines_tokens [OF clean_no_crlf [OF cl], of "[]" chunk] by (simp add: data len)
  have v: "vec_at ts 6 = Inr (dec secs)" "vec_at ts 7 = Inr (len_token n)" by (simp_all add: ts setex_tokens_def)
  have g: "GetLength (len_token n) = Inr n" using assms(4) by simp
  have ex: "add64 (to_u64 (atoi (cstr (dec secs)))) now = now + secs"
    using assms(5,6) by (simp add: cstr_id add.commute)
  have tv: "take_value data (length (lines (setex_tokens c k secs n))) n r' =
      Inr (int (n - length chunk), r'\<lparr>content := take n chunk, rlbytes := n\<rparr>)" for r'
    using take_value_chunk [OF assms(4) refl] by (simp add: data)
  have "\<not> length ts < 7" by (simp add: ts setex_tokens_def)
  then show ?thesis
    using tv k(1) by (simp add: Let_def Setex_Parser_def with_auth_ok [OF assms(1)] arg p0 sk v g ex)
qed

lemma not_mset_set: "set_name c \<Longrightarrow> not_mset (set_tokens c k n)"
  "setex_name c \<Longrightarrow> not_mset (setex_tokens c k secs n)"
  unfolding not_mset_def set_tokens_def setex_tokens_def set_name_def setex_name_def
  by (elim disjE; simp)+

lemma commands_set: "set_name c \<Longrightarrow> map_of commands c = Some ProcessSet"
  "setex_name c \<Longrightarrow> map_of commands c = Some ProcessSetex"
  unfolding set_name_def setex_name_def by (elim disjE; simp add: commands_def)+

lemma lines_nonempty: "ts \<noteq> [] \<Longrightarrow> lines ts \<noteq> []"
  by (cases ts) (simp_all add: crlf_def)

lemma error_line_None: "0 \<le> n \<Longrightarrow> error_line n = None"
  by (simp add: error_line_def AUTH_REQ_FAIL_def AUTH_FAIL_def)

lemma ParseCommand_tokens:
  assumes "Redis_Split data crlf = ts" "length ts > 2" "map_of commands (ts ! 2) = Some c"
  shows "ParseCommand now data r s = Parser c now ts data (r\<lparr>subc := Some c\<rparr>) s"
proof -
  have ne: "data \<noteq> []" "ts \<noteq> []"
    using assms(1,2) by (auto simp: Redis_Split_def Redis_Split_loop.simps [of "[]"] find_first_of_def)
  then show ?thesis using assms by (simp add: ParseCommand_def Let_def)
qed

lemma Process_Set_chunk:
  assumes "auth r \<noteq> 0" "good_key_arg k" "set_name c" "n < 2 ^ 31"
  shows "Process now (lines (set_tokens c k n) @ chunk) r s = Inr (int (n - length chunk), [],
    r\<lparr>subc := Some ProcessSet, curstatus := CONN_NREAD, keystr := k, content := take n chunk, rlbytes := n\<rparr>, s)"
proof -
  obtain rst where sp: "Redis_Split (lines (set_tokens c k n) @ chunk) crlf = set_tokens c k n @ rst"
    using Split_prefix [OF clean_set_tokens(1) [OF assms(2,3)] not_mset_set(1) [OF assms(3)]] by blast
  have t2: "(set_tokens c k n @ rst) ! 2 = c" "length (set_tokens c k n @ rst) > 2" by (simp_all add: set_tokens_def)
  have "ParseCommand now (lines (set_tokens c k n) @ chunk) r s =
      Set_Parser (set_tokens c k n @ rst) (lines (set_tokens c k n) @ chunk) (r\<lparr>subc := Some ProcessSet\<rparr>) s"
    using ParseCommand_tokens [OF sp t2(2)] t2(1) commands_set(1) [OF assms(3)] by simp
  also have "\<dots> = Inr (int (n - length chunk), r\<lparr>subc := Some ProcessSet, curstatus := CONN_NREAD, keystr := k,
      content := take n chunk, rlbytes := n\<rparr>, s)"
    using Set_Parser_chunk [of "r\<lparr>subc := Some ProcessSet\<rparr>" k c n _ rst _ chunk s] assms by simp
  finally show ?thesis by (simp add: Process_def error_line_None)
qed

lemma Process_Setex_chunk:
  assumes "auth r \<noteq> 0" "good_key_arg k" "setex_name c" "n < 2 ^ 31" "secs < 2 ^ 31" "now + secs < 2 ^ 64"
  shows "Process now (lines (setex_tokens c k secs n) @ chunk) r s = Inr (int (n - length chunk), [],
    r\<lparr>subc := Some ProcessSetex, curstatus := CONN_NREAD, keystr := k, expire := now + secs,
      content := take n chunk, rlbytes := n\<rparr>, s)"
proof -
  let ?ts = "setex_tokens c k secs n"
  obtain rst where sp: "Redis_Split (lines ?ts @ chunk) crlf = ?ts @ rst"
    using Split_prefix [OF clean_set_tokens(2) [OF assms(2,3)] not_mset_set(2) [OF assms(3)]] by blast
  have t2: "(?ts @ rst) ! 2 = c" "length (?ts @ rst) > 2" by (simp_all add: setex_tokens_def)
  have "ParseCommand now (lines ?ts @ chunk) r s =
      Setex_Parser now (?ts @ rst) (lines ?ts @ chunk) (r\<lparr>subc := Some ProcessSetex\<rparr>) s"
    using ParseCommand_tokens [OF sp t2(2)] t2(1) commands_set(2) [OF assms(3)] by simp
  also have "\<dots> = Inr (int (n - length chunk), r\<lparr>subc := Some ProcessSetex, curstatus := CONN_NREAD, keystr := k,
      expire := now + secs, content := take n chunk, rlbytes := n\<rparr>, s)"
    using Setex_Parser_chunk [of "r\<lparr>subc := Some ProcessSetex\<rparr>" k c n secs now _ rst _ chunk s] assms by simp
  finally show ?thesis by (simp add: Process_def error_line_None)
qed

text \<open>The commands with one key and the same parser as \<open>GET\<close>.\<close>

definition key_command :: "string \<Rightarrow> GentSubCommand \<Rightarrow> bool" where
  "key_command c p \<longleftrightarrow> map_of commands c = Some p \<and> clean c \<and> c \<noteq> ''mset'' \<and> c \<noteq> ''MSET'' \<and>
     p \<in> {ProcessGet, ProcessTtl, ProcessDel, ProcessExists}"

lemma Process_key:
  assumes "auth r \<noteq> 0" "clean k" "length k < 2 ^ 31" "key_command c p"
  shows "Process now (request [c, k]) r s =
    Inr (0, [], r\<lparr>subc := Some p, curstatus := CONN_DATA, keystr := k\<rparr>, s)"
proof -
  let ?ts = "count_token 2 # arg_tokens [c, k]"
  have cl: "list_all clean ?ts" using assms(2,4) by (simp add: key_command_def)
  have nm: "not_mset ?ts" using assms(4) by (simp add: not_mset_def key_command_def)
  have sp: "Redis_Split (request [c, k]) crlf = ?ts"
    using Split_exact [OF cl nm] by (simp add: request_def numeral_2_eq_2)
  have t2: "length ?ts > 2" "map_of commands (?ts ! 2) = Some p"
    using assms(4) by (simp_all add: key_command_def)
  have "Get_Parser ?ts (r\<lparr>subc := Some p\<rparr>) s = Inr (0, r\<lparr>subc := Some p, curstatus := CONN_DATA, keystr := k\<rparr>, s)"
    using assms(1,3) by (simp add: Get_Parser_def with_auth_ok arg_at_def)
  then have "ParseCommand now (request [c, k]) r s = Inr (0, r\<lparr>subc := Some p, curstatus := CONN_DATA, keystr := k\<rparr>, s)"
    using ParseCommand_tokens [OF sp t2] assms(4)
    by (auto simp: key_command_def Ttl_Parser_def Del_Parser_def Exists_Parser_def)
  then show ?thesis by (simp add: Process_def error_line_None)
qed

lemma key_commands [simp]:
  "key_command ''get'' ProcessGet" "key_command ''GET'' ProcessGet" "key_command ''ttl'' ProcessTtl"
  "key_command ''TTL'' ProcessTtl" "key_command ''del'' ProcessDel" "key_command ''DEL'' ProcessDel"
  "key_command ''exists'' ProcessExists" "key_command ''EXISTS'' ProcessExists"
  by (simp_all add: key_command_def commands_def clean_def)

section \<open>Replicated changes\<close>

lemma RepMgr_Push_loop_get:
  "RepMgr_Push_loop now co ty key rs f = (rs', f', ns) \<Longrightarrow>
     map fst rs' = map fst rs \<and>
     (\<forall>nm. map_of rs' nm = map_option (\<lambda>r. fst (Repl_Push now co ty key r f)) (map_of rs nm))"
proof (induction now co ty key rs f arbitrary: rs' f' ns rule: RepMgr_Push_loop.induct)
  case (2 now co ty key nm r rs f)
  obtain r1 f1 n1 where a: "Repl_Push now co ty key r f = (r1, f1, n1)" by (metis prod_cases3)
  obtain rs2 f2 ns2 where b: "RepMgr_Push_loop now co ty key rs f1 = (rs2, f2, ns2)" by (metis prod_cases3)
  have ind: "fst (Repl_Push now co ty key x f1) = fst (Repl_Push now co ty key x f)" for x
    by (simp add: Repl_Push_def Let_def)
  have "map fst rs2 = map fst rs \<and>
      (\<forall>nm. map_of rs2 nm = map_option (\<lambda>r. fst (Repl_Push now co ty key r f1)) (map_of rs nm))"
    using "2.IH" [OF a [symmetric] refl refl b] by simp
  then show ?case using "2.prems" a b ind by (auto split: if_splits)
qed auto

lemma Repl_Push_pending:
  "pending (fst (Repl_Push now co ty key r f)) = pending r @ (if is_run r then [(key, ty)] else [])"
  by (simp add: Repl_Push_def pending_def itemData_new_def Let_def)

text \<open>Every running slave of a manager has one more change pending.\<close>

definition pushed_to_all :: "optType \<Rightarrow> string \<Rightarrow> GentRepMgr \<Rightarrow> GentRepMgr \<Rightarrow> bool" where
  "pushed_to_all ty key m m' \<longleftrightarrow> sm_keys (rep_list m') = sm_keys (rep_list m) \<and>
     (\<forall>nm r. sm_get (rep_list m) nm = Some r \<longrightarrow>
       (\<exists>r'. sm_get (rep_list m') nm = Some r' \<and>
         pending r' = pending r @ (if is_run r then [(key, ty)] else [])))"

lemma master_push_simps [simp]:
  "sdb (master_push q ty key s) = sdb s" "slave (master_push q ty key s) = slave s"
  "config (master_push q ty key s) = config s"
  by (simp_all add: master_push_def Let_def split_beta)

lemma master_push_all: "pushed_to_all ty key (master s) (master (master_push q ty key s))"
proof -
  obtain rs f ns where l: "RepMgr_Push_loop (q_now q) (q_open q) ty key (rep_list (master s)) (repfile (master s)) = (rs, f, ns)"
    by (metis prod_cases3)
  then have m: "rep_list (master (master_push q ty key s)) = rs"
    by (simp add: master_push_def RepMgr_Push_def Let_def)
  show ?thesis using RepMgr_Push_loop_get [OF l]
    by (auto simp: pushed_to_all_def m sm_get_def sm_keys_def Repl_Push_pending)
qed

section \<open>SET and GET\<close>

lemma value_bytes_exact: "length v = n \<Longrightarrow> value_bytes junk v n = v"
  by (simp add: value_bytes_def)

definition server_ok :: "req_env \<Rightarrow> Server \<Rightarrow> bool" where
  "server_ok q s \<longleftrightarrow> GentDb_inv (sdb s) \<and> env_ok (q_db q)"

lemma store_complete:
  assumes "server_ok q s" "pair_fits k v" "good_expire x"
    and "GentDb_Put (q_db q) k v x TY_STRING (sdb s) = (ok, g)"
  shows "ok" and "GentDb_inv g" and "store_of g = (store_of (sdb s))(k \<mapsto> (v, x))"
    and "agree (sdb s) \<longrightarrow> agree g"
proof -
  have g: "GentDb_inv (sdb s)" "env_ok (q_db q)" "ten_digits (env_now (q_db q))" "good_type TY_STRING"
    using assms(1) by (auto simp: server_ok_def env_ok_def good_type_def TY_STRING_def)
  have P: "Put_body (q_db q) k v x TY_STRING (Put_check (q_db q) (sdb s)) = (ok, g)"
    using assms(4) by (simp add: GentDb_Put_check)
  have c: "GentDb_inv (Put_check (q_db q) (sdb s))" using g(1) by simp
  have "fst (Put_body (q_db q) k v x TY_STRING (Put_check (q_db q) (sdb s))) \<longleftrightarrow> write_ok (env_db (q_db q))"
    using c assms(2) by (rule Put_body_dbs)
  then show "ok" using P g(2) by (simp add: env_ok_def)
  show "GentDb_inv g"
    using Put_body_inv [OF c assms(2) g(4) g(3), of x] P by simp
  show "store_of g = (store_of (sdb s))(k \<mapsto> (v, x))"
    using Put_body_store [OF c assms(2) g(2) g(4) assms(3)] P by simp
  show "agree (sdb s) \<longrightarrow> agree g" using Put_body_agree [OF c assms(2) g(2), of x TY_STRING] P by simp
qed

lemma Set_Complete_store:
  assumes "server_ok q s" "pair_fits (keystr r) v" "content r @ recont = v" "rlbytes r = length v"
  shows "\<exists>s'. Set_Complete q recont r s = Inr (store_reply r s' True, r\<lparr>content := v\<rparr>, s') \<and>
    GentDb_inv (sdb s') \<and> store_of (sdb s') = (store_of (sdb s))(keystr r \<mapsto> (v, 0)) \<and>
    pushed_to_all ADD (keystr r) (master s) (master s') \<and> slave s' = slave s \<and> config s' = config s \<and>
    (agree (sdb s) \<longrightarrow> agree (sdb s'))"
proof -
  obtain ok g where w: "GentDb_Put (q_db q) (keystr r) v 0 TY_STRING (sdb s) = (ok, g)" by fastforce
  have x: "good_expire 0" by (simp add: good_expire_def)
  note S = store_complete [OF assms(1,2) x w]
  have vb: "value_bytes (q_fjunk q) v (length v) = v" by (simp add: value_bytes_exact)
  let ?s = "master_push q ADD (keystr r) (s\<lparr>sdb := g\<rparr>)"
  have "Set_Complete q recont r s = Inr (store_reply r ?s True, r\<lparr>content := v\<rparr>, ?s)"
    using assms(3,4) w S(1) vb by (simp add: Set_Complete_def Let_def store_reply_def)
  then show ?thesis using S master_push_all [of ADD "keystr r" "s\<lparr>sdb := g\<rparr>" q] by auto
qed

lemma Setex_Complete_store:
  assumes "server_ok q s" "pair_fits (keystr r) v" "content r @ recont = v" "rlbytes r = length v"
    and "good_expire (expire r)"
  shows "\<exists>s'. Setex_Complete q recont r s = Inr (store_reply r s' True, r\<lparr>content := v\<rparr>, s') \<and>
    GentDb_inv (sdb s') \<and> store_of (sdb s') = (store_of (sdb s))(keystr r \<mapsto> (v, expire r)) \<and>
    pushed_to_all ADD (keystr r) (master s) (master s') \<and> slave s' = slave s \<and> config s' = config s \<and>
    (agree (sdb s) \<longrightarrow> agree (sdb s'))"
proof -
  obtain ok g where w: "GentDb_Put (q_db q) (keystr r) v (expire r) TY_STRING (sdb s) = (ok, g)" by fastforce
  note S = store_complete [OF assms(1,2,5) w]
  have vb: "value_bytes (q_fjunk q) v (length v) = v" by (simp add: value_bytes_exact)
  let ?s = "master_push q ADD (keystr r) (s\<lparr>sdb := g\<rparr>)"
  have "Setex_Complete q recont r s = Inr (store_reply r ?s True, r\<lparr>content := v\<rparr>, ?s)"
    using assms(3,4) w S(1) vb by (simp add: Setex_Complete_def Let_def store_reply_def)
  then show ?thesis using S master_push_all [of ADD "keystr r" "s\<lparr>sdb := g\<rparr>" q] by auto
qed

text \<open>
  How a value can be cut: \<open>chunk\<close> is what follows the header in the first read, \<open>recont\<close> what
  the connection reads afterwards (as many bytes as the parser asked for).
\<close>

definition value_cut :: "string \<Rightarrow> string \<Rightarrow> string \<Rightarrow> bool" where
  "value_cut v chunk recont \<longleftrightarrow> (chunk @ recont = v) \<or> (recont = [] \<and> (\<exists>x. chunk = v @ x))"

lemma value_cut_content: "value_cut v chunk recont \<Longrightarrow> take (length v) chunk @ recont = v"
  by (auto simp: value_cut_def)

lemma value_cut_length: "value_cut v chunk recont \<Longrightarrow> length v - length chunk = length recont"
  by (auto simp: value_cut_def)

lemma SET_run:
  assumes "auth r \<noteq> 0" "good_key_arg k" "set_name c" "length v < 2 ^ 31" "server_ok q s" "value_cut v chunk recont"
  shows "\<exists>r1 r2 s'. Process (q_now q) (lines (set_tokens c k (length v)) @ chunk) r s = Inr (int (length recont), [], r1, s) \<and>
    curstatus r1 = CONN_NREAD \<and> subc r1 = Some ProcessSet \<and>
    Complete q recont r1 s = Inr (if is_slave r then SlaveReply 1 (slave s) else ''+OK'' @ crlf, r2, s') \<and>
    GentDb_inv (sdb s') \<and> store_of (sdb s') = (store_of (sdb s))(k \<mapsto> (v, 0)) \<and>
    pushed_to_all ADD k (master s) (master s') \<and> (agree (sdb s) \<longrightarrow> agree (sdb s')) \<and>
    auth r2 = auth r"
proof -
  let ?r1 = "r\<lparr>subc := Some ProcessSet, curstatus := CONN_NREAD, keystr := k, content := take (length v) chunk,
    rlbytes := length v\<rparr>"
  have P: "Process (q_now q) (lines (set_tokens c k (length v)) @ chunk) r s = Inr (int (length recont), [], ?r1, s)"
    using Process_Set_chunk [OF assms(1-4), of "q_now q" chunk s] value_cut_length [OF assms(6)] by simp
  have fits: "pair_fits k v" using assms(2,4) by (simp add: pair_fits_def good_key_arg_def)
  obtain s' where s': "Set_Complete q recont ?r1 s = Inr (store_reply ?r1 s' True, ?r1\<lparr>content := v\<rparr>, s')"
    "GentDb_inv (sdb s')" "store_of (sdb s') = (store_of (sdb s))(k \<mapsto> (v, 0))"
    "pushed_to_all ADD k (master s) (master s')" "slave s' = slave s" "agree (sdb s) \<longrightarrow> agree (sdb s')"
    using Set_Complete_store [OF assms(5), of ?r1 v recont] fits value_cut_content [OF assms(6)] by auto
  have "Complete q recont ?r1 s = Inr (if is_slave r then SlaveReply 1 (slave s) else ''+OK'' @ crlf, ?r1\<lparr>content := v\<rparr>, s')"
    using s'(1,5) by (simp add: Complete_def store_reply_def)
  then show ?thesis using P s' by auto
qed

lemma SETEX_run:
  assumes "auth r \<noteq> 0" "good_key_arg k" "setex_name c" "length v < 2 ^ 31" "server_ok q s" "value_cut v chunk recont"
    and "secs < 2 ^ 31" and that: "ten_digits (q_now q + secs)"
  shows "\<exists>r1 r2 s'. Process (q_now q) (lines (setex_tokens c k secs (length v)) @ chunk) r s =
      Inr (int (length recont), [], r1, s) \<and> curstatus r1 = CONN_NREAD \<and>
    Complete q recont r1 s = Inr (if is_slave r then SlaveReply 1 (slave s) else ''+OK'' @ crlf, r2, s') \<and>
    GentDb_inv (sdb s') \<and> store_of (sdb s') = (store_of (sdb s))(k \<mapsto> (v, q_now q + secs)) \<and>
    pushed_to_all ADD k (master s) (master s') \<and> (agree (sdb s) \<longrightarrow> agree (sdb s')) \<and>
    auth r2 = auth r"
proof -
  let ?r1 = "r\<lparr>subc := Some ProcessSetex, curstatus := CONN_NREAD, keystr := k, expire := q_now q + secs,
    content := take (length v) chunk, rlbytes := length v\<rparr>"
  have t: "q_now q + secs < 2 ^ 64" using that by (simp add: ten_digits_def)
  have P: "Process (q_now q) (lines (setex_tokens c k secs (length v)) @ chunk) r s = Inr (int (length recont), [], ?r1, s)"
    using Process_Setex_chunk [OF assms(1-4,7) t, of chunk s] value_cut_length [OF assms(6)] by simp
  have fits: "pair_fits k v" using assms(2,4) by (simp add: pair_fits_def good_key_arg_def)
  have x: "good_expire (q_now q + secs)" using that by (simp add: good_expire_def)
  obtain s' where s': "Setex_Complete q recont ?r1 s = Inr (store_reply ?r1 s' True, ?r1\<lparr>content := v\<rparr>, s')"
    "GentDb_inv (sdb s')" "store_of (sdb s') = (store_of (sdb s))(k \<mapsto> (v, q_now q + secs))"
    "pushed_to_all ADD k (master s) (master s')" "slave s' = slave s" "agree (sdb s) \<longrightarrow> agree (sdb s')"
    using Setex_Complete_store [OF assms(5), of ?r1 v recont] fits x value_cut_content [OF assms(6)] by auto
  have "Complete q recont ?r1 s = Inr (if is_slave r then SlaveReply 1 (slave s) else ''+OK'' @ crlf, ?r1\<lparr>content := v\<rparr>, s')"
    using s'(1,5) by (simp add: Complete_def store_reply_def)
  then show ?thesis using P s' by auto
qed

text \<open>What \<open>GET\<close> answers for a key.\<close>

definition get_answer :: "string option \<Rightarrow> string" where
  "get_answer x = (case x of None \<Rightarrow> ''$-1'' @ crlf | Some v \<Rightarrow> bulk v)"

lemma Get_Complete_answer:
  assumes "GentDb_inv (sdb s)" "\<And>v x. store_of (sdb s) (keystr r) = Some (v, x) \<Longrightarrow> length v < 2 ^ 32"
  shows "Get_Complete q r s = Inr (get_answer (visible (q_now q) (store_of (sdb s) (keystr r))), r, s)"
proof -
  have "snprintf_buf 50 (''$'' @ dec (length v mod 2 ^ 32) @ crlf) @ v @ crlf = bulk v"
    if "visible (q_now q) (store_of (sdb s) (keystr r)) = Some v" for v
  proof -
    have n: "length v < 2 ^ 32" using assms(2) that by (auto simp: visible_def split: option.splits if_splits)
    then have "length (dec (length v)) \<le> 10" by (intro length_dec_le) auto
    then show ?thesis using n by (simp add: bulk_def snprintf_buf_fits)
  qed
  then show ?thesis
    using Get_visible [OF assms(1), of "q_now q" "keystr r"]
    by (simp add: Get_Complete_def get_answer_def split: option.split)
qed

lemma GET_run:
  assumes "auth r \<noteq> 0" "good_key_arg k" "key_command c ProcessGet" "GentDb_inv (sdb s)"
    and "\<And>v x. store_of (sdb s) k = Some (v, x) \<Longrightarrow> length v < 2 ^ 32"
  shows "\<exists>r1. Process (q_now q) (request [c, k]) r s = Inr (0, [], r1, s) \<and> curstatus r1 = CONN_DATA \<and>
    Complete q [] r1 s = Inr (get_answer (visible (q_now q) (store_of (sdb s) k)), r1, s)"
proof -
  let ?r1 = "r\<lparr>subc := Some ProcessGet, curstatus := CONN_DATA, keystr := k\<rparr>"
  have k: "clean k" "length k < 2 ^ 31" using assms(2) by (auto simp: good_key_arg_def)
  have "Process (q_now q) (request [c, k]) r s = Inr (0, [], ?r1, s)"
    by (rule Process_key [OF assms(1) k assms(3)])
  moreover have "Complete q [] ?r1 s = Inr (get_answer (visible (q_now q) (store_of (sdb s) k)), ?r1, s)"
    using Get_Complete_answer [OF assms(4), of ?r1 q] assms(5) by (simp add: Complete_def)
  ultimately show ?thesis by auto
qed

lemma Ttl_store:
  assumes "GentDb_inv g" "agree g"
  shows "GentDb_Ttl k g = Inr (case store_of g k of None \<Rightarrow> (False, 0) | Some (v, x) \<Rightarrow> (True, x))"
proof (cases "DB_Get (gmeta g) k")
  case None
  then have "DB_Get (gdb g) k = None" using assms(2) by (auto simp: agree_def)
  then show ?thesis using None by (simp add: GentDb_Ttl_def store_of_def)
next
  case (Some m)
  then obtain v where "DB_Get (gdb g) k = Some v"
    using assms(2) unfolding agree_def by (metis option.exhaust option.distinct(1))
  then show ?thesis using Some GentDb_inv_parse [OF assms(1) Some] by (auto simp: GentDb_Ttl_def store_of_def)
qed

section \<open>MSET\<close>

text \<open>
  The pairs of an \<open>MSET\<close> on the wire, and what the parser may remember of the pair it is
  reading: nothing, the key, or the key and the length of the value.
\<close>

definition item_bytes :: "string \<times> string \<Rightarrow> string" where
  "item_bytes kv = lines [len_token (length (fst kv))] @ fst kv @ crlf @ lines [len_token (length (snd kv))] @ snd kv @ crlf"

definition items_bytes :: "(string \<times> string) list \<Rightarrow> string" where
  "items_bytes kvs = concat (map item_bytes kvs)"

definition key_end :: "string \<times> string \<Rightarrow> nat" where
  "key_end kv = length (len_token (length (fst kv))) + 2 + length (fst kv) + 2"

definition value_start :: "string \<times> string \<Rightarrow> nat" where
  "value_start kv = key_end kv + length (len_token (length (snd kv))) + 2"

definition cache_ok :: "string \<times> string \<Rightarrow> mset_data \<Rightarrow> bool" where
  "cache_ok kv m \<longleftrightarrow>
     (cur_key m = [] \<or> (cur_key m = fst kv \<and> cur_key_end m = key_end kv)) \<and>
     (cur_content_len m = 0 \<or> (cur_content_len m = length (snd kv) \<and> cur_content_start m = value_start kv))"

definition small_pair :: "string \<times> string \<Rightarrow> bool" where
  "small_pair kv \<longleftrightarrow> length (fst kv) < 2 ^ 31 \<and> length (snd kv) < 2 ^ 31"

lemma items_bytes_simps [simp]: "items_bytes [] = []" "items_bytes (kv # kvs) = item_bytes kv @ items_bytes kvs"
  by (simp_all add: items_bytes_def)

lemma length_len_token: "n < 2 ^ 31 \<Longrightarrow> length (len_token n) \<le> 11"
  using length_dec_le [of n 10] by (simp add: len_token_def)

lemma length_item_bytes: "length (item_bytes kv) = value_start kv + length (snd kv) + 2"
  by (simp add: item_bytes_def value_start_def key_end_def)

lemma find_crlf_take:
  assumes "CR \<notin> set t" "LF \<notin> set t"
  shows "find_first_of (take j (pre @ t @ crlf @ r)) crlf (length pre) =
    (if j \<le> length pre + length t then None else Some (length pre + length t))"
proof (cases "j \<le> length pre + length t")
  case True
  have "set (drop (length pre) (take j (pre @ t @ crlf @ r))) \<subseteq> set t"
    using True by (auto simp: drop_take dest!: in_set_takeD in_set_dropD)
  then have "find_first_of (take j (pre @ t @ crlf @ r)) crlf (length pre) = None"
    using assms by (intro find_first_of_none) auto
  then show ?thesis using True by simp
next
  case False
  then obtain i where "j = Suc (length pre + length t) + i"
    by (metis add_Suc less_iff_Suc_add not_le)
  then have "take j (pre @ t @ crlf @ r) = pre @ t @ CR # take i (LF # r)" by (simp add: crlf_def)
  then show ?thesis using False find_first_of_hit [of t crlf CR pre "take i (LF # r)"] assms by auto
qed

lemma len_token_no_crlf [simp]: "CR \<notin> set (len_token n)" "LF \<notin> set (len_token n)"
  using clean_len_token(1) [of n] by (simp_all add: clean_def)

text \<open>\<open>D\<close> begins with the item; the parser has its first \<open>j\<close> bytes.\<close>

lemma item_key_prefix:
  assumes "small_pair kv" "cache_ok kv m" "D = item_bytes kv @ rest"
  shows "item_key (take j D) m =
    (if cur_key m = [] \<and> j < length (len_token (length (fst kv))) + 2 + length (fst kv)
     then Inr (Inl (m\<lparr>mcontent := take j D\<rparr>))
     else Inr (Inr (m\<lparr>cur_key := fst kv, cur_key_end := key_end kv\<rparr>)))"
proof (cases "cur_key m = []")
  case False
  then have "m\<lparr>cur_key := fst kv, cur_key_end := key_end kv\<rparr> = m" using assms(2) by (auto simp: cache_ok_def)
  then show ?thesis using False by (simp add: item_key_def)
next
  case True
  let ?t = "len_token (length (fst kv))" and ?n = "length (fst kv)"
  obtain r where D: "D = ?t @ crlf @ fst kv @ r" by (simp add: assms(3) item_bytes_def)
  have f: "find_first_of (take j D) crlf 0 = (if j \<le> length ?t then None else Some (length ?t))"
    using find_crlf_take [of ?t j "[]" "fst kv @ r"] by (simp add: D)
  have n: "?n < 2 ^ 31" "length ?t \<le> 11" using assms(1) length_len_token by (auto simp: small_pair_def)
  have w: "add64 (length ?t + 2) ?n = length ?t + 2 + ?n" "add64 (length ?t + 2 + ?n) 2 = key_end kv"
    using n by (auto simp: key_end_def intro!: add64_id)
  show ?thesis
  proof (cases "j \<le> length ?t")
    case True
    then show ?thesis using f \<open>cur_key m = []\<close> by (simp add: item_key_def)
  next
    case False
    have tk: "take (length ?t) (take j D) = ?t" using False by (simp add: D min_def)
    show ?thesis
    proof (cases "j < length ?t + 2 + ?n")
      case True
      then have "length (take j D) < length ?t + 2 + ?n" by simp
      then show ?thesis using f \<open>cur_key m = []\<close> False True n tk w(1) by (simp add: item_key_def)
    next
      case ge: False
      then have len: "\<not> length (take j D) < length ?t + 2 + ?n" "length ?t + 2 \<le> length (take j D)" by (auto simp: D)
      have "take ?n (drop (length ?t + 2) (take j D)) = fst kv"
        using ge by (simp add: D drop_take min_def)
      then show ?thesis using f \<open>cur_key m = []\<close> False ge n tk w len by (simp add: item_key_def)
    qed
  qed
qed

lemma item_len_prefix:
  assumes "small_pair kv" "cache_ok kv m" "D = item_bytes kv @ rest"
  shows "item_len (take j D) (key_end kv) m =
    (if cur_content_len m = 0 \<and> j \<le> key_end kv + length (len_token (length (snd kv)))
     then Inr (Inl (m\<lparr>mcontent := take j D\<rparr>))
     else Inr (Inr (m\<lparr>cur_content_len := length (snd kv), cur_content_start := value_start kv\<rparr>,
       value_start kv, length (snd kv))))"
proof (cases "cur_content_len m = 0")
  case False
  then have "m\<lparr>cur_content_len := length (snd kv), cur_content_start := value_start kv\<rparr> = m"
    "cur_content_start m = value_start kv" "cur_content_len m = length (snd kv)"
    using assms(2) by (auto simp: cache_ok_def)
  then show ?thesis using False by (simp add: item_len_def)
next
  case True
  let ?t = "len_token (length (snd kv))"
  define pre where "pre = lines [len_token (length (fst kv))] @ fst kv @ crlf"
  have pre: "length pre = key_end kv" by (simp add: pre_def key_end_def)
  obtain r where D: "D = pre @ ?t @ crlf @ r" by (simp add: assms(3) item_bytes_def pre_def)
  have f: "find_first_of (take j D) crlf (key_end kv) = (if j \<le> key_end kv + length ?t then None else Some (key_end kv + length ?t))"
    using find_crlf_take [of ?t j pre r] by (simp add: D pre)
  show ?thesis
  proof (cases "j \<le> key_end kv + length ?t")
    case True
    then show ?thesis using f \<open>cur_content_len m = 0\<close> by (simp add: item_len_def)
  next
    case False
    have tk: "take (length ?t) (drop (key_end kv) (take j D)) = ?t"
      using False by (simp add: D pre [symmetric] drop_take min_def)
    have "key_end kv \<le> length (take j D)" using False by (simp add: D pre)
    moreover have "GetLength ?t = Inr (length (snd kv))" using assms(1) by (simp add: small_pair_def)
    ultimately show ?thesis using f \<open>cur_content_len m = 0\<close> False tk
      by (simp add: item_len_def value_start_def)
  qed
qed

lemma cache_ok_upd [simp]:
  "cache_ok kv (m\<lparr>mcontent := x\<rparr>) = cache_ok kv m"
  "cache_ok kv m \<Longrightarrow> cache_ok kv (m\<lparr>cur_key := fst kv, cur_key_end := key_end kv\<rparr>)"
  "cache_ok kv m \<Longrightarrow> cache_ok kv (m\<lparr>cur_content_len := length (snd kv), cur_content_start := value_start kv\<rparr>)"
  by (auto simp: cache_ok_def)

lemma value_start_small: "small_pair kv \<Longrightarrow> value_start kv + length (snd kv) + 2 < 2 ^ 64"
  using length_len_token [of "length (fst kv)"] length_len_token [of "length (snd kv)"]
  by (simp add: value_start_def key_end_def small_pair_def)

lemma item_step_prefix:
  assumes "small_pair kv" "cache_ok kv m" "D = item_bytes kv @ rest"
  shows "if j < length (item_bytes kv)
    then \<exists>m'. item_step (take j D) m = Inr (Item_more m') \<and> cache_ok kv m' \<and> mcontent m' = take j D \<and>
      keys_values m' = keys_values m \<and> setNum m' = setNum m
    else \<exists>m'. item_step (take j D) m = Inr (Item_done m' (take (j - length (item_bytes kv)) rest)) \<and>
      cur_key m' = [] \<and> cur_content_len m' = 0 \<and>
      keys_values m' = sm_put (fst kv) (snd kv) (keys_values m) \<and> setNum m' = setNum m - 1"
proof -
  let ?m1 = "m\<lparr>cur_key := fst kv, cur_key_end := key_end kv\<rparr>"
  let ?m2 = "?m1\<lparr>cur_content_len := length (snd kv), cur_content_start := value_start kv\<rparr>"
  have c1: "cache_ok kv ?m1" using assms(2) by simp
  have w: "add64 (value_start kv) (length (snd kv)) = value_start kv + length (snd kv)"
    "add64 (value_start kv + length (snd kv)) 2 = length (item_bytes kv)"
    using value_start_small [OF assms(1)] by (simp_all add: length_item_bytes)
  note K = item_key_prefix [OF assms, of j] and L = item_len_prefix [OF assms(1) c1 assms(3), of j]
  show ?thesis
  proof (cases "cur_key m = [] \<and> j < length (len_token (length (fst kv))) + 2 + length (fst kv)")
    case True
    then have "j < length (item_bytes kv)" by (simp add: length_item_bytes value_start_def key_end_def)
    then show ?thesis using K True assms(2) by (simp add: item_step_def)
  next
    case k: False
    have K': "item_key (take j D) m = Inr (Inr ?m1)" using K unfolding if_not_P [OF k] .
    show ?thesis
    proof (cases "cur_content_len m = 0 \<and> j \<le> key_end kv + length (len_token (length (snd kv)))")
      case True
      then have "j < length (item_bytes kv)" by (simp add: length_item_bytes value_start_def)
      then show ?thesis using K' L True c1 by (simp add: item_step_def)
    next
      case l: False
      then have L': "item_len (take j D) (key_end kv) ?m1 = Inr (Inr (?m2, value_start kv, length (snd kv)))"
        using L by auto
      have c2: "cache_ok kv ?m2" by (rule cache_ok_upd(3) [OF c1])
      show ?thesis
      proof (cases "j < length (item_bytes kv)")
        case True
        then have "length (take j D) < length (item_bytes kv)" by simp
        then show ?thesis using K' L' True c2 w by (simp add: item_step_def)
      next
        case False
        then have len: "\<not> length (take j D) < length (item_bytes kv)" by (simp add: assms(3))
        have v: "take (length (snd kv)) (drop (value_start kv) (take j D)) = snd kv"
          using False by (simp add: assms(3) item_bytes_def value_start_def key_end_def drop_take min_def length_item_bytes)
        have r: "drop (length (item_bytes kv)) (take j D) = take (j - length (item_bytes kv)) rest"
          using False by (simp add: assms(3) drop_take min_def)
        have vs: "value_start kv \<le> length (take j D)" using len unfolding length_item_bytes by linarith
        show ?thesis using K' L' False len v r vs w by (simp add: item_step_def mset_set_def)
      qed
    qed
  qed
qed

text \<open>
  The parser has read \<open>j\<close> bytes of the pairs \<open>kvs\<close> and whatever follows them: the pairs \<open>done\<close>
  are stored, the bytes after them are kept.
\<close>

definition mset_state :: "(string \<times> string) list \<Rightarrow> string \<Rightarrow> nat \<Rightarrow> (string, string) smap \<Rightarrow> int \<Rightarrow> mset_data \<Rightarrow> bool" where
  "mset_state kvs extra j M0 ret m \<longleftrightarrow>
     (if length (items_bytes kvs) \<le> j
      then ret = 0 \<and> setNum m = 0 \<and> keys_values m = fold (\<lambda>(k, v). sm_put k v) kvs M0
      else ret = MGET_REQ \<and>
        (\<exists>done todo. kvs = done @ todo \<and> todo \<noteq> [] \<and> length (items_bytes done) \<le> j \<and>
          keys_values m = fold (\<lambda>(k, v). sm_put k v) done M0 \<and> setNum m = int (length todo) \<and>
          mcontent m = take (j - length (items_bytes done)) (items_bytes todo @ extra) \<and> cache_ok (hd todo) m))"

lemma items_bytes_append [simp]: "items_bytes (a @ b) = items_bytes a @ items_bytes b"
  by (simp add: items_bytes_def)

lemma mset_stateI:
  assumes "\<not> length (items_bytes kvs) \<le> j" "kvs = dn @ todo" "todo \<noteq> []" "length (items_bytes dn) \<le> j"
    and "keys_values m = fold (\<lambda>(k, v). sm_put k v) dn M0" "setNum m = int (length todo)"
    and "mcontent m = take (j - length (items_bytes dn)) (items_bytes todo @ extra)" "cache_ok (hd todo) m"
  shows "mset_state kvs extra j M0 MGET_REQ m"
  unfolding mset_state_def if_not_P [OF assms(1)] using assms(2-) by blast

lemma ItemParser_prefix:
  assumes "\<forall>kv \<in> set kvs. small_pair kv" "setNum m = int (length kvs)" "kvs \<noteq> [] \<Longrightarrow> cache_ok (hd kvs) m"
  shows "\<exists>ret m'. ItemParser_loop (length kvs) (take j (items_bytes kvs @ extra)) m = Inr (ret, m') \<and>
    mset_state kvs extra j (keys_values m) ret m'"
  using assms
proof (induction kvs arbitrary: j m)
  case Nil
  then show ?case by (simp add: mset_state_def)
next
  case (Cons kv kvs)
  let ?D = "item_bytes kv @ items_bytes kvs @ extra"
  have sp: "small_pair kv" and co: "cache_ok kv m" using Cons.prems by auto
  note S = item_step_prefix [OF sp co refl, of j "items_bytes kvs @ extra"]
  show ?case
  proof (cases "j < length (item_bytes kv)")
    case True
    then obtain m' where m': "item_step (take j ?D) m = Inr (Item_more m')" "cache_ok kv m'" "mcontent m' = take j ?D"
      "keys_values m' = keys_values m" "setNum m' = setNum m" using S by auto
    have "mset_state (kv # kvs) extra j (keys_values m) MGET_REQ m'"
      using True m' Cons.prems(2) by (intro mset_stateI [of _ _ "[]" "kv # kvs"]) auto
    then show ?thesis using m'(1) by simp
  next
    case False
    then obtain m' where m': "item_step (take j ?D) m = Inr (Item_done m' (take (j - length (item_bytes kv)) (items_bytes kvs @ extra)))"
      "cur_key m' = []" "cur_content_len m' = 0"
      "keys_values m' = sm_put (fst kv) (snd kv) (keys_values m)" "setNum m' = setNum m - 1" using S by auto
    have IH: "\<exists>ret m''. ItemParser_loop (length kvs) (take (j - length (item_bytes kv)) (items_bytes kvs @ extra)) m' = Inr (ret, m'') \<and>
        mset_state kvs extra (j - length (item_bytes kv)) (keys_values m') ret m''"
      using Cons.prems m' by (intro Cons.IH) (auto simp: cache_ok_def)
    then obtain ret m'' where r: "ItemParser_loop (length kvs) (take (j - length (item_bytes kv)) (items_bytes kvs @ extra)) m' = Inr (ret, m'')"
      "mset_state kvs extra (j - length (item_bytes kv)) (keys_values m') ret m''" by blast
    have "mset_state (kv # kvs) extra j (keys_values m) ret m''"
    proof (cases "length (items_bytes kvs) \<le> j - length (item_bytes kv)")
      case True
      then show ?thesis using r(2) False m'(4) by (cases kv) (auto simp: mset_state_def)
    next
      case lt: False
      then obtain dn todo where d: "kvs = dn @ todo" "todo \<noteq> []" "length (items_bytes dn) \<le> j - length (item_bytes kv)"
        "keys_values m'' = fold (\<lambda>(k, v). sm_put k v) dn (keys_values m')" "setNum m'' = int (length todo)"
        "mcontent m'' = take (j - length (item_bytes kv) - length (items_bytes dn)) (items_bytes todo @ extra)"
        "cache_ok (hd todo) m''" "ret = MGET_REQ" using r(2) by (auto simp: mset_state_def)
      have "\<not> length (items_bytes (kv # kvs)) \<le> j" using lt by simp
      then show ?thesis unfolding d(8) using d m'(4) False
        by (intro mset_stateI [of _ _ "kv # dn" todo]) (auto simp: split_beta)
    qed
    then show ?thesis using m'(1) r(1) by simp
  qed
qed

definition mset_name :: "string \<Rightarrow> bool" where
  "mset_name c \<longleftrightarrow> c = ''mset'' \<or> c = ''MSET''"

definition mset_tokens :: "string \<Rightarrow> nat \<Rightarrow> string list" where
  "mset_tokens c n = [count_token (2 * n + 1), len_token 4, c]"

definition mset_fresh :: "GentRedis \<Rightarrow> bool" where
  "mset_fresh r \<longleftrightarrow> cur_key (mdata r) = [] \<and> cur_content_len (mdata r) = 0 \<and> keys_values (mdata r) = []"

lemma Mset_Parser_prefix:
  assumes "auth r \<noteq> 0" "mset_name c" "length kvs < 2 ^ 30" "\<forall>kv \<in> set kvs. small_pair kv" "mset_fresh r"
    and ts: "ts = mset_tokens c (length kvs) @ rst"
    and data: "data = lines (mset_tokens c (length kvs)) @ take j (items_bytes kvs @ extra)"
  shows "\<exists>ret m st. Mset_Parser ts data r s = Inr (ret, r\<lparr>mdata := m, curstatus := st\<rparr>, s) \<and>
    mset_state kvs extra j [] ret m \<and> (ret = 0 \<longrightarrow> st = CONN_NREAD) \<and> (ret = MGET_REQ \<longrightarrow> st = CONN_CONREAD)"
proof -
  let ?n = "length kvs" and ?h = "mset_tokens c (length kvs)"
  let ?m0 = "(mdata r)\<lparr>totalSetNum := int ?n, setNum := int ?n\<rparr>"
  have cl: "list_all clean ?h" using assms(2) by (auto simp: mset_tokens_def mset_name_def clean_def [of "''mset''"] clean_def [of "''MSET''"])
  have len: "length ?h = 3" by (simp add: mset_tokens_def)
  have sk: "skip_lines 3 data 0 = Some (length (lines ?h))"
    using skip_lines_tokens [OF clean_no_crlf [OF cl], of "[]" "take j (items_bytes kvs @ extra)"]
    unfolding len data by simp
  have p0: "find_first_of data (count_token (2 * ?n + 1)) 0 = Some 0"
    by (simp add: data mset_tokens_def count_token_def find_first_of_def)
  have fn: "atoi (cstr (dec (2 * ?n + 1))) = 2 * int ?n + 1" using assms(3) by (simp add: cstr_id)
  have cut: "substr_from data (length (lines ?h)) = Inr (take j (items_bytes kvs @ extra))" by (simp add: data)
  obtain ret m where I: "ItemParser (take j (items_bytes kvs @ extra)) ?m0 = Inr (ret, m)" "mset_state kvs extra j [] ret m"
    using ItemParser_prefix [of kvs ?m0 j extra] assms(4,5) by (auto simp: ItemParser_def mset_fresh_def cache_ok_def)
  let ?r = "r\<lparr>mdata := m, curstatus := (if ret = MGET_REQ then CONN_CONREAD else CONN_NREAD)\<rparr>"
  have v: "vec_at ts 0 = Inr (count_token (2 * ?n + 1))" "substr_from (count_token (2 * ?n + 1)) 1 = Inr (dec (2 * ?n + 1))"
    "\<not> length ts < 3" by (simp_all add: ts mset_tokens_def count_token_def)
  have "Mset_Parser ts data r s = Inr (ret, ?r, s)"
    unfolding Mset_Parser_def with_auth_ok [OF assms(1)] Let_def if_not_P [OF v(3)] v(1,2) rbind_simps fn
    using p0 sk cut I(1) by simp
  then show ?thesis using I(2) by (auto simp: MGET_REQ_def)
qed

lemma Mset_Continue_step:
  assumes "mset_state kvs extra j M0 MGET_REQ (mdata r)" "\<forall>kv \<in> set kvs. small_pair kv"
    and "take j (items_bytes kvs @ extra) @ c = take (j + length c) (items_bytes kvs @ extra)"
    and "j < length (items_bytes kvs)"
  shows "\<exists>ret m st. Mset_ContinueParser c r = Inr (ret, r\<lparr>mdata := m, curstatus := st\<rparr>) \<and>
    mset_state kvs extra (j + length c) M0 ret m \<and> (ret = 0 \<longrightarrow> st = CONN_DATA)"
proof -
  obtain dn todo where d: "kvs = dn @ todo" "todo \<noteq> []" "length (items_bytes dn) \<le> j"
    "keys_values (mdata r) = fold (\<lambda>(k, v). sm_put k v) dn M0" "setNum (mdata r) = int (length todo)"
    "mcontent (mdata r) = take (j - length (items_bytes dn)) (items_bytes todo @ extra)" "cache_ok (hd todo) (mdata r)"
    using assms(1,4) unfolding mset_state_def by auto
  let ?i = "j - length (items_bytes dn)" and ?S = "items_bytes todo @ extra"
  have "items_bytes dn @ take ?i ?S @ c = items_bytes dn @ take (?i + length c) ?S"
    using assms(3) d(1,3) by (simp del: take_append add: take_append [of j "items_bytes dn"] take_append [of "j + length c" "items_bytes dn"])
  then have cat: "mcontent (mdata r) @ c = take (?i + length c) ?S" using d(6) by simp
  obtain ret m where I: "ItemParser_loop (length todo) (take (?i + length c) ?S) (mdata r) = Inr (ret, m)"
    "mset_state todo extra (?i + length c) (keys_values (mdata r)) ret m"
    using ItemParser_prefix [of todo "mdata r" "?i + length c" extra] assms(2) d by auto
  have st: "mset_state kvs extra (j + length c) M0 ret m"
  proof (cases "length (items_bytes todo) \<le> ?i + length c")
    case True
    moreover have "length (items_bytes kvs) \<le> j + length c" using True d(1,3) by simp
    ultimately show ?thesis using I(2) d(1,4) by (simp add: mset_state_def)
  next
    case False
    then obtain dn' todo' where e: "todo = dn' @ todo'" "todo' \<noteq> []" "length (items_bytes dn') \<le> ?i + length c"
      "keys_values m = fold (\<lambda>(k, v). sm_put k v) dn' (keys_values (mdata r))" "setNum m = int (length todo')"
      "mcontent m = take (?i + length c - length (items_bytes dn')) (items_bytes todo' @ extra)"
      "cache_ok (hd todo') m" "ret = MGET_REQ" using I(2) unfolding mset_state_def by auto
    show ?thesis unfolding e(8)
    proof (rule mset_stateI [of _ _ "dn @ dn'" todo'])
      show "\<not> length (items_bytes kvs) \<le> j + length c" using False d(1,3) by simp
      show "kvs = (dn @ dn') @ todo'" using d(1) e(1) by simp
      show "length (items_bytes (dn @ dn')) \<le> j + length c" using d(3) e(3) by simp
      have "j + length c - length (items_bytes (dn @ dn')) = ?i + length c - length (items_bytes dn')" using d(3) by simp
      then show "mcontent m = take (j + length c - length (items_bytes (dn @ dn'))) (items_bytes todo' @ extra)"
        using e(6) by simp
    qed (use d e in simp_all)
  qed
  have "Mset_ContinueParser c r = Inr (ret, r\<lparr>mdata := m, curstatus :=
      (if ret = MGET_REQ then CONN_CONREAD else if ret = 0 then CONN_DATA else curstatus r)\<rparr>)"
    using I(1) d(5) by (simp add: Mset_ContinueParser_def cat ItemParser_def)
  moreover have "ret = 0 \<longrightarrow> (if ret = MGET_REQ then CONN_CONREAD else if ret = 0 then CONN_DATA else curstatus r) = CONN_DATA"
    by (simp add: MGET_REQ_def)
  ultimately show ?thesis using st by blast
qed

lemma Process_Mset:
  assumes "auth r \<noteq> 0" "mset_name c" "length kvs < 2 ^ 30" "\<forall>kv \<in> set kvs. small_pair kv" "mset_fresh r"
  shows "\<exists>ret m st. Process now (lines (mset_tokens c (length kvs)) @ take j (items_bytes kvs @ extra)) r s =
      Inr (ret, [], r\<lparr>subc := Some ProcessMset, mdata := m, curstatus := st\<rparr>, s) \<and>
    mset_state kvs extra j [] ret m \<and> (ret = 0 \<longrightarrow> st = CONN_NREAD) \<and> (ret = MGET_REQ \<longrightarrow> st = CONN_CONREAD)"
proof -
  let ?h = "mset_tokens c (length kvs)" and ?d = "lines (mset_tokens c (length kvs)) @ take j (items_bytes kvs @ extra)"
  have cl: "list_all clean ?h" using assms(2) by (auto simp: mset_tokens_def mset_name_def clean_def [of "''mset''"] clean_def [of "''MSET''"])
  obtain rst where sp: "Redis_Split ?d crlf = ?h @ rst"
    using Split_prefix [OF cl, of "take j (items_bytes kvs @ extra)"] by (auto simp: not_mset_def mset_tokens_def)
  have nm: "map_of commands ((?h @ rst) ! 2) = Some ProcessMset" "length (?h @ rst) > 2"
    using assms(2) unfolding mset_tokens_def mset_name_def commands_def by (elim disjE; simp)+
  have pc: "ParseCommand now ?d r s = Mset_Parser (?h @ rst) ?d (r\<lparr>subc := Some ProcessMset\<rparr>) s"
    using ParseCommand_tokens [OF sp nm(2,1)] by simp
  have "auth (r\<lparr>subc := Some ProcessMset\<rparr>) \<noteq> 0" "mset_fresh (r\<lparr>subc := Some ProcessMset\<rparr>)"
    using assms(1,5) by (simp_all add: mset_fresh_def)
  then obtain ret m st where P: "Mset_Parser (?h @ rst) ?d (r\<lparr>subc := Some ProcessMset\<rparr>) s =
      Inr (ret, r\<lparr>subc := Some ProcessMset, mdata := m, curstatus := st\<rparr>, s)" "mset_state kvs extra j [] ret m"
      "ret = 0 \<longrightarrow> st = CONN_NREAD" "ret = MGET_REQ \<longrightarrow> st = CONN_CONREAD"
    using Mset_Parser_prefix [OF _ assms(2-4) _ refl refl, of "r\<lparr>subc := Some ProcessMset\<rparr>" rst j extra s] by blast
  have "ret = 0 \<or> ret = MGET_REQ" using P(2) by (auto simp: mset_state_def split: if_splits)
  then have "error_line ret = None" by (auto simp: error_line_def MGET_REQ_def REDIS_ERROR_def AUTH_FAIL_def AUTH_REQ_FAIL_def)
  then have "Process now ?d r s = Inr (ret, [], r\<lparr>subc := Some ProcessMset, mdata := m, curstatus := st\<rparr>, s)"
    unfolding Process_def pc P(1) by simp
  then show ?thesis using P(2-4) by blast
qed

text \<open>The reads that follow an incomplete \<open>MSET\<close>, up to the one that completes it.\<close>

fun mset_feed :: "string list \<Rightarrow> int \<Rightarrow> GentRedis \<Rightarrow> (int \<times> GentRedis) res" where
  "mset_feed [] ret r = Inr (ret, r)"
| "mset_feed (c # cs) ret r =
     (if ret = MGET_REQ then rbind (ContinueProcess c r) (\<lambda>(ret', r'). mset_feed cs ret' r') else Inr (ret, r))"

lemma mset_feed_state:
  assumes "mset_state kvs extra j [] ret m" "\<forall>kv \<in> set kvs. small_pair kv"
    and "take j (items_bytes kvs @ extra) @ concat cs = items_bytes kvs @ extra" "j \<le> length (items_bytes kvs @ extra)"
    and sub: "subc r = Some ProcessMset"
  shows "\<exists>m' st'. mset_feed cs ret (r\<lparr>mdata := m, curstatus := st\<rparr>) =
      Inr (0, r\<lparr>mdata := m', curstatus := st'\<rparr>) \<and>
    keys_values m' = fold (\<lambda>(k, v). sm_put k v) kvs [] \<and>
    st' = (if length (items_bytes kvs) \<le> j then st else CONN_DATA)"
  using assms(1-4)
proof (induction cs arbitrary: j ret m st)
  case Nil
  then have "length (items_bytes kvs) \<le> j" by (metis append.right_neutral concat.simps(1) length_append length_take le_add1 min.cobounded2 order_trans)
  then show ?case using Nil by (auto simp: mset_state_def)
next
  case (Cons c cs)
  let ?S = "items_bytes kvs @ extra"
  show ?case
  proof (cases "length (items_bytes kvs) \<le> j")
    case True
    then show ?thesis using Cons.prems by (auto simp: mset_state_def MGET_REQ_def)
  next
    case False
    then have ret: "ret = MGET_REQ" using Cons.prems by (simp add: mset_state_def)
    have len: "length ?S = j + length c + length (concat cs)"
      using arg_cong [OF Cons.prems(3), of length] Cons.prems(4)
      unfolding length_append [of "take j ?S"] length_take min.absorb2 [OF Cons.prems(4)] by simp
    have cut: "take j ?S @ c = take (j + length c) ?S"
      using Cons.prems(3,4) by (metis add.commute append_eq_append_conv append_take_drop_id concat.simps(2) length_take append.assoc min.absorb2 take_add take_drop append_eq_conv_conj)
    let ?r = "r\<lparr>mdata := m, curstatus := st\<rparr>"
    obtain ret' m' st' where C: "Mset_ContinueParser c ?r = Inr (ret', ?r\<lparr>mdata := m', curstatus := st'\<rparr>)"
      "mset_state kvs extra (j + length c) [] ret' m'" "ret' = 0 \<longrightarrow> st' = CONN_DATA"
      using Mset_Continue_step [of kvs extra j "[]" ?r c] Cons.prems(1,2) ret cut False by auto
    have "take (j + length c) ?S @ concat cs = ?S" using Cons.prems(3) cut by (metis append.assoc concat.simps(2))
    then obtain m2 st2 where "mset_feed cs ret' (r\<lparr>mdata := m', curstatus := st'\<rparr>) =
        Inr (0, r\<lparr>mdata := m2, curstatus := st2\<rparr>)"
      "keys_values m2 = fold (\<lambda>(k, v). sm_put k v) kvs []" "st2 = (if length (items_bytes kvs) \<le> j + length c then st' else CONN_DATA)"
      using Cons.IH [OF C(2) Cons.prems(2), of st'] len by auto
    moreover have "length (items_bytes kvs) \<le> j + length c \<longrightarrow> st' = CONN_DATA" using C(2,3) by (simp add: mset_state_def)
    ultimately show ?thesis using ret C(1) False sub by (auto simp: ContinueProcess_def)
  qed
qed

lemma mset_pairs:
  shows "map_of (rev (fold (\<lambda>(k, v). sm_put k v) kvs [])) = map_of (rev (kvs :: (string, string) smap))"
    and "set (fold (\<lambda>(k, v). sm_put k v) kvs []) \<subseteq> set (kvs :: (string, string) smap)"
proof -
  let ?M = "fold (\<lambda>(k, v). sm_put k v) kvs []"
  have i0: "sm_inv ([] :: (string, string) smap)" by (simp add: sm_inv_def)
  have i: "sm_inv ?M" using sm.inv_write [OF i0, where kvs = kvs] by simp
  have g: "sm_get ?M j = map_of (rev kvs) j" for j
    using sm.get_write [OF i0, where kvs = kvs and j = j] by (simp add: sm_get_def split: option.split)
  have d: "distinct (map fst ?M)" using sm.entries_distinct [OF i] .
  have "map_of (rev ?M) = map_of ?M" using d by (subst map_of_inject_set) (simp_all flip: rev_map)
  then show "map_of (rev ?M) = map_of (rev kvs)" using g by (auto simp: sm_get_def)
  show "set ?M \<subseteq> set kvs"
  proof
    fix p assume "p \<in> set ?M"
    then have "map_of (rev kvs) (fst p) = Some (snd p)"
      using map_of_is_SomeI [OF d, of "fst p" "snd p"] g [of "fst p"] by (simp add: sm_get_def)
    then show "p \<in> set kvs" using map_of_SomeD by fastforce
  qed
qed

lemma fold_master_push_simps [simp]:
  "sdb (fold (\<lambda>(key, v). master_push q ADD key) kvs s) = sdb s"
  "slave (fold (\<lambda>(key, v). master_push q ADD key) kvs s) = slave s"
  by (induction kvs arbitrary: s) auto

lemma small_pair_fits: "small_pair (k, v) \<Longrightarrow> pair_fits k v"
  by (auto simp: small_pair_def pair_fits_def)

lemma Mset_Complete_store:
  assumes "server_ok q s" "\<forall>kv \<in> set kvs. small_pair kv" "keys_values (mdata r) = fold (\<lambda>(k, v). sm_put k v) kvs []"
  shows "\<exists>s'. Mset_Complete q r s = Inr (store_reply r s' True, r\<lparr>mdata := (mdata r)\<lparr>keys_values := []\<rparr>\<rparr>, s') \<and>
    GentDb_inv (sdb s') \<and>
    store_of (sdb s') = store_of (sdb s) ++ (map_option (\<lambda>v. (v, 0)) \<circ> map_of (rev kvs)) \<and> slave s' = slave s"
proof -
  let ?M = "fold (\<lambda>(k, v). sm_put k v) kvs []"
  obtain ok g where w: "BatchPut (q_db q) ?M (sdb s) = (ok, g)" by fastforce
  have fits: "\<forall>p \<in> set ?M. pair_fits (fst p) (snd p)" using mset_pairs(2) [of kvs] assms(2) small_pair_fits by fastforce
  have e: "GentDb_inv (sdb s)" "env_ok (q_db q)" using assms(1) by (simp_all add: server_ok_def)
  have ok: ok using BatchPut_dbs(1) [OF e(1) fits e(2)] w by simp
  have inv: "GentDb_inv g" using BatchPut_inv [OF e(1) fits e(2)] w by simp
  have st: "store_of g = store_of (sdb s) ++ (map_option (\<lambda>v. (v, 0)) \<circ> map_of (rev kvs))"
    using BatchPut_store [OF e(1) fits e(2)] w by (simp add: mset_pairs(1))
  let ?s = "fold (\<lambda>(key, v). master_push q ADD key) ?M (s\<lparr>sdb := g\<rparr>)"
  have "Mset_Complete q r s = Inr (store_reply r ?s True, r\<lparr>mdata := (mdata r)\<lparr>keys_values := []\<rparr>\<rparr>, ?s)"
    using w ok by (simp add: Mset_Complete_def assms(3) Let_def)
  then show ?thesis using inv st by simp
qed

lemma MSET_run:
  assumes "auth r \<noteq> 0" "mset_name c" "length kvs < 2 ^ 30" "\<forall>kv \<in> set kvs. small_pair kv" "mset_fresh r"
    and "c0 @ concat cs = items_bytes kvs @ extra" "server_ok q s"
  shows "\<exists>ret r1 r2 r3 s'. Process (q_now q) (lines (mset_tokens c (length kvs)) @ c0) r s = Inr (ret, [], r1, s) \<and>
    mset_feed cs ret r1 = Inr (0, r2) \<and> (curstatus r2 = CONN_NREAD \<or> curstatus r2 = CONN_DATA) \<and>
    Complete q [] r2 s = Inr (if is_slave r then SlaveReply 1 (slave s) else ''+OK'' @ crlf, r3, s') \<and>
    GentDb_inv (sdb s') \<and>
    store_of (sdb s') = store_of (sdb s) ++ (map_option (\<lambda>v. (v, 0)) \<circ> map_of (rev kvs))"
proof -
  let ?S = "items_bytes kvs @ extra" and ?j = "length c0"
  have c0: "c0 = take ?j ?S" using assms(6) by (metis append_eq_conv_conj)
  have j: "?j \<le> length ?S" using arg_cong [OF assms(6), of length] by simp
  have cut: "take ?j ?S @ concat cs = ?S" using c0 assms(6) by metis
  obtain ret m st where P: "Process (q_now q) (lines (mset_tokens c (length kvs)) @ take ?j ?S) r s =
      Inr (ret, [], r\<lparr>subc := Some ProcessMset, mdata := m, curstatus := st\<rparr>, s)"
    "mset_state kvs extra ?j [] ret m" "ret = 0 \<longrightarrow> st = CONN_NREAD" "ret = MGET_REQ \<longrightarrow> st = CONN_CONREAD"
    using Process_Mset [OF assms(1-5), of "q_now q" ?j extra s] by blast
  let ?r = "r\<lparr>subc := Some ProcessMset\<rparr>"
  obtain m' st' where F: "mset_feed cs ret (?r\<lparr>mdata := m, curstatus := st\<rparr>) = Inr (0, ?r\<lparr>mdata := m', curstatus := st'\<rparr>)"
    "keys_values m' = fold (\<lambda>(k, v). sm_put k v) kvs []" "st' = (if length (items_bytes kvs) \<le> ?j then st else CONN_DATA)"
    using mset_feed_state [OF P(2) assms(4) cut j, of ?r st] by auto
  let ?r2 = "?r\<lparr>mdata := m', curstatus := st'\<rparr>"
  obtain s' where C: "Mset_Complete q ?r2 s = Inr (store_reply ?r2 s' True, ?r2\<lparr>mdata := m'\<lparr>keys_values := []\<rparr>\<rparr>, s')"
    "GentDb_inv (sdb s')" "store_of (sdb s') = store_of (sdb s) ++ (map_option (\<lambda>v. (v, 0)) \<circ> map_of (rev kvs))"
    "slave s' = slave s"
    using Mset_Complete_store [OF assms(7,4), of ?r2] F(2) by auto
  have "Complete q [] ?r2 s = Inr (if is_slave r then SlaveReply 1 (slave s) else ''+OK'' @ crlf, ?r2\<lparr>mdata := m'\<lparr>keys_values := []\<rparr>\<rparr>, s')"
    using C(1,4) by (simp add: Complete_def store_reply_def)
  moreover have "curstatus ?r2 = CONN_NREAD \<or> curstatus ?r2 = CONN_DATA" using F(3) P(2,3) by (auto simp: mset_state_def)
  moreover have "Process (q_now q) (lines (mset_tokens c (length kvs)) @ c0) r s =
      Inr (ret, [], ?r\<lparr>mdata := m, curstatus := st\<rparr>, s)" using P(1) c0 by simp
  ultimately show ?thesis using F(1) C(2,3) by blast
qed

end
