(* ===== verification/Protocol.thy ===== *)
theory Protocol
  imports RedisProps
begin

text \<open>
  What a client observes of the commands: requests as bytes, however they are cut into reads,
  their effect on the stored data and their replies, the authentication gate, and the
  malformed requests that crash the server.
\<close>

section \<open>A server to evaluate on\<close>

definition mgr0 :: GentRepMgr where
  "mgr0 = GentRepMgr_new None ''srv'' (file0, [])"

definition server0 :: Server where
  "server0 = \<lparr>sdb = db0, master = mgr0, slave = mgr0, master_msgs = [], config = [], pending_deletes = []\<rparr>"

definition info0 :: info_env where
  "info0 = \<lparr>info_pid = 1, info_port = 3535, info_file = [], info_levels = [], info_total_conn = 1, info_conn = 1,
     info_size = 0, info_human = ''0B'', info_timestr = (\<lambda>_. []), info_conn_st = (\<lambda>_. ''read'')\<rparr>"

definition req0 :: req_env where
  "req0 = \<lparr>q_db = env0, q_open = (\<lambda>_. True), q_rand = 0, q_pipe = True, q_thread = True, q_junk = rep0,
     q_fjunk = [NUL], q_info = info0\<rparr>"

definition mset0 :: mset_data where
  "mset0 = \<lparr>keys_values = [], mcontent = [], cur_key = [], cur_key_end = 7, cur_content_len = 0,
     cur_content_start = 0, totalSetNum = 0, setNum = 0\<rparr>"

definition redis0 :: GentRedis where
  "redis0 = GentRedis_new \<lparr>auth = 0, master_auth = 9, keystr = [], mdata = mset0, keyvec = [], content = [],
     repmsg = [], subc = None, rlbytes = 0, expire = 0, is_sync_all = False, curstatus = CONN_READ,
     is_slave = False, conn_id = 7, conn_ip = ''127.0.0.1''\<rparr>"

lemma server0_simps [simp]: "sdb server0 = db0" "config server0 = []" "master server0 = mgr0" "slave server0 = mgr0"
  by (simp_all add: server0_def)

lemma req0_simps [simp]: "server_ok req0 server0" "q_now req0 = 1400000000" "q_db req0 = env0"
  by (simp_all add: server_ok_def req0_def q_now_def) (simp add: env0_def)

lemma redis0_simps [simp]: "auth redis0 = 0" "is_slave redis0 = False" "mset_fresh redis0"
  by (simp_all add: redis0_def GentRedis_new_def mset_fresh_def mset_init_def)

section \<open>SET, GET, SETEX and TTL\<close>



lemma Ttl_Complete_answer:
  assumes "GentDb_inv (sdb s)" "agree (sdb s)" "store_of (sdb s) (keystr r) = Some (v, x)" "0 < x" "x < 10 ^ 10"
  shows "Ttl_Complete q r s = Inr (if q_now q < x then '':'' @ dec (x - q_now q) @ crlf else '':-2'' @ crlf, r, s)"
proof -
  have "length (dec (x - q_now q)) \<le> 10" using assms(5) by (intro length_dec_le) auto
  then have "snprintf_buf 50 ('':'' @ dec (x - q_now q) @ crlf) = '':'' @ dec (x - q_now q) @ crlf"
    by (simp add: snprintf_buf_fits)
  then show ?thesis using Ttl_store [OF assms(1,2), of "keystr r"] assms(3,4) by (simp add: Ttl_Complete_def)
qed

text \<open>
  C16: a key stored by \<open>SETEX\<close> at time \<open>t\<close> for \<open>secs\<close> seconds is answered by \<open>GET\<close> up to and including
  second \<open>t + secs\<close> and no longer, and before that second \<open>TTL\<close> answers the seconds that are
  left. At \<open>t + secs\<close> itself \<open>TTL\<close> already answers \<open>-2\<close> (no such key) while \<open>GET\<close> still returns
  the value.
\<close>

theorem SETEX_TTL_GET:
  assumes "auth r \<noteq> 0" "\<not> is_slave r" "good_key_arg k" "setex_name c" "length v < 2 ^ 31"
    and "server_ok q s" "value_cut v chunk recont" "agree (sdb s)" "0 < secs" "secs < 2 ^ 31" "ten_digits (q_now q + secs)"
    and "key_command gc ProcessGet" "key_command tc ProcessTtl"
  shows "\<exists>r1 r2 s'. Process (q_now q) (lines (setex_tokens c k secs (length v)) @ chunk) r s =
      Inr (int (length recont), [], r1, s) \<and>
    Complete q recont r1 s = Inr (''+OK'' @ crlf, r2, s') \<and>
    (\<forall>q'. \<exists>r3 r4. Process (q_now q') (request [gc, k]) r2 s' = Inr (0, [], r3, s') \<and>
       Complete q' [] r3 s' = Inr (if q_now q + secs < q_now q' then ''$-1'' @ crlf else bulk v, r3, s') \<and>
       Process (q_now q') (request [tc, k]) r2 s' = Inr (0, [], r4, s') \<and>
       Complete q' [] r4 s' = Inr (if q_now q' < q_now q + secs then '':'' @ dec (q_now q + secs - q_now q') @ crlf
                                   else '':-2'' @ crlf, r4, s'))"
proof -
  let ?x = "q_now q + secs"
  obtain r1 r2 s' where S: "Process (q_now q) (lines (setex_tokens c k secs (length v)) @ chunk) r s =
      Inr (int (length recont), [], r1, s)"
    "Complete q recont r1 s = Inr (''+OK'' @ crlf, r2, s')" "GentDb_inv (sdb s')"
    "store_of (sdb s') = (store_of (sdb s))(k \<mapsto> (v, ?x))" "auth r2 \<noteq> 0" "agree (sdb s')"
    using SETEX_run [OF assms(1,3-7,10,11)] assms(1,2,8) by auto
  have k: "clean k" "length k < 2 ^ 31" using assms(3) by (auto simp: good_key_arg_def)
  have x: "0 < ?x" "?x < 10 ^ 10" using assms(9,11) by (simp_all add: ten_digits_def)
  have "\<exists>r3. Process (q_now q') (request [gc, k]) r2 s' = Inr (0, [], r3, s') \<and>
       Complete q' [] r3 s' = Inr (if ?x < q_now q' then ''$-1'' @ crlf else bulk v, r3, s')" for q'
    using GET_run [OF S(5) assms(3,12) S(3), of q'] S(4) assms(5,9) by (auto simp: visible_def get_answer_def)
  moreover have "\<exists>r4. Process (q_now q') (request [tc, k]) r2 s' = Inr (0, [], r4, s') \<and>
       Complete q' [] r4 s' = Inr (if q_now q' < ?x then '':'' @ dec (?x - q_now q') @ crlf else '':-2'' @ crlf, r4, s')" for q'
    using Process_key [OF S(5) k assms(13), of "q_now q'" s']
      Ttl_Complete_answer [OF S(3,6), of "r2\<lparr>subc := Some ProcessTtl, curstatus := CONN_DATA, keystr := k\<rparr>" v ?x q'] S(4) x
    by (simp add: Complete_def)
  ultimately show ?thesis using S(1,2) by blast
qed

theorem SETEX_TTL_GET_witness:
  "ten_digits (q_now req0 + 60) \<and>
   (\<exists>r1 r2 s'. Complete req0 ''v'' r1 server0 = Inr (''+OK'' @ crlf, r2, s') \<and>
      (\<exists>r4. Complete req0 [] r4 s' = Inr ('':60'' @ crlf, r4, s')))"
proof -
  have k: "good_key_arg ''key''" "setex_name ''setex''" by (simp_all add: good_key_arg_def clean_def setex_name_def)
  have v: "value_cut ''v'' [] ''v''" by (simp add: value_cut_def)
  have r: "auth (redis0\<lparr>auth := 1\<rparr>) \<noteq> 0" "\<not> is_slave (redis0\<lparr>auth := 1\<rparr>)" by simp_all
  have t: "ten_digits (q_now req0 + 60)" by (simp add: ten_digits_def)
  obtain r1 r2 s' where A: "Complete req0 ''v'' r1 server0 = Inr (''+OK'' @ crlf, r2, s')"
    and B: "\<forall>q'. \<exists>r3 r4. Process (q_now q') (request [''get'', ''key'']) r2 s' = Inr (0, [], r3, s') \<and>
       Complete q' [] r3 s' = Inr (if q_now req0 + 60 < q_now q' then ''$-1'' @ crlf else bulk ''v'', r3, s') \<and>
       Process (q_now q') (request [''ttl'', ''key'']) r2 s' = Inr (0, [], r4, s') \<and>
       Complete q' [] r4 s' = Inr (if q_now q' < q_now req0 + 60 then '':'' @ dec (q_now req0 + 60 - q_now q') @ crlf
                                   else '':-2'' @ crlf, r4, s')"
    using SETEX_TTL_GET [OF r k _ req0_simps(1) v, where secs = 60 and gc = "''get''" and tc = "''ttl''"] t by auto
  have "dec 60 = ''60''" by code_simp
  then have "\<exists>r4. Complete req0 [] r4 s' = Inr ('':60'' @ crlf, r4, s')" using spec [OF B, of req0] by auto
  then show ?thesis using A t by blast
qed

section \<open>MSET and DEL\<close>



text \<open>
  C18: \<open>DEL\<close> of a key that a \<open>GET\<close> would find answers \<open>:1\<close>, removes the key, and queues the deletion
  for every running slave; \<open>DEL\<close> of any other key, expired ones included, answers \<open>:0\<close> and
  changes nothing.
\<close>

theorem DEL_exact:
  assumes "auth r \<noteq> 0" "\<not> is_slave r" "good_key_arg k" "key_command c ProcessDel" "server_ok q s"
  shows "\<exists>r1. Process (q_now q) (request [c, k]) r s = Inr (0, [], r1, s) \<and>
    (if visible (q_now q) (store_of (sdb s) k) = None
     then Complete q [] r1 s = Inr ('':0'' @ crlf, r1, s)
     else \<exists>s'. Complete q [] r1 s = Inr ('':1'' @ crlf, r1, s') \<and> GentDb_inv (sdb s') \<and>
       store_of (sdb s') = (store_of (sdb s))(k := None) \<and> pushed_to_all DEL k (master s) (master s'))"
proof -
  let ?r = "r\<lparr>subc := Some ProcessDel, curstatus := CONN_DATA, keystr := k\<rparr>"
  have k: "clean k" "length k < 2 ^ 31" "key_fits k" using assms(3) by (auto simp: good_key_arg_def key_fits_def)
  have P: "Process (q_now q) (request [c, k]) r s = Inr (0, [], ?r, s)"
    by (rule Process_key [OF assms(1) k(1,2) assms(4)])
  have e: "GentDb_inv (sdb s)" "write_ok (env_db (q_db q))" "write_ok (env_meta (q_db q) 0)"
    using assms(5) by (simp_all add: server_ok_def env_ok_def)
  obtain ok g where w: "GentDb_Del (q_db q) k (sdb s) = (ok, g)" by fastforce
  have D: "ok" "GentDb_inv g" "store_of g = (store_of (sdb s))(k := None)"
    using Del_dbs(1) [OF e(1) k(3), of "q_db q"] e Del_inv [OF e(1) k(3), of "q_db q"] Del_store_agree(1) [OF e(1) k(3) e(2,3)] w
    by simp_all
  let ?s = "master_push q DEL k (s\<lparr>sdb := g\<rparr>)"
  have "Complete q [] ?r s = (if visible (q_now q) (store_of (sdb s) k) = None then Inr ('':0'' @ crlf, ?r, s)
      else Inr ('':1'' @ crlf, ?r, ?s))"
    using Get_visible [OF e(1), of "q_now q" k] w D(1) assms(2) by (simp add: Complete_def Del_Complete_def Let_def)
  then show ?thesis using P D master_push_all [of DEL k "s\<lparr>sdb := g\<rparr>" q] by auto
qed

theorem DEL_exact_witness:
  "\<exists>r1 s'. Process (q_now req0) (request [''del'', ''k'']) (redis0\<lparr>auth := 1\<rparr>)
        (server0\<lparr>sdb := snd (Put_body env0 ''k'' ''v'' 0 1 db0)\<rparr>) =
       Inr (0, [], r1, server0\<lparr>sdb := snd (Put_body env0 ''k'' ''v'' 0 1 db0)\<rparr>) \<and>
     Complete req0 [] r1 (server0\<lparr>sdb := snd (Put_body env0 ''k'' ''v'' 0 1 db0)\<rparr>) = Inr ('':1'' @ crlf, r1, s') \<and>
     store_of (sdb s') ''k'' = None"
proof -
  let ?s = "server0\<lparr>sdb := snd (Put_body env0 ''k'' ''v'' 0 1 db0)\<rparr>"
  have k: "good_key_arg ''k''" "pair_fits ''k'' ''v''" "good_type 1" "good_expire 0"
    by (simp_all add: good_key_arg_def clean_def pair_fits_def good_type_def good_expire_def)
  have r: "auth (redis0\<lparr>auth := 1\<rparr>) \<noteq> 0" "\<not> is_slave (redis0\<lparr>auth := 1\<rparr>)" by simp_all
  have now: "ten_digits (env_now env0)" by (simp add: env0_def ten_digits_def)
  have s: "server_ok req0 ?s" using Put_body_inv [OF db0_simps(1) k(2,3) now] by (simp add: server_ok_def)
  have "store_of (sdb ?s) ''k'' = Some (''v'', 0)"
    using Put_body_store [OF db0_simps(1) k(2) env0_ok(1) k(3,4)] by simp
  then show ?thesis using DEL_exact [OF r k(1) key_commands(5) s] by (auto simp: visible_def)
qed

section \<open>The authentication gate\<close>

definition locked :: "Server \<Rightarrow> GentRedis \<Rightarrow> bool" where
  "locked s r \<longleftrightarrow> auth r = 0 \<and> config_at (config s) ''auth'' \<noteq> []"

lemma with_auth_locked: "locked s r \<Longrightarrow> with_auth s r k = Inr (AUTH_REQ_FAIL, r, s)"
  by (simp add: locked_def with_auth_def IsAuth_def)

lemma Parser_locked:
  assumes "locked s r" "c \<notin> {ProcessAuth, ProcessQuit, ProcessRep}"
  shows "Parser c now ts data r s = Inr (AUTH_REQ_FAIL, r, s)"
  using assms(2) with_auth_locked [OF assms(1)]
  by (cases c) (simp_all add: Get_Parser_def Set_Parser_def Setex_Parser_def Mset_Parser_def Ttl_Parser_def Mget_Parser_def
      Randomkey_Parser_def Del_Parser_def Keys_Parser_def Exists_Parser_def Ping_Parser_def Info_Parser_def
      Reply_Parser_def Slave_Parser_def)

lemma Rep_Parser_frame:
  assumes "Rep_Parser ts r s = Inr (n, r', s')"
  shows "s' = s \<and> auth r' = auth r \<and> subc r' = subc r"
  using assms by (auto simp: Rep_Parser_def Let_def rbind_eq_Inr_iff split: if_splits)

lemma Auth_Parser_locked:
  assumes "locked s r" "Auth_Parser ts r s = Inr (n, r', s')"
  shows "s' = s \<and> auth r' = 0 \<and> subc r' = subc r \<and>
    (n = - 1 \<or> n = AUTH_FAIL \<or> n = 0 \<and> arg_at ts 3 4 = Inr (config_at (config s) ''auth''))"
  using assms by (auto simp: Auth_Parser_def locked_def rbind_eq_Inr_iff split: if_splits)

lemma error_line_text: "error_line st = Some out \<Longrightarrow> out \<noteq> []"
  by (auto simp: error_line_def REDIS_ERROR_def split: if_splits)

text \<open>
  C15: on a server with a password, nothing a client sends before it is authenticated reads or
  changes the data: every request that is parsed leaves the server and the authentication
  unchanged, and it is answered by an error line, so it is not executed, unless it is
  empty, is \<open>QUIT\<close>, is \<open>AUTH\<close> with the right password, or is \<open>REP\<close>, the command of a slave,
  which this gate does not cover (it has its own password, \<open>master_auth\<close>).
\<close>

theorem auth_gate:
  assumes "auth r = 0" "config_at (config s) ''auth'' \<noteq> []" "Process now data r s = Inr (n, out, r', s')"
  shows "s' = s \<and> auth r' = 0 \<and>
    (out = [] \<longrightarrow> Redis_Split data crlf = [] \<or> subc r' = Some ProcessQuit \<or> subc r' = Some ProcessRep \<or>
       subc r' = Some ProcessAuth \<and> arg_at (Redis_Split data crlf) 3 4 = Inr (config_at (config s) ''auth''))"
proof -
  let ?ts = "Redis_Split data crlf"
  obtain st where p: "ParseCommand now data r s = Inr (st, r', s')" and out: "out = [] \<Longrightarrow> error_line st = None"
    using assms(3) error_line_text unfolding Process_def
    by (fastforce simp: rbind_eq_Inr_iff split: option.splits)
  have empt: "data = [] \<Longrightarrow> ?ts = []" by (simp add: Redis_Split_def Redis_Split_loop.simps [of "[]"] find_first_of_def)
  show ?thesis
  proof (cases "\<exists>c. data \<noteq> [] \<and> ?ts \<noteq> [] \<and> \<not> length ?ts < 3 \<and> map_of commands (?ts ! 2) = Some c")
    case True
    then obtain c where c: "Parser c now ?ts data (r\<lparr>subc := Some c\<rparr>) s = Inr (st, r', s')"
      using p by (auto simp: ParseCommand_def Let_def)
    have l: "locked s (r\<lparr>subc := Some c\<rparr>)" using assms(1,2) by (simp add: locked_def)
    consider "c \<notin> {ProcessAuth, ProcessQuit, ProcessRep}" | "c = ProcessAuth" | "c = ProcessQuit" | "c = ProcessRep" by auto
    then show ?thesis
    proof cases
      case 1
      then have "st = AUTH_REQ_FAIL" "r' = r\<lparr>subc := Some c\<rparr>" "s' = s" using c Parser_locked [OF l 1] by auto
      then show ?thesis using assms(1) out by (auto simp: error_line_def AUTH_REQ_FAIL_def)
    next
      case 2
      then show ?thesis using Auth_Parser_locked [OF l, of ?ts st r' s'] c out
        by (auto simp: error_line_def AUTH_FAIL_def AUTH_REQ_FAIL_def)
    next
      case 3
      then show ?thesis using c assms(1) by (auto simp: Quit_Parser_def)
    next
      case 4
      then show ?thesis using c assms(1) Rep_Parser_frame [of ?ts "r\<lparr>subc := Some c\<rparr>" s st r' s'] by auto
    qed
  next
    case False
    then have "r' = r \<and> s' = s \<and> (?ts = [] \<or> st = - 1)" using p empt
      by (auto simp: ParseCommand_def Let_def split: if_splits option.splits)
    then show ?thesis using assms(1) out by (auto simp: error_line_def)
  qed
qed

theorem auth_gate_witness:
  "locked (server0\<lparr>config := [(''auth'', ''pw'')]\<rparr>) redis0 \<and>
   (\<exists>n out r'. Process 1400000000 (request [''get'', ''k'']) redis0 (server0\<lparr>config := [(''auth'', ''pw'')]\<rparr>) =
       Inr (n, out, r', server0\<lparr>config := [(''auth'', ''pw'')]\<rparr>) \<and> auth r' = 0)"
proof -
  let ?s = "server0\<lparr>config := [(''auth'', ''pw'')]\<rparr>" and ?ts = "count_token 2 # arg_tokens [''get'', ''k'']"
  have a: "config_at (config ?s) ''auth'' \<noteq> []" by (simp add: config_at_def sm_get_def)
  have l: "locked ?s redis0" "locked ?s (redis0\<lparr>subc := Some ProcessGet\<rparr>)" using a by (simp_all add: locked_def)
  have "Redis_Split (lines ?ts) crlf = ?ts" by (rule Split_exact) (simp_all add: clean_def [of "''get''"] clean_def [of "''k''"] not_mset_def)
  then have sp: "Redis_Split (request [''get'', ''k'']) crlf = ?ts" by (simp add: request_def numeral_2_eq_2)
  have t: "length ?ts > 2" "map_of commands (?ts ! 2) = Some ProcessGet" by (simp_all add: commands_def)
  have P: "Process 1400000000 (request [''get'', ''k'']) redis0 ?s =
      Inr (0, ''- '' @ ''NOAUTH Authentication required.'' @ crlf, redis0\<lparr>subc := Some ProcessGet\<rparr>, ?s)"
    using ParseCommand_tokens [OF sp t] Parser_locked [OF l(2), of ProcessGet]
    by (simp add: Process_def error_line_def AUTH_REQ_FAIL_def)
  show ?thesis using auth_gate [OF redis0_simps(1) a P] l(1) P by blast
qed

section \<open>Requests that crash the server\<close>

lemma Split_empty_line:
  assumes "length v < 10"
  shows "Redis_Split_loop (pre @ crlf @ r) crlf (length pre) v = Redis_Split_loop (pre @ crlf @ r) crlf (length pre + 2) v"
proof -
  have f: "find_first_of (pre @ crlf @ r) crlf (length pre) = Some (length pre)"
    using find_crlf_token [of "[]" pre r] by simp
  show ?thesis
    by (subst Redis_Split_loop.simps) (use f assms in simp)
qed

text \<open>
  C38: a \<open>SET\<close> whose fifth line is followed by an empty line instead of the length of the value
  reads past the end of the token vector: \<open>Split\<close> drops the empty line, so there are five
  tokens, the line count finds six line ends, and the parser takes \<open>tokenList[5]\<close>, which
  does not exist. Any authenticated client can send such a request.
\<close>

theorem SET_bad_index:
  assumes "auth r \<noteq> 0" "good_key_arg k" "set_name c"
  shows "Process now (lines [count_token 3, len_token 3, c, len_token (length k), k] @ crlf) r s = Inl Bad_index"
proof -
  let ?ts = "[count_token 3, len_token 3, c, len_token (length k), k]" and ?r = "r\<lparr>subc := Some ProcessSet\<rparr>"
  let ?d = "lines ?ts @ crlf"
  have cl: "list_all clean ?ts" using assms(2,3) by (auto simp: good_key_arg_def set_name_def clean_def [of "''set''"] clean_def [of "''SET''"])
  have nm: "not_mset ?ts" by (simp add: not_mset_def)
  have "Redis_Split ?d crlf = Redis_Split_loop ?d crlf (length (lines ?ts)) ?ts"
    unfolding Redis_Split_def using Split_tokens [OF cl, of "[]" "[]" crlf] nm by simp
  also have "\<dots> = ?ts"
    using Split_empty_line [of ?ts "lines ?ts" "[]"] Split_end [of ?d ?ts] by (simp add: crlf_def)
  finally have sp: "Redis_Split ?d crlf = ?ts" .
  have t: "length ?ts > 2" "map_of commands (?ts ! 2) = Some ProcessSet" using commands_set(1) [OF assms(3)] by simp_all
  have "list_all (\<lambda>t. CR \<notin> set t \<and> LF \<notin> set t) (?ts @ [[]])" using clean_no_crlf [OF cl] by simp
  moreover have "(6 :: nat) = length (?ts @ [[]])" by simp
  ultimately have sk: "skip_lines 6 ?d 0 = Some (length ?d)"
    using skip_lines_tokens [of "?ts @ [[]]" "[]" "[]"] by (simp only: append_Nil list.size lines_simps append_assoc append_Nil2)
  have k: "length k < 2 ^ 31" "length k < 250" using assms(2) by (simp_all add: good_key_arg_def)
  have f: "find_first_of ?d ''*3'' 0 = Some 0" by (simp add: count_token_def find_first_of_def)
  have "Set_Parser ?ts ?d ?r s = Inl Bad_index"
    unfolding Set_Parser_def using assms(1) k f sk by (simp add: with_auth_ok arg_at_def Let_def)
  then show ?thesis using ParseCommand_tokens [OF sp t] by (simp add: Process_def)
qed

theorem SET_bad_index_witness:
  "Process 0 (lines [count_token 3, len_token 3, ''set'', len_token (length ''k''), ''k''] @ crlf) (redis0\<lparr>auth := 1\<rparr>) server0
     = Inl Bad_index"
  by (rule SET_bad_index) (simp_all add: good_key_arg_def clean_def set_name_def)

text \<open>
  An \<open>MSET\<close> whose first length line is empty throws: \<open>GetLength\<close> takes \<open>substr (1)\<close> of the
  empty string, and nothing catches the exception, so the server ends.
\<close>

lemma MSET_throws:
  assumes "auth r \<noteq> 0" "mset_name c" "0 < n" "n < 2 ^ 30" "cur_key (mdata r) = []"
  shows "Process now (lines (mset_tokens c n) @ crlf @ rest) r s = Inl Out_of_range"
proof -
  let ?h = "mset_tokens c n" and ?d = "lines (mset_tokens c n) @ crlf @ rest" and ?r = "r\<lparr>subc := Some ProcessMset\<rparr>"
  have cl: "list_all clean ?h" using assms(2) by (auto simp: mset_tokens_def mset_name_def clean_def [of "''mset''"] clean_def [of "''MSET''"])
  obtain rst where sp: "Redis_Split ?d crlf = ?h @ rst"
    using Split_prefix [OF cl, of "crlf @ rest"] by (auto simp: not_mset_def mset_tokens_def)
  have nm: "map_of commands ((?h @ rst) ! 2) = Some ProcessMset" "length (?h @ rst) > 2"
    using assms(2) unfolding mset_tokens_def mset_name_def commands_def by (elim disjE; simp)+
  have len: "length ?h = 3" by (simp add: mset_tokens_def)
  have sk: "skip_lines 3 ?d 0 = Some (length (lines ?h))"
    using skip_lines_tokens [OF clean_no_crlf [OF cl], of "[]" "crlf @ rest"] unfolding len by simp
  have p0: "find_first_of ?d (count_token (2 * n + 1)) 0 = Some 0"
    by (simp add: mset_tokens_def count_token_def find_first_of_def)
  have v: "vec_at (?h @ rst) 0 = Inr (count_token (2 * n + 1))" "substr_from (count_token (2 * n + 1)) 1 = Inr (dec (2 * n + 1))"
    "\<not> length (?h @ rst) < 3" by (simp_all add: mset_tokens_def count_token_def)
  have fn: "atoi (cstr (dec (2 * n + 1))) = 2 * int n + 1" using assms(4) by (simp add: cstr_id)
  have cut: "substr_from ?d (length (lines ?h)) = Inr (crlf @ rest)" by simp
  have "find_first_of (crlf @ rest) crlf 0 = Some 0" by (simp add: crlf_def find_first_of_def)
  then have st: "item_step (crlf @ rest) m = Inl Out_of_range" if "cur_key m = []" for m
    using that by (simp add: item_step_def item_key_def GetLength_def substr_from_def)
  obtain n' where n': "n = Suc n'" using assms(3) by (cases n) auto
  have I: "ItemParser (crlf @ rest) m = Inl Out_of_range" if "setNum m = int n" "cur_key m = []" for m
    unfolding ItemParser_def that(1) nat_int n' by (simp add: st [OF that(2)])
  have ok: "auth ?r \<noteq> 0" using assms(1) by simp
  have "Mset_Parser (?h @ rst) ?d ?r s = Inl Out_of_range"
    unfolding Mset_Parser_def with_auth_ok [OF ok] Let_def if_not_P [OF v(3)] v(1,2) rbind_simps fn
    using p0 sk cut I assms(5) by simp
  then show ?thesis using ParseCommand_tokens [OF sp nm(2,1)] by (simp add: Process_def)
qed

end
