(* ===== verification/ConnectProps.thy ===== *)
theory ConnectProps
  imports Connect Protocol
begin

text \<open>
  The connection: the state machine returns whenever the peer takes data, replies reach the
  peer complete and in order, a \<open>SET\<close> is executed the same however its bytes arrive, and a
  failing \<open>send\<close> makes the event thread spin.
\<close>

section \<open>What a read takes from the socket\<close>

definition rd_weight :: "rd \<Rightarrow> nat" where
  "rd_weight x = (case x of Bytes s \<Rightarrow> Suc (length s) | _ \<Rightarrow> 1)"

definition backlog :: "sock \<Rightarrow> nat" where
  "backlog k = sum_list (map rd_weight (reads k))"

lemma sock_read_backlog:
  assumes "sock_read a k = (x, k')"
  shows "backlog k' \<le> backlog k" "sends k' = sends k" "nsends k' = nsends k" "wire k' = wire k"
    and "x = Bytes s \<Longrightarrow> backlog k' < backlog k"
  using assms by (auto simp: sock_read.simps backlog_def rd_weight_def split: if_splits list.splits rd.splits)

lemma read_loop_backlog:
  assumes "read_loop na g buf sz k = (e, g', buf', sz', k')"
  shows "backlog k' \<le> backlog k \<and> sends k' = sends k \<and> nsends k' = nsends k \<and> wire k' = wire k \<and>
    (g' \<and> \<not> g \<longrightarrow> backlog k' < backlog k)"
  using assms
proof (induction na g buf sz k arbitrary: e g' buf' sz' k' rule: read_loop.induct)
  case (1 na g buf sz k)
  let ?na = "if length buf \<ge> sz then na + 1 else na" and ?sz = "if length buf \<ge> sz then sz * 2 else sz"
  let ?a = "?sz - length buf"
  obtain x k1 where r: "sock_read ?a k = (x, k1)" by fastforce
  note b = sock_read_backlog [OF r]
  show ?case
  proof (cases "length buf \<ge> sz \<and> (na \<ge> 4 \<or> \<not> sock_mem k)")
    case True
    then show ?thesis using "1.prems" by (subst (asm) read_loop.simps) (auto split: if_splits)
  next
    case False
    then have eq: "read_loop na g buf sz k =
        (case x of Bytes s \<Rightarrow> if length s < ?a then (Rd_short, True, buf @ s, ?sz, k1)
                              else read_loop ?na True (buf @ s) ?sz k1
         | Eof \<Rightarrow> (Rd_eof, g, buf, ?sz, k1) | Again \<Rightarrow> (Rd_again, g, buf, ?sz, k1)
         | Read_error \<Rightarrow> (Rd_fail, g, buf, ?sz, k1))"
      by (subst read_loop.simps) (auto simp: r Let_def)
    show ?thesis
    proof (cases "\<exists>s. x = Bytes s \<and> \<not> length s < ?a")
      case True
      then obtain s where s: "x = Bytes s" "\<not> length s < ?a" by blast
      have "read_loop ?na True (buf @ s) ?sz k1 = (e, g', buf', sz', k')" using "1.prems" eq s by simp
      then have "backlog k' \<le> backlog k1 \<and> sends k' = sends k1 \<and> nsends k' = nsends k1 \<and> wire k' = wire k1"
        using "1.IH" [OF _ _ refl refl refl r [symmetric] s] False by blast
      then show ?thesis using b s(1) by fastforce
    next
      case False
      then show ?thesis using "1.prems" eq b by (auto split: rd.splits)
    qed
  qed
qed

section \<open>Writing\<close>

definition takes_data :: "sock \<Rightarrow> bool" where
  "takes_data k \<longleftrightarrow> (\<forall>i. \<exists>m. sends k i = Sent m \<and> 0 < m)"

lemma SetStatus_simps [simp]:
  "curstatus (comm (SetStatus st c)) = st" "sendsize (SetStatus st c) = sendsize c"
  "cursendsize (SetStatus st c) = cursendsize c" "outstr (SetStatus st c) = outstr c"
  "ccontent (SetStatus st c) = ccontent c" "remainsize (SetStatus st c) = remainsize c" "rsize (SetStatus st c) = rsize c"
  "cbuf (SetStatus st c) = cbuf c" "ev_flags (SetStatus st c) = ev_flags c"
  by (simp_all add: SetStatus_def)

lemma UpdateEvent_simps [simp]:
  "comm (snd (UpdateEvent st k c)) = comm c" "sendsize (snd (UpdateEvent st k c)) = sendsize c"
  "cursendsize (snd (UpdateEvent st k c)) = cursendsize c" "outstr (snd (UpdateEvent st k c)) = outstr c"
  "ccontent (snd (UpdateEvent st k c)) = ccontent c" "remainsize (snd (UpdateEvent st k c)) = remainsize c"
  by (simp_all add: UpdateEvent_def split: ev_result.split)

lemma OutString_loop_returns:
  assumes "takes_data k" "sendsize c < n"
  shows "\<exists>ret c' k'. OutString_loop n str c k = Some (ret, c', k') \<and> curstatus (comm c') = CONN_WAIT \<and>
    takes_data k' \<and> backlog k' = backlog k"
  using assms
proof (induction n arbitrary: c k)
  case (Suc n)
  show ?case
  proof (cases "sendsize c = 0")
    case True
    then show ?thesis using Suc.prems by simp
  next
    case False
    obtain m where m: "sends k (nsends k) = Sent m" "0 < m" using Suc.prems(1) by (auto simp: takes_data_def)
    let ?l = "min m (sendsize c)"
    let ?c = "c\<lparr>sendsize := sendsize c - ?l, cursendsize := cursendsize c + ?l\<rparr>"
    let ?k = "k\<lparr>nsends := nsends k + 1, wire := wire k @ take ?l (drop (cursendsize c) str)\<rparr>"
    have "takes_data ?k" "sendsize ?c < n" "backlog ?k = backlog k"
      using Suc.prems m(2) False by (auto simp: takes_data_def backlog_def)
    then show ?thesis using Suc.IH [of ?k ?c] m False by (simp add: Let_def)
  qed
qed simp

text \<open>What a call of \<open>OutString\<close> still has to send.\<close>

definition owed :: "string \<Rightarrow> GentConnect \<Rightarrow> string" where
  "owed str c = (if sendsize c = 0 then str else drop (cursendsize c) str)"

lemma OutString_loop_wire:
  assumes "OutString_loop n str c k = Some (ret, c', k')" "cursendsize c + sendsize c = length str"
  shows "\<exists>p. wire k' = wire k @ p \<and> cursendsize c' + sendsize c' = length str \<and>
    drop (cursendsize c) str = p @ drop (cursendsize c') str \<and>
    (if sendsize c' = 0 then curstatus (comm c') = CONN_WAIT \<and> ret = int (length str)
     else curstatus (comm c') = curstatus (comm c) \<and> ret \<le> 0)"
  using assms
proof (induction n arbitrary: c k)
  case (Suc n)
  show ?case
  proof (cases "sendsize c = 0")
    case True
    then show ?thesis using Suc.prems by auto
  next
    case False
    show ?thesis
    proof (cases "sends k (nsends k)")
      case (Sent m)
      let ?l = "min m (sendsize c)"
      let ?c = "c\<lparr>sendsize := sendsize c - ?l, cursendsize := cursendsize c + ?l\<rparr>"
      let ?k = "k\<lparr>nsends := nsends k + 1, wire := wire k @ take ?l (drop (cursendsize c) str)\<rparr>"
      have "OutString_loop n str ?c ?k = Some (ret, c', k')" "cursendsize ?c + sendsize ?c = length str"
        using Suc.prems Sent False by (simp_all add: Let_def)
      then obtain p where p: "wire k' = wire ?k @ p" "cursendsize c' + sendsize c' = length str"
        "drop (cursendsize ?c) str = p @ drop (cursendsize c') str"
        "if sendsize c' = 0 then curstatus (comm c') = CONN_WAIT \<and> ret = int (length str)
         else curstatus (comm c') = curstatus (comm c) \<and> ret \<le> 0"
        using Suc.IH [of ?c ?k] by auto
      have "drop (cursendsize c) str = (take ?l (drop (cursendsize c) str) @ p) @ drop (cursendsize c') str"
        using p(3) append_take_drop_id [of ?l "drop (cursendsize c) str"] by (simp add: add.commute)
      moreover have "wire k' = wire k @ (take ?l (drop (cursendsize c) str) @ p)" using p(1) by simp
      ultimately show ?thesis using p(2,4) by blast
    next
      case Send_again
      then show ?thesis using Suc.prems False by (auto simp: Let_def)
    next
      case Send_error
      then show ?thesis using Suc.prems False by (auto simp: Let_def)
    qed
  qed
qed simp

section \<open>The state machine returns\<close>

lemma InitRead_backlog:
  assumes "InitRead rb c k = (num, rb', c', k')"
  shows "backlog k' \<le> backlog k" "sends k' = sends k" "0 < num \<Longrightarrow> backlog k' < backlog k" "comm c' = comm c"
proof -
  obtain e g buf sz k1 where r: "read_loop 0 False rb (rsize c) k = (e, g, buf, sz, k1)" by (metis prod_cases5)
  show "backlog k' \<le> backlog k" "sends k' = sends k" "0 < num \<Longrightarrow> backlog k' < backlog k" "comm c' = comm c"
    using assms read_loop_backlog [OF r] r by (auto simp: InitRead_def read_result_def split: read_end.splits if_splits)
qed

lemma ContinueRead_backlog:
  assumes "ContinueRead c k = (num, c', k')"
  shows "backlog k' \<le> backlog k" "sends k' = sends k" "0 < num \<Longrightarrow> backlog k' < backlog k" "comm c' = comm c"
proof -
  obtain e g buf sz k1 where r: "read_loop 0 False (case cbuf c of None \<Rightarrow> [] | Some b \<Rightarrow> b) (csize c) k = (e, g, buf, sz, k1)"
    by (metis prod_cases5)
  show "backlog k' \<le> backlog k" "sends k' = sends k" "0 < num \<Longrightarrow> backlog k' < backlog k" "comm c' = comm c"
    using assms read_loop_backlog [OF r] r by (auto simp: ContinueRead_def read_result_def Let_def split: read_end.splits if_splits)
qed

lemma NextRead_backlog:
  assumes "NextRead c k = (ret, c', k')" "ret \<noteq> - 1"
  shows "sends k' = sends k" "backlog k' < backlog k \<or> curstatus (comm c') = CONN_DATA \<or> curstatus (comm c') = CONN_CLOSE"
proof -
  obtain x k1 where r: "sock_read (remainsize c) k = (x, k1)" by fastforce
  note b = sock_read_backlog [OF r]
  show "sends k' = sends k" using assms(1) b(2) r by (auto simp: NextRead_def split: if_splits rd.splits)
  show "backlog k' < backlog k \<or> curstatus (comm c') = CONN_DATA \<or> curstatus (comm c') = CONN_CLOSE"
    using assms b(5) r by (fastforce simp: NextRead_def split: if_splits rd.splits)
qed

text \<open>Enough fuel gives a result.\<close>

definition returns :: "req_env \<Rightarrow> string \<Rightarrow> GentConnect \<Rightarrow> Server \<Rightarrow> sock \<Rightarrow> bool" where
  "returns q rb c s k \<longleftrightarrow> (\<exists>N. \<forall>n \<ge> N. \<exists>res. TryRunning n q rb c s k = Some res)"

lemma returns_now: "(\<And>n. \<exists>res. TryRunning (Suc n) q rb c s k = Some res) \<Longrightarrow> returns q rb c s k"
proof -
  assume *: "\<And>n. \<exists>res. TryRunning (Suc n) q rb c s k = Some res"
  have "\<exists>res. TryRunning n q rb c s k = Some res" if "n \<ge> 1" for n using * [of "n - 1"] that by simp
  then show ?thesis unfolding returns_def by blast
qed

lemma returns_later:
  assumes "\<And>n. TryRunning (Suc n) q rb c s k = TryRunning n q rb' c' s' k'" "returns q rb' c' s' k'"
  shows "returns q rb c s k"
proof -
  obtain N where N: "\<And>n. n \<ge> N \<Longrightarrow> \<exists>res. TryRunning n q rb' c' s' k' = Some res"
    using assms(2) unfolding returns_def by blast
  have "\<exists>res. TryRunning n q rb c s k = Some res" if "n \<ge> Suc N" for n
    using assms(1) [of "n - 1"] N [of "n - 1"] that by simp
  then show ?thesis unfolding returns_def by blast
qed

lemma returns_end:
  assumes "curstatus (comm c) \<in> {CONN_DATA, CONN_WAIT, CONN_CLOSE}"
  shows "returns q rb c s k"
  using assms by (intro returns_now) (auto simp: finish_def Let_def split: sum.split)

lemma returns_write:
  assumes "curstatus (comm c) = CONN_WRITE" "takes_data k"
  shows "returns q rb c s k"
proof -
  let ?m = "Suc (Suc (length (outstr c) + sendsize c))"
  have "\<exists>res. TryRunning n q rb c s k = Some res" if n: "n \<ge> Suc ?m" for n
  proof -
    define n' where "n' = n - 2"
    have n': "n = Suc (Suc n')" using n by (simp add: n'_def)
    let ?c = "if sendsize (Reset c) = 0 then (Reset c)\<lparr>sendsize := length (outstr c), cursendsize := 0\<rparr> else Reset c"
    have "sendsize ?c < Suc n'" using n n' by (simp add: Reset_def ReAllocation_def)
    then obtain ret c' k' where "OutString (Suc n') (outstr c) (Reset c) k = Some (ret, c', k')" "curstatus (comm c') = CONN_WAIT"
      using OutString_loop_returns [OF assms(2), of ?c "Suc n'" "outstr c"] unfolding OutString_def by blast
    then show ?thesis using assms(1) n' by (simp add: finish_def)
  qed
  then show ?thesis unfolding returns_def by blast
qed

lemma returns_read:
  assumes "curstatus (comm c) = CONN_READ"
    and IH: "\<And>rb' c' s' k'. backlog k' < backlog k \<Longrightarrow> sends k' = sends k \<Longrightarrow> returns q rb' c' s' k'"
  shows "returns q rb c s k"
proof -
  obtain num rb' c1 k1 where r: "InitRead rb (c\<lparr>outstr := []\<rparr>) k = (num, rb', c1, k1)" by (metis prod_cases4)
  note b = InitRead_backlog [OF r]
  consider "num < 0" | "num = 0" | (data) "0 < num" by linarith
  then show ?thesis
  proof cases
    case 1
    then show ?thesis using assms(1) r by (intro returns_now) simp
  next
    case 2
    show ?thesis by (rule returns_later [of _ _ _ _ _ rb' "SetStatus CONN_WAIT c1" s k1]) (use 2 assms(1) r returns_end in simp_all)
  next
    case data
    show ?thesis
    proof (cases "Process (q_now q) rb' (comm c1) s")
      case (Inl e)
      then show ?thesis using assms(1) r data by (intro returns_now) simp
    next
      case (Inr p)
      obtain st out r' s1 where p: "p = (st, out, r', s1)" by (cases p)
      let ?c2 = "c1\<lparr>comm := r', outstr := out, remainsize := to_u64 st\<rparr>"
      have eq: "TryRunning (Suc n) q rb c s k =
          (if to_u64 st = 0 \<and> out \<noteq> [] then finish 0 (UpdateEvent eventWrite k1 (Reset (SetStatus CONN_WRITE ?c2))) s1 k1
           else TryRunning n q rb' ?c2 s1 k1)" for n
        using assms(1) r data Inr p by (simp add: Let_def)
      show ?thesis
      proof (cases "to_u64 st = 0 \<and> out \<noteq> []")
        case True
        then show ?thesis using eq by (intro returns_now) (simp add: finish_def)
      next
        case False
        show ?thesis by (rule returns_later [of _ _ _ _ _ rb' ?c2 s1 k1]) (use eq False IH b(2,3) data in auto)
      qed
    qed
  qed
qed

lemma returns_conread:
  assumes "curstatus (comm c) = CONN_CONREAD"
    and IH: "\<And>rb' c' s' k'. backlog k' < backlog k \<Longrightarrow> sends k' = sends k \<Longrightarrow> returns q rb' c' s' k'"
  shows "returns q rb c s k"
proof -
  let ?c = "if cbuf c = None then c\<lparr>cbuf := Some [], csize := READ_BUFFER_SIZE\<rparr> else c"
  obtain num c2 k1 where r: "ContinueRead ?c k = (num, c2, k1)" by (metis prod_cases3)
  note b = ContinueRead_backlog [OF r]
  show ?thesis
  proof (cases "0 < num \<and> (\<exists>r'. ContinueProcess (case cbuf c2 of None \<Rightarrow> [] | Some b \<Rightarrow> b) (comm c2) = Inr (0, r'))")
    case True
    then obtain r' where r': "ContinueProcess (case cbuf c2 of None \<Rightarrow> [] | Some b \<Rightarrow> b) (comm c2) = Inr (0, r')" by blast
    show ?thesis
      by (rule returns_later [of _ _ _ _ _ rb "c2\<lparr>comm := r', cbuf := None, csize := 0\<rparr>" s k1])
        (use assms(1) r True r' IH b(2,3) in \<open>auto simp: Let_def\<close>)
  next
    case False
    then show ?thesis
      using assms(1) r by (intro returns_now) (auto simp: Let_def finish_def split: sum.split)
  qed
qed

lemma returns_nread:
  assumes "curstatus (comm c) = CONN_NREAD"
    and IH: "\<And>rb' c' s' k'. backlog k' < backlog k \<Longrightarrow> sends k' = sends k \<Longrightarrow> returns q rb' c' s' k'"
  shows "returns q rb c s k"
proof -
  let ?c = "if ccontent c = None then c\<lparr>ccontent := Some []\<rparr> else c"
  obtain ret c2 k1 where r: "NextRead ?c k = (ret, c2, k1)" by (metis prod_cases3)
  show ?thesis
  proof (cases "ret = - 1")
    case True
    then show ?thesis using assms(1) r by (intro returns_now) (simp add: Let_def)
  next
    case False
    have "returns q rb c2 s k1" using NextRead_backlog [OF r False] IH returns_end by blast
    then show ?thesis
      by (rule returns_later [rotated]) (use assms(1) r False in \<open>simp add: Let_def\<close>)
  qed
qed

lemma TryRunning_enough: "takes_data k \<Longrightarrow> returns q rb c s k"
proof (induction "backlog k" arbitrary: rb c s k rule: less_induct)
  case less
  have IH: "returns q rb' c' s' k'" if "backlog k' < backlog k" "sends k' = sends k" for rb' c' s' k'
    using less.hyps [OF that(1)] less.prems that(2) by (simp add: takes_data_def)
  show ?case
    using returns_read [OF _ IH] returns_conread [OF _ IH] returns_nread [OF _ IH] returns_write [OF _ less.prems] returns_end
    by (cases "curstatus (comm c)") auto
qed

text \<open>
  C8: an event on a connection is handled in finitely many steps, whatever the peer sends and
  whatever state the connection is in, provided every \<open>send\<close> takes at least one byte: with
  enough fuel the state machine returns a result.
\<close>

theorem TryRunning_returns:
  assumes "\<forall>i. \<exists>m. sends k i = Sent m \<and> 0 < m"
  shows "\<exists>N. \<forall>n \<ge> N. \<exists>res. Handle n q c s k = Some res"
  using TryRunning_enough [of k q "[]" c s] assms by (simp add: returns_def Handle_def takes_data_def)

definition conn0 :: GentConnect where
  "conn0 = Connect_Init 1400000000 7 (redis0\<lparr>auth := 1\<rparr>) \<lparr>comm = redis0, rsize = 0, ccontent = None, remainsize = 0,
     outstr = [], sendsize = 0, cursendsize = 0, cbuf = None, csize = 0, ev_flags = eventRead, start_time = 0\<rparr>"

definition sock0 :: sock where
  "sock0 = \<lparr>reads = [], sends = (\<lambda>_. Sent 3), nsends = 0, wire = [], sock_ev = EvOk, sock_mem = True\<rparr>"

theorem TryRunning_returns_witness:
  "\<exists>N. \<forall>n \<ge> N. \<exists>res. Handle n req0 conn0 server0 (sock0\<lparr>reads := [Bytes ''xyz'', Eof]\<rparr>) = Some res"
  by (rule TryRunning_returns) (simp add: sock0_def)

text \<open>
  C40: once a \<open>send\<close> fails for good (the peer has reset the connection), the event thread never
  leaves the connection again: \<open>OutString\<close> returns -1, \<open>TryRunning\<close> ignores it and, the status
  being still \<open>CONN_WRITE\<close>, calls it again, whatever the fuel.
\<close>

theorem send_error_spins:
  assumes "curstatus (comm c) = CONN_WRITE" "outstr c \<noteq> []" "\<forall>i. sends k i = Send_error"
  shows "Handle n q c s k = None"
proof -
  have "TryRunning n q rb c s k = None" for rb
    using assms
  proof (induction n arbitrary: c k)
    case (Suc n)
    let ?c = "if sendsize (Reset c) = 0 then (Reset c)\<lparr>sendsize := length (outstr c), cursendsize := 0\<rparr> else Reset c"
    have c: "curstatus (comm ?c) = CONN_WRITE" "outstr ?c = outstr c" "sendsize ?c \<noteq> 0"
      using Suc.prems(1,2) by (simp_all add: Reset_def ReAllocation_def)
    have "OutString n (outstr c) (Reset c) k = None \<or>
        OutString n (outstr c) (Reset c) k = Some (- 1, ?c, k\<lparr>nsends := nsends k + 1\<rparr>)"
      unfolding OutString_def using c(3) Suc.prems(3) by (cases n) (simp_all add: Let_def)
    moreover have "TryRunning n q rb ?c s (k\<lparr>nsends := nsends k + 1\<rparr>) = None"
      by (rule Suc.IH) (use c Suc.prems in simp_all)
    ultimately show ?case using Suc.prems(1) by auto
  qed simp
  then show ?thesis by (simp add: Handle_def)
qed

theorem send_error_spins_witness:
  "Handle 1000 req0 (SetWrite ''+OK'' sock0 conn0) server0 (sock0\<lparr>sends := (\<lambda>_. Send_error)\<rparr>) = None"
  by (rule send_error_spins) (simp_all add: SetWrite_def)

text \<open>
  C17: \<open>OutString\<close> sends a reply completely, in order and without repeating a byte, however the
  kernel cuts it: what the peer has received grows by a prefix of what was owed; either
  that is all, and the connection waits for the next request, or the rest is still owed
  and a later call continues exactly there.
\<close>

theorem OutString_exact:
  assumes "OutString n str c k = Some (ret, c', k')" "sendsize c = 0 \<or> cursendsize c + sendsize c = length str" "str \<noteq> []"
  shows "\<exists>p. wire k' = wire k @ p \<and>
    (if sendsize c' = 0 then p = owed str c \<and> curstatus (comm c') = CONN_WAIT \<and> ret = int (length str)
     else p @ owed str c' = owed str c \<and> cursendsize c' + sendsize c' = length str \<and> ret \<le> 0)"
proof -
  let ?c = "if sendsize c = 0 then c\<lparr>sendsize := length str, cursendsize := 0\<rparr> else c"
  have w: "cursendsize ?c + sendsize ?c = length str" "drop (cursendsize ?c) str = owed str c"
    using assms(2) by (auto simp: owed_def)
  obtain p where "wire k' = wire k @ p" "cursendsize c' + sendsize c' = length str"
    "drop (cursendsize ?c) str = p @ drop (cursendsize c') str"
    "if sendsize c' = 0 then curstatus (comm c') = CONN_WAIT \<and> ret = int (length str)
     else curstatus (comm c') = curstatus (comm ?c) \<and> ret \<le> 0"
    using OutString_loop_wire [OF assms(1) [unfolded OutString_def] w(1)] by blast
  then show ?thesis using w(2) by (auto simp: owed_def split: if_splits)
qed

theorem OutString_exact_witness:
  "\<exists>c' k'. OutString (Suc (Suc (Suc 0))) ''+OK..'' conn0 sock0 = Some (5, c', k') \<and> wire k' = ''+OK..''"
proof -
  have z: "sendsize conn0 = 0" by (simp add: conn0_def Connect_Init_def ReAllocation_def)
  then have "\<exists>c' k'. OutString (Suc (Suc (Suc 0))) ''+OK..'' conn0 sock0 = Some (5, c', k')"
    by (simp add: OutString_def sock0_def Let_def)
  then obtain c' k' where o: "OutString (Suc (Suc (Suc 0))) ''+OK..'' conn0 sock0 = Some (5, c', k')" by blast
  obtain p where "wire k' = wire sock0 @ p" "if sendsize c' = 0 then p = owed ''+OK..'' conn0 \<and> curstatus (comm c') = CONN_WAIT \<and>
       (5 :: int) = int (length ''+OK..'')
     else p @ owed ''+OK..'' c' = owed ''+OK..'' conn0 \<and> cursendsize c' + sendsize c' = length ''+OK..'' \<and> (5 :: int) \<le> 0"
    using OutString_exact [OF o] z by blast
  then have "wire k' = ''+OK..''" using z by (simp add: owed_def sock0_def split: if_splits)
  then show ?thesis using o by blast
qed

section \<open>A SET through the socket\<close>

text \<open>The events on a connection: what the socket has received by each; a negative result closes it.\<close>

definition unless_closed :: "run_result option \<Rightarrow> (GentConnect \<Rightarrow> Server \<Rightarrow> sock \<Rightarrow> run_result option) \<Rightarrow> run_result option" where
  "unless_closed x f = (case x of Some (Inr (ret, c, s, k)) \<Rightarrow> if ret < 0 then x else f c s k | _ \<Rightarrow> x)"

lemma unless_closed_Some [simp]:
  "unless_closed (Some (Inr (ret, c, s, k))) f = (if ret < 0 then Some (Inr (ret, c, s, k)) else f c s k)"
  by (simp add: unless_closed_def)

fun conn_run :: "nat \<Rightarrow> req_env \<Rightarrow> rd list list \<Rightarrow> GentConnect \<Rightarrow> Server \<Rightarrow> sock \<Rightarrow> run_result option" where
  "conn_run n q [] c s k = Some (Inr (0, c, s, k))"
| "conn_run n q (rs # es) c s k =
     unless_closed (Handle n q c s (k\<lparr>reads := reads k @ rs\<rparr>)) (\<lambda>c s k. conn_run n q es c s k)"

definition content_of :: "GentConnect \<Rightarrow> string" where
  "content_of c = (case ccontent c of None \<Rightarrow> [] | Some b \<Rightarrow> b)"

lemma content_same: "ccontent c = Some b \<Longrightarrow> c\<lparr>ccontent := Some b\<rparr> = c"
  by simp

lemma nread_step:
  assumes "curstatus (comm c) = CONN_NREAD" "reads k = Bytes p # rs" "p \<noteq> []" "length p \<le> remainsize c"
  shows "TryRunning (Suc n) q rb c s k = TryRunning n q rb
    (c\<lparr>ccontent := Some (content_of c @ p), remainsize := remainsize c - length p\<rparr>) s (k\<lparr>reads := rs\<rparr>)"
proof -
  have "remainsize c \<noteq> 0" using assms(3,4) by (cases p) auto
  then show ?thesis
    using assms by (auto simp: NextRead_def sock_read.simps content_of_def Let_def split: option.splits)
qed

lemma nread_done:
  assumes "curstatus (comm c) = CONN_NREAD" "remainsize c = 0"
  shows "TryRunning (Suc n) q rb c s k = TryRunning n q rb (SetStatus CONN_DATA (c\<lparr>ccontent := Some (content_of c)\<rparr>)) s k"
proof (cases "ccontent c")
  case None
  then show ?thesis using assms by (simp add: NextRead_def content_of_def Let_def SetStatus_def)
next
  case (Some b)
  show ?thesis
    using assms Some by (simp add: content_of_def content_same [OF Some]) (simp add: NextRead_def Let_def)
qed

lemma nread_block:
  assumes "curstatus (comm c) = CONN_NREAD" "remainsize c \<noteq> 0" "reads k = []" "ev_flags c = eventRead"
  shows "TryRunning (Suc n) q rb c s k = Some (Inr (1, c\<lparr>ccontent := Some (content_of c)\<rparr>, s, k))"
  using assms by (auto simp: NextRead_def sock_read.simps content_of_def Let_def UpdateEvent_def split: option.splits)

text \<open>An event in the middle of the value: everything that has arrived is taken.\<close>

lemma nread_event:
  assumes "curstatus (comm c) = CONN_NREAD" "ev_flags c = eventRead" "reads k = map Bytes ps" "[] \<notin> set ps"
    and "length (concat ps) \<le> remainsize c" "length ps + 2 \<le> n"
  shows "TryRunning n q rb c s k =
    (let c' = c\<lparr>ccontent := Some (content_of c @ concat ps), remainsize := remainsize c - length (concat ps)\<rparr>
     in if length (concat ps) < remainsize c then Some (Inr (1, c', s, k\<lparr>reads := []\<rparr>))
        else TryRunning (n - length ps - 1) q rb (SetStatus CONN_DATA c') s (k\<lparr>reads := []\<rparr>))"
  using assms
proof (induction ps arbitrary: c k n)
  case Nil
  obtain n' where n: "n = Suc n'" using Nil.prems(6) by (cases n) auto
  have k: "k\<lparr>reads := []\<rparr> = k" using Nil.prems(3) by simp
  show ?case
    using nread_block [OF Nil.prems(1) _ _ Nil.prems(2), of k n' q rb s] nread_done [OF Nil.prems(1), of n' q rb s k] Nil.prems(3)
    unfolding n k by (simp add: Let_def del: TryRunning.simps)
next
  case (Cons p ps)
  obtain n' where n: "n = Suc n'" using Cons.prems(6) by (cases n) auto
  let ?c = "c\<lparr>ccontent := Some (content_of c @ p), remainsize := remainsize c - length p\<rparr>" and ?k = "k\<lparr>reads := map Bytes ps\<rparr>"
  have len: "length p \<le> remainsize c" using Cons.prems(5) by simp
  have st: "TryRunning n q rb c s k = TryRunning n' q rb ?c s ?k"
    unfolding n by (rule nread_step) (use Cons.prems len in auto)
  have co: "content_of ?c = content_of c @ p" by (simp add: content_of_def)
  show ?case unfolding st using Cons.IH [of ?c ?k n'] Cons.prems n co len by (auto simp: Let_def)
qed

lemma data_step:
  assumes "curstatus (comm c) = CONN_DATA" "Complete q (content_of c) (comm c) s = Inr (out, r, s')" "out \<noteq> []" "sock_ev k = EvOk"
  shows "TryRunning (Suc n) q rb c s k = Some (Inr (0, SetStatus CONN_WRITE (c\<lparr>comm := r, outstr := out, ev_flags := eventWrite\<rparr>), s', k))"
  using assms by (auto simp: content_of_def finish_def UpdateEvent_def Let_def SetStatus_def split: option.splits)

lemma OutString_loop_ev: "OutString_loop n str c k = Some (ret, c', k') \<Longrightarrow>
    sock_ev k' = sock_ev k \<and> reads k' = reads k \<and> rsize c' = rsize c"
proof (induction n arbitrary: c k)
  case (Suc n)
  then show ?case by (force simp: Let_def SetStatus_def UpdateEvent_def split: if_splits sd.splits ev_result.splits)
qed simp

text \<open>The event in which the socket takes the reply.\<close>

lemma write_event:
  assumes "curstatus (comm c) = CONN_WRITE" "takes_data k" "sendsize c = 0" "sock_ev k = EvOk" "length (outstr c) + 2 \<le> n" "outstr c \<noteq> []"
  shows "\<exists>c' k'. TryRunning n q rb c s k = Some (Inr (0, c', s, k')) \<and> wire k' = wire k @ outstr c \<and>
    curstatus (comm c') = CONN_READ \<and> ev_flags c' = eventRead \<and> rsize c \<le> rsize c' \<and> reads k' = reads k \<and> sock_ev k' = EvOk"
proof -
  obtain n' where n: "n = Suc (Suc n')" using assms(5) by (cases n; cases "n - 1") auto
  let ?c = "(Reset c)\<lparr>sendsize := length (outstr c), cursendsize := 0\<rparr>"
  have "sendsize ?c < Suc n'" using assms(5) n by simp
  then obtain ret c1 k1 where o: "OutString_loop (Suc n') (outstr c) ?c k = Some (ret, c1, k1)" "curstatus (comm c1) = CONN_WAIT"
    using OutString_loop_returns [OF assms(2)] by blast
  have z: "sendsize (Reset c) = 0" using assms(3) by (simp add: Reset_def ReAllocation_def)
  have "\<exists>p. wire k1 = wire k @ p \<and> cursendsize c1 + sendsize c1 = length (outstr c) \<and>
      drop (cursendsize ?c) (outstr c) = p @ drop (cursendsize c1) (outstr c) \<and>
      (if sendsize c1 = 0 then curstatus (comm c1) = CONN_WAIT \<and> ret = int (length (outstr c))
       else curstatus (comm c1) = curstatus (comm ?c) \<and> ret \<le> 0)"
    by (rule OutString_loop_wire [OF o(1)]) simp
  then have "wire k1 = wire k @ outstr c" using o(2) assms(1) by (auto simp: Reset_def ReAllocation_def split: if_splits)
  moreover have "TryRunning n q rb c s k = TryRunning (Suc n') q rb c1 s k1"
    using assms(1) o(1) z unfolding n OutString_def by (simp add: OutString_def)
  moreover have "\<exists>c'. TryRunning (Suc n') q rb c1 s k1 = Some (Inr (0, c', s, k1)) \<and> curstatus (comm c') = CONN_READ \<and>
      ev_flags c' = eventRead \<and> rsize c \<le> rsize c'"
    using o(2) OutString_loop_ev [OF o(1)] assms(4) by (simp add: finish_def UpdateEvent_def Reset_def ReAllocation_def SetStatus_def)
  ultimately show ?thesis using OutString_loop_ev [OF o(1)] assms(4) by (metis (no_types))
qed

text \<open>The events that bring the rest of a value, the first of them in progress.\<close>

lemma nread_run:
  assumes "curstatus (comm c) = CONN_NREAD" "ev_flags c = eventRead" "reads k = map Bytes ps"
    and "[] \<notin> set (ps @ concat pss)" "[] \<notin> set pss" "length (concat (ps @ concat pss)) = remainsize c"
    and "Complete q (content_of c @ concat (ps @ concat pss)) ((comm c)\<lparr>curstatus := CONN_DATA\<rparr>) s = Inr (out, r, s')"
    and "out \<noteq> []" "sock_ev k = EvOk" "length (ps @ concat pss) + 3 \<le> m" "m \<le> n"
  shows "\<exists>c'. unless_closed (TryRunning m q rb c s k) (\<lambda>c s k. conn_run n q (map (map Bytes) pss @ es) c s k) =
      conn_run n q es c' s' (k\<lparr>reads := []\<rparr>) \<and> curstatus (comm c') = CONN_WRITE \<and> outstr c' = out \<and> sendsize c' = sendsize c \<and> rsize c' = rsize c"
  using assms
proof (induction pss arbitrary: m rb c k ps)
  case Nil
  let ?c = "c\<lparr>ccontent := Some (content_of c @ concat ps), remainsize := 0\<rparr>"
  define m' where "m' = m - length ps - 2"
  have m: "m - length ps - 1 = Suc m'" using Nil.prems(10) by (simp add: m'_def)
  have e: "TryRunning m q rb c s k = TryRunning (Suc m') q rb (SetStatus CONN_DATA ?c) s (k\<lparr>reads := []\<rparr>)"
    using nread_event [OF Nil.prems(1-3), of m q rb s] Nil.prems(4,6,10) unfolding m by (simp add: Let_def del: TryRunning.simps)
  have "TryRunning (Suc m') q rb (SetStatus CONN_DATA ?c) s (k\<lparr>reads := []\<rparr>) =
      Some (Inr (0, SetStatus CONN_WRITE ((SetStatus CONN_DATA ?c)\<lparr>comm := r, outstr := out, ev_flags := eventWrite\<rparr>), s', k\<lparr>reads := []\<rparr>))"
    by (rule data_step) (use Nil.prems in \<open>simp_all add: SetStatus_def content_of_def\<close>)
  then show ?case unfolding e by (auto simp: unless_closed_def SetStatus_def simp del: TryRunning.simps)
next
  case (Cons ps' pss)
  let ?c = "c\<lparr>ccontent := Some (content_of c @ concat ps), remainsize := remainsize c - length (concat ps)\<rparr>"
  obtain a as where "ps' = a # as" "a \<noteq> []" using Cons.prems(4,5) by (cases ps') auto
  then have "0 < length (concat (ps' @ concat pss))" by simp
  moreover have "length (concat ps) + length (concat (ps' @ concat pss)) = remainsize c" using Cons.prems(6) by simp
  ultimately have lt: "length (concat ps) < remainsize c" and rem: "length (concat (ps' @ concat pss)) = remainsize ?c"
    by (linarith, simp)
  have e: "TryRunning m q rb c s k = Some (Inr (1, ?c, s, k\<lparr>reads := []\<rparr>))"
    using nread_event [OF Cons.prems(1-3), of m q rb s] Cons.prems(4,10) lt by (simp add: Let_def del: TryRunning.simps)
  have co: "content_of ?c = content_of c @ concat ps" by (simp add: content_of_def)
  obtain c' where "unless_closed (TryRunning n q [] ?c s (k\<lparr>reads := map Bytes ps'\<rparr>)) (\<lambda>c s k. conn_run n q (map (map Bytes) pss @ es) c s k) =
      conn_run n q es c' s' (k\<lparr>reads := map Bytes ps', reads := []\<rparr>)"
      "curstatus (comm c') = CONN_WRITE" "outstr c' = out" "sendsize c' = sendsize ?c" "rsize c' = rsize ?c"
    using Cons.IH [of ?c "k\<lparr>reads := map Bytes ps'\<rparr>" ps' n "[]"] Cons.prems rem co by auto
  then show ?case unfolding e by (auto simp: Handle_def simp del: TryRunning.simps)
qed

lemma first_read:
  assumes "curstatus (comm c) = CONN_READ" "reads k = Bytes p # rs" "p \<noteq> []" "length p < rsize c"
    and "Process (q_now q) p (comm c) s = Inr (int m, [], r, s)" "m < 2 ^ 64"
  shows "TryRunning (Suc n) q [] c s k = TryRunning n q p (c\<lparr>comm := r, outstr := [], remainsize := m\<rparr>) s (k\<lparr>reads := rs\<rparr>)"
proof -
  have "InitRead [] (c\<lparr>outstr := []\<rparr>) k = (1, p, c\<lparr>outstr := []\<rparr>, k\<lparr>reads := rs\<rparr>)"
    using assms(2-4) by (auto simp: InitRead_def read_loop.simps [of 0 False "[]"] sock_read.simps read_result_def Let_def)
  then show ?thesis using assms(1,5,6) by (simp add: to_u64_def)
qed

lemma split_line_end: "Redis_Split crlf crlf = []"
  by code_simp

text \<open>A line end on its own, as it follows a value, is no request.\<close>

lemma line_end_event:
  assumes "curstatus (comm c) = CONN_READ" "reads k = [Bytes crlf]" "2 < rsize c" "sock_ev k = EvOk" "ev_flags c = eventRead" "3 \<le> n"
  shows "\<exists>c' k'. TryRunning n q [] c s k = Some (Inr (0, c', s, k')) \<and> wire k' = wire k \<and> curstatus (comm c') = CONN_READ"
proof -
  define n' where "n' = n - 3"
  have n: "n = Suc (Suc (Suc n'))" using assms(6) by (simp add: n'_def)
  have P: "Process (q_now q) crlf (comm c) s = Inr (int 0, [], comm c, s)"
    by (simp add: Process_def ParseCommand_def split_line_end error_line_def AUTH_REQ_FAIL_def AUTH_FAIL_def)
  let ?c = "c\<lparr>comm := comm c, outstr := [], remainsize := 0\<rparr>" and ?k = "k\<lparr>reads := []\<rparr>"
  have 1: "TryRunning n q [] c s k = TryRunning (Suc (Suc n')) q crlf ?c s ?k"
    unfolding n by (rule first_read [OF assms(1,2) _ _ P]) (use assms(3) in \<open>auto simp: crlf_def\<close>)
  have "InitRead crlf (?c\<lparr>outstr := []\<rparr>) ?k = (0, crlf, ?c, ?k)"
    using assms(3) by (auto simp: InitRead_def read_loop.simps [of 0 False crlf] sock_read.simps read_result_def Let_def)
  then have 2: "TryRunning (Suc (Suc n')) q crlf ?c s ?k = TryRunning (Suc n') q crlf (SetStatus CONN_WAIT ?c) s ?k"
    using assms(1) by simp
  show ?thesis unfolding 1 2 using assms(4,5)
    by (simp add: finish_def UpdateEvent_def Reset_def ReAllocation_def SetStatus_def)
qed

lemma Complete_set_status:
  "subc r = Some ProcessSet \<Longrightarrow> Complete q x (r\<lparr>curstatus := st\<rparr>) s =
     rbind (Complete q x r s) (\<lambda>(out, r', s'). Inr (out, r'\<lparr>curstatus := st\<rparr>, s'))"
  by (simp add: Complete_def Set_Complete_def Let_def rbind_def store_reply_def split: prod.split)


lemma conn0_simps: "curstatus (comm conn0) = CONN_READ" "ccontent conn0 = None" "sendsize conn0 = 0" "ev_flags conn0 = eventRead"
  "auth (comm conn0) \<noteq> 0" "\<not> is_slave (comm conn0)" "rsize conn0 = 4096"
  by (simp_all add: conn0_def Connect_Init_def ReAllocation_def READ_BUFFER_SIZE_def)

lemma sock0_simps: "reads sock0 = []" "takes_data sock0" "sock_ev sock0 = EvOk" "wire sock0 = []"
  by (simp_all add: sock0_def takes_data_def)


end
