(* ===== verification/Crc32c.thy ===== *)
theory Crc32c
  imports CrcTable
begin

text \<open>
  The checksum of LevelDB's files (\<open>pack/leveldb/util/crc32c.cc\<close>, \<open>crc32c.h\<close>): CRC-32C computed
  by tables, four bytes at a time once the pointer is aligned. It is shown equal to the
  division by the polynomial, one bit at a time, wherever the string starts in memory.
\<close>

section \<open>The code\<close>

text \<open>\<open>STEP1\<close> and \<open>STEP4\<close>; \<open>p\<close> is the rest of the string.\<close>

definition STEP1 :: "32 word \<Rightarrow> char \<Rightarrow> 32 word" where
  "STEP1 l b = table0 ! unat ((l AND 0xff) XOR of_char b) XOR drop_bit 8 l"

definition STEP4 :: "32 word \<times> string \<Rightarrow> 32 word \<times> string" where
  "STEP4 = (\<lambda>(l, p).
     let c = l XOR of_nat (DecodeFixed32 p)
     in (table3 ! unat (c AND 0xff) XOR table2 ! unat (drop_bit 8 c AND 0xff) XOR
         table1 ! unat (drop_bit 16 c AND 0xff) XOR table0 ! unat (drop_bit 24 c), drop 4 p))"

function loop16 :: "32 word \<times> string \<Rightarrow> 32 word \<times> string" where
  "loop16 lp = (if 16 \<le> length (snd lp) then loop16 (STEP4 (STEP4 (STEP4 (STEP4 lp)))) else lp)"
  by auto
termination
  by (relation "measure (length \<circ> snd)") (auto simp: STEP4_def Let_def split: prod.splits)

function loop4 :: "32 word \<times> string \<Rightarrow> 32 word \<times> string" where
  "loop4 lp = (if 4 \<le> length (snd lp) then loop4 (STEP4 lp) else lp)"
  by auto
termination
  by (relation "measure (length \<circ> snd)") (auto simp: STEP4_def Let_def split: prod.splits)

text \<open>\<open>pval\<close> is the address of the string, \<open>x\<close> the distance to the next multiple of four.\<close>

definition Extend :: "nat \<Rightarrow> 32 word \<Rightarrow> string \<Rightarrow> 32 word" where
  "Extend pval crc buf =
     (let l = crc XOR 0xffffffff;
          x = push_bit 2 (drop_bit 2 (pval + 3)) - pval;
          lp = (if x \<le> length buf then (foldl STEP1 l (take x buf), drop x buf) else (l, buf));
          (l', p) = loop4 (loop16 lp)
      in foldl STEP1 l' p XOR 0xffffffff)"

definition crc_Value :: "nat \<Rightarrow> string \<Rightarrow> 32 word" where
  "crc_Value pval data = Extend pval 0 data"

definition kMaskDelta :: "32 word" where
  "kMaskDelta = 0xa282ead8"

definition Mask :: "32 word \<Rightarrow> 32 word" where
  "Mask crc = (drop_bit 15 crc OR push_bit 17 crc) + kMaskDelta"

definition Unmask :: "32 word \<Rightarrow> 32 word" where
  "Unmask masked_crc = (let rot = masked_crc - kMaskDelta in drop_bit 17 rot OR push_bit 15 rot)"

declare loop16.simps [simp del] loop4.simps [simp del]

section \<open>Reference\<close>

definition crc_ref :: "32 word \<Rightarrow> string \<Rightarrow> 32 word" where
  "crc_ref crc buf = NOT (foldl (\<lambda>l b. crc_byte (l XOR of_char b)) (NOT crc) buf)"

section \<open>Table lookups compute the division\<close>

lemma byte_mask: "(0xff :: 32 word) = mask 8"
  by (simp add: mask_eq_exp_minus_1)

lemma crc_byte_split: "crc_byte x = crc_byte (x AND 0xff) XOR drop_bit 8 x"
proof -
  have "x = (x AND 0xff) XOR push_bit 8 (drop_bit 8 x)"
    unfolding byte_mask by (rule bit_word_eqI) (auto simp: bit_simps)
  then have "crc_byte x = crc_byte (x AND 0xff) XOR (drop_bit 8 x AND mask 24)"
    by (metis crc_byte_xor crc_byte_push)
  moreover have "drop_bit 8 x AND mask 24 = drop_bit 8 x"
    by (rule bit_word_eqI) (auto simp: bit_simps dest: bit_imp_le_length)
  ultimately show ?thesis by simp
qed

lemma bit_of_char_nat: "bit (of_char c :: nat) n \<Longrightarrow> n < 8"
  using of_char_of_bits [of "of_char c"] by (metis bit_take_bit_iff char_of_char)

lemma bit_of_char_word: "bit (of_char c :: 32 word) n \<longleftrightarrow> n < 8 \<and> bit (of_char c :: nat) n"
  by (subst of_nat_of_char [symmetric]) (auto simp: bit_of_nat_iff dest: bit_of_char_nat)

lemma STEP1_division: "STEP1 l b = crc_byte (l XOR of_char b)"
proof -
  have "(l AND 0xff) XOR of_char b = (l XOR of_char b) AND 0xff"
    unfolding byte_mask by (rule bit_word_eqI) (auto simp: bit_simps bit_of_char_word)
  moreover have "drop_bit 8 (l XOR of_char b) = drop_bit 8 l"
    by (rule bit_word_eqI) (auto simp: bit_simps bit_of_char_word)
  ultimately show ?thesis
    using crc_byte_split [of "l XOR of_char b"] by (simp only: STEP1_def table_lookup)
qed

lemma crc_four: "crc_byte (crc_byte (crc_byte (crc_byte c))) =
    table3 ! unat (c AND 0xff) XOR table2 ! unat (drop_bit 8 c AND 0xff) XOR
    table1 ! unat (drop_bit 16 c AND 0xff) XOR table0 ! unat (drop_bit 24 c)"
proof -
  have top: "drop_bit 24 c AND 0xff = drop_bit 24 c" "drop_bit 32 c = 0"
    unfolding byte_mask by (rule bit_word_eqI, auto simp: bit_simps dest: bit_imp_le_length)+
  have "crc_byte c = crc_byte (c AND 0xff) XOR drop_bit 8 c" by (rule crc_byte_split)
  moreover have "crc_byte (drop_bit 8 c) = crc_byte (drop_bit 8 c AND 0xff) XOR drop_bit 16 c"
    using crc_byte_split [of "drop_bit 8 c"] by simp
  moreover have "crc_byte (drop_bit 16 c) = crc_byte (drop_bit 16 c AND 0xff) XOR drop_bit 24 c"
    using crc_byte_split [of "drop_bit 16 c"] by simp
  moreover have "crc_byte (drop_bit 24 c) = table0 ! unat (drop_bit 24 c)"
    using table_lookup(1) [of "drop_bit 24 c"] by (simp only: top)
  ultimately show ?thesis by (simp only: crc_byte_xor table_lookup xor.assoc)
qed

lemma bits_le_value: "bit (le_value cs) n \<Longrightarrow> n < 8 * length cs"
proof (induction cs arbitrary: n)
  case (Cons c cs)
  then show ?case by (auto simp: bit_simps dest!: bit_of_char_nat Cons.IH)
qed simp

lemma steps_division:
  assumes "length cs \<le> 4"
  shows "foldl STEP1 l cs = (crc_byte ^^ length cs) (l XOR of_nat (le_value cs))"
  using assms
proof (induction cs arbitrary: l)
  case (Cons b cs)
  let ?v = "of_nat (le_value cs) :: 32 word"
  have "?v AND mask 24 = ?v"
    by (rule bit_word_eqI) (use Cons.prems bits_le_value [of cs] in \<open>force simp: bit_simps\<close>)
  moreover have "of_nat (le_value (b # cs)) = (of_char b XOR push_bit 8 ?v :: 32 word)"
    by (rule bit_word_eqI) (auto simp: bit_simps bit_of_char_word dest: bit_of_char_nat)
  ultimately have "crc_byte (l XOR of_nat (le_value (b # cs))) = STEP1 l b XOR ?v"
    by (simp only: STEP1_division crc_byte_xor crc_byte_push xor.assoc)
  with Cons show ?case by (simp add: funpow_swap1)
qed simp

lemma STEP4_division:
  assumes "4 \<le> length p"
  shows "STEP4 (l, p) = (foldl STEP1 l (take 4 p), drop 4 p)"
proof -
  have "length (take 4 p) = 4" using assms by simp
  moreover have "(crc_byte ^^ 4) c = crc_byte (crc_byte (crc_byte (crc_byte c)))" for c
    by (simp add: eval_nat_numeral)
  ultimately have "foldl STEP1 l (take 4 p) = crc_byte (crc_byte (crc_byte (crc_byte (l XOR of_nat (DecodeFixed32 p)))))"
    using steps_division [of "take 4 p" l] by (simp only: DecodeFixed32_def order.refl)
  then show ?thesis by (simp only: STEP4_def Let_def case_prod_conv crc_four)
qed

text \<open>The loops only regroup the bytes.\<close>

definition rest_of :: "32 word \<times> string \<Rightarrow> 32 word" where
  "rest_of lp = foldl STEP1 (fst lp) (snd lp)"

lemma rest_of_STEP4: "4 \<le> length (snd lp) \<Longrightarrow> rest_of (STEP4 lp) = rest_of lp \<and> snd (STEP4 lp) = drop 4 (snd lp)"
proof (cases lp)
  case (Pair l p)
  assume "4 \<le> length (snd lp)"
  then show ?thesis
    using Pair foldl_append [of STEP1 l "take 4 p" "drop 4 p"] by (simp add: rest_of_def STEP4_division)
qed

lemma rest_of_loop4: "rest_of (loop4 lp) = rest_of lp"
  by (induction lp rule: loop4.induct) (subst loop4.simps, simp add: rest_of_STEP4)

lemma rest_of_loop16: "rest_of (loop16 lp) = rest_of lp"
  by (induction lp rule: loop16.induct) (subst loop16.simps, simp add: rest_of_STEP4)

lemma rest_of_aligned:
  "rest_of (if x \<le> length buf then (foldl STEP1 l (take x buf), drop x buf) else (l, buf)) = foldl STEP1 l buf"
  by (simp add: rest_of_def flip: foldl_append)

lemma ones_word: "x XOR 0xffffffff = NOT (x :: 32 word)"
proof -
  have "(0xffffffff :: 32 word) = - 1" by simp
  then show ?thesis by (simp add: bit_eq_iff bit_simps)
qed

lemma Extend_division: "Extend pval crc buf = crc_ref crc buf"
proof -
  let ?x = "push_bit 2 (drop_bit 2 (pval + 3)) - pval"
  let ?lp = "if ?x \<le> length buf then (foldl STEP1 (NOT crc) (take ?x buf), drop ?x buf) else (NOT crc, buf)"
  have "Extend pval crc buf = NOT (rest_of (loop4 (loop16 ?lp)))"
    unfolding Extend_def Let_def ones_word rest_of_def case_prod_unfold by (rule refl)
  also have "rest_of (loop4 (loop16 ?lp)) = foldl STEP1 (NOT crc) buf"
    by (simp only: rest_of_loop4 rest_of_loop16 rest_of_aligned)
  also have "STEP1 = (\<lambda>l b. crc_byte (l XOR of_char b))" by (intro ext STEP1_division)
  finally show ?thesis by (simp only: crc_ref_def)
qed

lemma crc_ref_append: "crc_ref (crc_ref crc a) b = crc_ref crc (a @ b)"
  by (simp add: crc_ref_def)

lemma Unmask_Mask: "Unmask (Mask crc) = crc"
proof (rule bit_word_eqI)
  fix n assume "n < LENGTH(32)"
  then show "bit (Unmask (Mask crc)) n \<longleftrightarrow> bit crc n"
    by (cases "n < 15") (auto simp: Unmask_def Mask_def Let_def bit_simps)
qed

text \<open>
  C14: the table-driven checksum is the remainder of the division by the CRC-32C polynomial,
  computed bit by bit, wherever the string lies in memory; checksums extended piece by piece
  are those of the whole string, and a masked checksum is read back.
\<close>

theorem crc32c_exact:
  "Extend pval crc buf = crc_ref crc buf \<and> Extend q (Extend p crc a) b = crc_ref crc (a @ b) \<and>
   Unmask (Mask crc) = crc"
  by (simp add: Unmask_Mask Extend_division crc_ref_append)

end
