(* ===== verification/LogFile.thy ===== *)
theory LogFile
  imports Crc32c
begin

text \<open>
  LevelDB's log files (\<open>db/log_format.h\<close>, \<open>db/log_writer.cc\<close>, \<open>db/log_reader.cc\<close>), which hold the
  write-ahead log and the manifest: records cut into fragments that do not cross blocks of
  32768 bytes, each with a checksum, a length and a type. The outcomes of reads and writes
  are arguments. Reading a file cut off at any byte yields the records that were written
  completely, in order, and nothing else. The address of a buffer is given as 0 to the
  checksum, which does not depend on it.
\<close>

section \<open>Format\<close>

definition kZeroType :: nat where "kZeroType = 0"
definition kFullType :: nat where "kFullType = 1"
definition kFirstType :: nat where "kFirstType = 2"
definition kMiddleType :: nat where "kMiddleType = 3"
definition kLastType :: nat where "kLastType = 4"
definition kMaxRecordType :: nat where "kMaxRecordType = kLastType"
definition kBlockSize :: nat where "kBlockSize = 32768"
definition kHeaderSize :: nat where "kHeaderSize = 4 + 1 + 2"

text \<open>The two values with which \<open>ReadPhysicalRecord\<close> reports that it has no record.\<close>

definition kEof :: nat where "kEof = kMaxRecordType + 1"
definition kBadRecord :: nat where "kBadRecord = kMaxRecordType + 2"

lemmas record_types = kZeroType_def kFullType_def kFirstType_def kMiddleType_def kLastType_def
  kMaxRecordType_def kEof_def kBadRecord_def

lemma kHeaderSize_7: "kHeaderSize = 7"
  by (simp add: kHeaderSize_def)

lemma kBlockSize_bounds: "14 < kBlockSize" "kBlockSize < 65536"
  by (simp_all add: kBlockSize_def)

section \<open>Writer\<close>

text \<open>
  A file that is appended to. The outcome of the \<open>i\<close>-th call is \<open>io i\<close>: \<open>None\<close> is success, \<open>Some n\<close> a
  failure after \<open>n\<close> bytes.
\<close>

record WritableFile =
  contents :: string
  calls :: nat

definition Append :: "(nat \<Rightarrow> nat option) \<Rightarrow> string \<Rightarrow> WritableFile \<Rightarrow> bool \<times> WritableFile" where
  "Append io data f =
     (case io (calls f) of
        None \<Rightarrow> (True, f\<lparr>contents := contents f @ data, calls := calls f + 1\<rparr>)
      | Some n \<Rightarrow> (False, f\<lparr>contents := contents f @ take n data, calls := calls f + 1\<rparr>))"

definition Flush :: "(nat \<Rightarrow> nat option) \<Rightarrow> WritableFile \<Rightarrow> bool \<times> WritableFile" where
  "Flush io f = (io (calls f) = None, f\<lparr>calls := calls f + 1\<rparr>)"

record Writer =
  dest :: WritableFile
  block_offset :: nat

definition Writer_new :: Writer where
  "Writer_new = \<lparr>dest = \<lparr>contents = [], calls = 0\<rparr>, block_offset = 0\<rparr>"

definition type_crc :: "nat \<Rightarrow> 32 word" where
  "type_crc i = crc_Value 0 [char_of i]"

definition EmitPhysicalRecord :: "(nat \<Rightarrow> nat option) \<Rightarrow> nat \<Rightarrow> string \<Rightarrow> Writer \<Rightarrow> bool \<times> Writer" where
  "EmitPhysicalRecord io t data w =
     (let n = length data;
          crc = Mask (Extend 0 (type_crc t) data);
          buf = EncodeFixed32 (unat crc) @ [char_of (n AND 255), char_of (drop_bit 8 n), char_of t];
          (s1, f1) = Append io buf (dest w);
          (s2, f2) = (if s1 then Append io data f1 else (s1, f1));
          (s3, f3) = (if s2 then Flush io f2 else (s2, f2))
      in (s3, w\<lparr>dest := f3, block_offset := block_offset w + (kHeaderSize + n)\<rparr>))"

text \<open>The start of the loop: a block with less room than a header is filled up.\<close>

definition next_block :: "(nat \<Rightarrow> nat option) \<Rightarrow> Writer \<Rightarrow> Writer" where
  "next_block io w =
     (let leftover = kBlockSize - block_offset w
      in if leftover < kHeaderSize then
           (w\<lparr>dest := (if 0 < leftover then snd (Append io (replicate leftover NUL) (dest w)) else dest w),
              block_offset := 0\<rparr>)
         else w)"

definition record_type :: "bool \<Rightarrow> bool \<Rightarrow> nat" where
  "record_type begin end =
     (if begin \<and> end then kFullType else if begin then kFirstType else if end then kLastType else kMiddleType)"

text \<open>The room for data in the current block, once a full block has been left.\<close>

definition room_in :: "nat \<Rightarrow> nat" where
  "room_in off = (if kBlockSize - off < kHeaderSize then kBlockSize - kHeaderSize else kBlockSize - off - kHeaderSize)"

lemma room_in_full: "room_in kBlockSize = kBlockSize - kHeaderSize"
  by (simp add: room_in_def kHeaderSize_7)

lemma room_in_next_block: "kBlockSize - block_offset (next_block io w) - kHeaderSize = room_in (block_offset w)"
  by (simp add: next_block_def room_in_def Let_def)

lemma block_offset_Emit:
  "block_offset (snd (EmitPhysicalRecord io t d w)) = block_offset w + (kHeaderSize + length d)"
  by (simp add: EmitPhysicalRecord_def Let_def split: prod.splits)

function AddRecord_loop :: "(nat \<Rightarrow> nat option) \<Rightarrow> bool \<Rightarrow> string \<Rightarrow> Writer \<Rightarrow> bool \<times> Writer" where
  "AddRecord_loop io begin data w =
     (let w1 = next_block io w;
          avail = kBlockSize - block_offset w1 - kHeaderSize;
          fragment_length = (if length data < avail then length data else avail);
          end = (length data = fragment_length);
          (s, w2) = EmitPhysicalRecord io (record_type begin end) (take fragment_length data) w1
      in if s \<and> drop fragment_length data \<noteq> [] then AddRecord_loop io False (drop fragment_length data) w2
         else (s, w2))"
  by auto
termination
proof (relation "measure (\<lambda>(io, b, data, w). 2 * length data + of_bool (room_in (block_offset w) = 0))", simp, goal_cases)
  case (1 io b data w w1 avail fl e x s w2)
  have a: "avail = room_in (block_offset w)" using 1 room_in_next_block by simp
  show ?case
  proof (cases "avail = 0")
    case True
    then have "kHeaderSize \<le> kBlockSize - block_offset w" "kBlockSize - block_offset w - kHeaderSize = 0"
      using kBlockSize_bounds unfolding a room_in_def by (auto simp: kHeaderSize_7 split: if_splits)
    then have w: "block_offset w + kHeaderSize = kBlockSize" "next_block io w = w"
      by (auto simp: next_block_def Let_def kHeaderSize_7)
    have f: "fl = 0" using True 1 by simp
    have "block_offset w2 = kBlockSize"
      using block_offset_Emit [of io "record_type b e" "take fl data" w1] 1(1,5,6) w f by (metis add.right_neutral list.size(3) snd_conv take0)
    then show ?thesis using True a f kBlockSize_bounds by (simp add: room_in_full kHeaderSize_7)
  next
    case False
    then have "length (drop fl data) < length data" using 1 by auto
    then show ?thesis by (auto simp: of_bool_def)
  qed
qed

definition AddRecord :: "(nat \<Rightarrow> nat option) \<Rightarrow> string \<Rightarrow> Writer \<Rightarrow> bool \<times> Writer" where
  "AddRecord io data w = AddRecord_loop io True data w"

declare AddRecord_loop.simps [simp del]

section \<open>Reader\<close>

text \<open>
  \<open>rfile\<close> is the part of the file that has not been read, \<open>reports\<close> what the reporter was told. The
  outcome of the \<open>i\<close>-th read is \<open>rd i\<close>: \<open>None\<close> is success, \<open>Some n\<close> an error after \<open>n\<close> bytes.
\<close>

record Reader =
  rfile :: string
  rcalls :: nat
  checksum :: bool
  buffer :: string
  eof :: bool
  last_record_offset :: nat
  end_of_buffer_offset :: nat
  initial_offset :: nat
  reports :: "(nat \<times> string) list"

definition Reader_new :: "string \<Rightarrow> bool \<Rightarrow> nat \<Rightarrow> Reader" where
  "Reader_new f check init =
     \<lparr>rfile = f, rcalls = 0, checksum = check, buffer = [], eof = False, last_record_offset = 0,
      end_of_buffer_offset = 0, initial_offset = init, reports = []\<rparr>"

definition ReportDrop :: "nat \<Rightarrow> string \<Rightarrow> Reader \<Rightarrow> Reader" where
  "ReportDrop bytes reason r =
     (if initial_offset r \<le> sub64 (sub64 (end_of_buffer_offset r) (length (buffer r))) bytes
      then r\<lparr>reports := reports r @ [(bytes, reason)]\<rparr> else r)"

definition ReportCorruption :: "nat \<Rightarrow> string \<Rightarrow> Reader \<Rightarrow> Reader" where
  "ReportCorruption bytes reason r = ReportDrop bytes reason r"

text \<open>A header byte as \<open>unsigned int\<close>: \<open>char\<close> is signed.\<close>

definition header_type :: "char \<Rightarrow> nat" where
  "header_type c = (let n = of_char c in if n < 128 then n else n + (2 ^ 32 - 256))"

definition header_length :: "string \<Rightarrow> nat" where
  "header_length header = of_char (header ! 4) OR push_bit 8 (of_char (header ! 5))"

text \<open>\<open>file_->Read(kBlockSize, &buffer_, ...)\<close> and the statements after it.\<close>

definition read_block :: "(nat \<Rightarrow> nat option) \<Rightarrow> Reader \<Rightarrow> bool \<times> Reader" where
  "read_block rd r =
     (let n = (case rd (rcalls r) of None \<Rightarrow> kBlockSize | Some n \<Rightarrow> min n kBlockSize);
          buf = take n (rfile r);
          r1 = r\<lparr>buffer := buf, rfile := drop n (rfile r), rcalls := rcalls r + 1,
                 end_of_buffer_offset := add64 (end_of_buffer_offset r) (length buf)\<rparr>
      in if rd (rcalls r) \<noteq> None then (False, (ReportDrop kBlockSize ''read error'' (r1\<lparr>buffer := []\<rparr>))\<lparr>eof := True\<rparr>)
         else (True, if length buf < kBlockSize then r1\<lparr>eof := True\<rparr> else r1))"

text \<open>The part of \<open>ReadPhysicalRecord\<close> after the buffer has been found to hold a header.\<close>

definition parse_record :: "Reader \<Rightarrow> nat \<times> string \<times> Reader" where
  "parse_record r =
     (let header = buffer r;
          type = header_type (header ! 6);
          len = header_length header;
          drop_size = length (buffer r)
      in if drop_size < kHeaderSize + len then
           (kBadRecord, [], ReportCorruption drop_size ''bad record length'' (r\<lparr>buffer := []\<rparr>))
         else if type = kZeroType \<and> len = 0 then (kBadRecord, [], r\<lparr>buffer := []\<rparr>)
         else if checksum r \<and> crc_Value 0 (take (1 + len) (drop 6 header)) \<noteq> Unmask (of_nat (DecodeFixed32 header)) then
           (kBadRecord, [], ReportCorruption drop_size ''checksum mismatch'' (r\<lparr>buffer := []\<rparr>))
         else
           (let r1 = r\<lparr>buffer := drop (kHeaderSize + len) header\<rparr>
            in if sub64 (sub64 (sub64 (end_of_buffer_offset r1) (length (buffer r1))) kHeaderSize) len < initial_offset r1
               then (kBadRecord, [], r1)
               else (type, take len (drop kHeaderSize header), r1)))"

function ReadPhysicalRecord :: "(nat \<Rightarrow> nat option) \<Rightarrow> Reader \<Rightarrow> nat \<times> string \<times> Reader" where
  "ReadPhysicalRecord rd r =
     (if length (buffer r) < kHeaderSize then
        if \<not> eof r then
          (case read_block rd r of
             (False, r1) \<Rightarrow> (kEof, [], r1)
           | (True, r1) \<Rightarrow> ReadPhysicalRecord rd r1)
        else if buffer r = [] then (kEof, [], r)
        else (kEof, [], ReportCorruption (length (buffer r)) ''truncated record at end of file'' (r\<lparr>buffer := []\<rparr>))
      else parse_record r)"
  by auto
termination
  using kBlockSize_bounds
  by (relation "measure (\<lambda>(rd, r). of_bool (length (buffer r) < kHeaderSize \<and> \<not> eof r))")
    (auto simp: read_block_def Let_def kHeaderSize_7 split: if_splits option.splits)

declare ReadPhysicalRecord.simps [simp del]

definition unread :: "Reader \<Rightarrow> nat" where
  "unread r = length (buffer r) + length (rfile r)"

lemma Report_simps [simp]:
  "buffer (ReportCorruption n m r) = buffer r" "rfile (ReportCorruption n m r) = rfile r"
  "eof (ReportCorruption n m r) = eof r" "initial_offset (ReportCorruption n m r) = initial_offset r"
  "rcalls (ReportCorruption n m r) = rcalls r" "checksum (ReportCorruption n m r) = checksum r"
  by (simp_all add: ReportCorruption_def ReportDrop_def)

lemma parse_record_unread:
  "parse_record r = (t, d, r') \<Longrightarrow> kHeaderSize \<le> length (buffer r) \<Longrightarrow> unread r' < unread r"
  by (auto simp: parse_record_def Let_def unread_def kHeaderSize_7 split: if_splits)

lemma read_block_unread: "read_block rd r = (True, r') \<Longrightarrow> length (buffer r) < kHeaderSize \<Longrightarrow> unread r' \<le> unread r"
  by (auto simp: read_block_def Let_def unread_def split: if_splits option.splits)

lemma ReadPhysicalRecord_unread:
  "ReadPhysicalRecord rd r = (t, d, r') \<Longrightarrow> t \<noteq> kEof \<Longrightarrow> unread r' < unread r"
proof (induction rd r rule: ReadPhysicalRecord.induct)
  case (1 rd r)
  note R = 1(2) [unfolded ReadPhysicalRecord.simps [of rd r]]
  consider "kHeaderSize \<le> length (buffer r)" | "length (buffer r) < kHeaderSize" "eof r"
    | "length (buffer r) < kHeaderSize" "\<not> eof r" by linarith
  then show ?case
  proof cases
    case 1
    then show ?thesis using R parse_record_unread [of r t d r'] by simp
  next
    case 2
    then show ?thesis using R "1.prems"(2) by (simp split: if_splits)
  next
    case 3
    obtain b r1 where b: "read_block rd r = (b, r1)" by (cases "read_block rd r")
    then have "b" "ReadPhysicalRecord rd r1 = (t, d, r')" using R 3 "1.prems"(2) by (simp_all split: bool.splits)
    then have "unread r' < unread r1" using "1.IH" b 3 "1.prems"(2) by simp
    then show ?thesis using b \<open>b\<close> 3 read_block_unread [of rd r r1] by simp
  qed
qed

lemma unread_Report [simp]: "unread (ReportCorruption n m r) = unread r"
  by (simp add: unread_def)

text \<open>\<open>None\<close> stands for the return value false.\<close>

function ReadRecord_loop ::
  "(nat \<Rightarrow> nat option) \<Rightarrow> bool \<Rightarrow> string \<Rightarrow> nat \<Rightarrow> Reader \<Rightarrow> string option \<times> Reader" where
  "ReadRecord_loop rd in_fragmented_record scratch prospective_record_offset r =
     (let physical_record_offset = sub64 (end_of_buffer_offset r) (length (buffer r));
          (record_type, fragment, r1) = ReadPhysicalRecord rd r
      in if record_type = kFullType then
           (Some fragment,
            (if in_fragmented_record \<and> scratch \<noteq> []
             then ReportCorruption (length scratch) ''partial record without end(1)'' r1 else r1)
              \<lparr>last_record_offset := physical_record_offset\<rparr>)
         else if record_type = kFirstType then
           ReadRecord_loop rd True fragment physical_record_offset
             (if in_fragmented_record \<and> scratch \<noteq> []
              then ReportCorruption (length scratch) ''partial record without end(2)'' r1 else r1)
         else if record_type = kMiddleType then
           (if \<not> in_fragmented_record
            then ReadRecord_loop rd in_fragmented_record scratch prospective_record_offset
                   (ReportCorruption (length fragment) ''missing start of fragmented record(1)'' r1)
            else ReadRecord_loop rd in_fragmented_record (scratch @ fragment) prospective_record_offset r1)
         else if record_type = kLastType then
           (if \<not> in_fragmented_record
            then ReadRecord_loop rd in_fragmented_record scratch prospective_record_offset
                   (ReportCorruption (length fragment) ''missing start of fragmented record(2)'' r1)
            else (Some (scratch @ fragment), r1\<lparr>last_record_offset := prospective_record_offset\<rparr>))
         else if record_type = kEof then
           (None, if in_fragmented_record
                  then ReportCorruption (length scratch) ''partial record without end(3)'' r1 else r1)
         else if record_type = kBadRecord then
           (if in_fragmented_record
            then ReadRecord_loop rd False [] prospective_record_offset
                   (ReportCorruption (length scratch) ''error in middle of record'' r1)
            else ReadRecord_loop rd in_fragmented_record scratch prospective_record_offset r1)
         else
           ReadRecord_loop rd False [] prospective_record_offset
             (ReportCorruption (length fragment + (if in_fragmented_record then length scratch else 0))
                ''unknown record type'' r1))"
  by auto

termination
  by (relation "measure (\<lambda>(rd, i, s, p, r). unread r)")
    (auto dest: ReadPhysicalRecord_unread [OF sym] simp: record_types)

declare ReadRecord_loop.simps [simp del]

definition SkipToInitialBlock :: "(nat \<Rightarrow> nat option) \<Rightarrow> Reader \<Rightarrow> bool \<times> Reader" where
  "SkipToInitialBlock rd r =
     (let offset_in_block = initial_offset r mod kBlockSize;
          start = initial_offset r - offset_in_block;
          block_start_location = (if kBlockSize - 6 < offset_in_block then add64 start kBlockSize else start);
          r1 = r\<lparr>end_of_buffer_offset := block_start_location\<rparr>
      in if 0 < block_start_location then
           (case rd (rcalls r) of
              None \<Rightarrow> (True, r1\<lparr>rfile := drop block_start_location (rfile r), rcalls := rcalls r + 1\<rparr>)
            | Some _ \<Rightarrow> (False, ReportDrop block_start_location ''skip error'' (r1\<lparr>rcalls := rcalls r + 1\<rparr>)))
         else (True, r1))"

definition ReadRecord :: "(nat \<Rightarrow> nat option) \<Rightarrow> Reader \<Rightarrow> string option \<times> Reader" where
  "ReadRecord rd r =
     (if last_record_offset r < initial_offset r then
        (case SkipToInitialBlock rd r of
           (False, r1) \<Rightarrow> (None, r1)
         | (True, r1) \<Rightarrow> ReadRecord_loop rd False [] 0 r1)
      else ReadRecord_loop rd False [] 0 r)"

lemma unread_offset [simp]: "unread (r\<lparr>last_record_offset := n\<rparr>) = unread r"
  by (simp add: unread_def)

section \<open>From physical to logical records\<close>

text \<open>
  What one physical record does to the loop of \<open>ReadRecord\<close>: it ends it (\<open>Inl\<close>) or changes its
  state (\<open>Inr\<close>).
\<close>

definition advance :: "bool \<Rightarrow> string \<Rightarrow> nat \<Rightarrow> string \<Rightarrow> string option + bool \<times> string" where
  "advance i s t d =
     (if t = kFullType then Inl (Some d)
      else if t = kFirstType then Inr (True, d)
      else if t = kMiddleType then Inr (if i then (True, s @ d) else (False, s))
      else if t = kLastType then (if i then Inl (Some (s @ d)) else Inr (False, s))
      else if t = kEof then Inl None
      else if t = kBadRecord \<and> \<not> i then Inr (False, s)
      else Inr (False, []))"

text \<open>Reading does not depend on what was reported, nor on the offset of the last record.\<close>

definition core :: "Reader \<Rightarrow> Reader" where
  "core r = r\<lparr>reports := [], last_record_offset := 0\<rparr>"

definition core_result :: "nat \<times> string \<times> Reader \<Rightarrow> nat \<times> string \<times> Reader" where
  "core_result = map_prod id (map_prod id core)"

lemma core_simps [simp]:
  "core (r\<lparr>last_record_offset := n\<rparr>) = core r" "core (ReportCorruption n m r) = core r"
  by (simp_all add: core_def ReportCorruption_def ReportDrop_def)

lemma core_eqD: "core r = core r' \<Longrightarrow> buffer r = buffer r' \<and> eof r = eof r' \<and> unread r = unread r'"
  by (cases r; cases r') (simp add: core_def unread_def)

lemma core_eq_fields:
  "core r = core r' \<Longrightarrow> checksum r = checksum r' \<and> end_of_buffer_offset r = end_of_buffer_offset r' \<and>
     initial_offset r = initial_offset r' \<and> core (r\<lparr>buffer := b\<rparr>) = core (r'\<lparr>buffer := b\<rparr>)"
  by (cases r; cases r') (simp add: core_def)

lemma parse_record_core: "core r = core r' \<Longrightarrow> core_result (parse_record r) = core_result (parse_record r')"
  using core_eqD [of r r'] core_eq_fields [of r r'] by (simp add: parse_record_def core_result_def Let_def)

lemma read_block_core: "core r = core r' \<Longrightarrow> map_prod id core (read_block rd r) = map_prod id core (read_block rd r')"
  by (cases r; cases r') (simp add: read_block_def core_def ReportDrop_def Let_def)

lemma ReadPhysicalRecord_core:
  "core r = core r' \<Longrightarrow> core_result (ReadPhysicalRecord rd r) = core_result (ReadPhysicalRecord rd r')"
proof (induction rd r arbitrary: r' rule: ReadPhysicalRecord.induct)
  case (1 rd r)
  obtain b r1 where b: "read_block rd r = (b, r1)" by (cases "read_block rd r")
  obtain b' r2 where b': "read_block rd r' = (b', r2)" by (cases "read_block rd r'")
  have e: "b' = b" "core r1 = core r2" using read_block_core [OF "1.prems", of rd] b b' by simp_all
  note D = core_eqD [OF "1.prems"]
  have i: "core_result (ReadPhysicalRecord rd r1) = core_result (ReadPhysicalRecord rd r2)"
    if "length (buffer r) < kHeaderSize" "\<not> eof r" b
    using "1.IH" e(2) b that by simp
  have c: "core (ReportCorruption n m (r\<lparr>buffer := x\<rparr>)) = core (ReportCorruption n m (r'\<lparr>buffer := x\<rparr>))" for n m x
    using core_eq_fields [OF "1.prems"] by simp
  show ?case
    unfolding ReadPhysicalRecord.simps [of rd r] ReadPhysicalRecord.simps [of rd r'] b b' e(1)
    using D i c e(2) "1.prems" parse_record_core [OF "1.prems"] by (simp add: core_result_def split: bool.splits)
qed

lemma ReadRecord_loop_step:
  assumes "ReadPhysicalRecord rd r = (t, d, r1)"
  shows "\<exists>r2 p'. core r2 = core r1 \<and> ReadRecord_loop rd i s p r =
    (case advance i s t d of Inl x \<Rightarrow> (x, r2) | Inr (i', s') \<Rightarrow> ReadRecord_loop rd i' s' p' r2)"
proof -
  consider "t = kFullType" | "t = kFirstType" | "t = kMiddleType" | "t = kLastType" | "t = kEof" | "t = kBadRecord"
    | "t \<notin> {kFullType, kFirstType, kMiddleType, kLastType, kEof, kBadRecord}" by auto
  then show ?thesis
    unfolding ReadRecord_loop.simps [of rd i s p r] Let_def assms case_prod_conv
    by cases ((cases i; cases "s = []"; simp add: advance_def record_types); (metis core_simps)?)+
qed

lemma ReadRecord_loop_unread: "ReadRecord_loop rd i s p r = (Some x, r') \<Longrightarrow> unread r' < unread r"
proof (induction "unread r" arbitrary: i s p r rule: less_induct)
  case less
  obtain t d r1 where R: "ReadPhysicalRecord rd r = (t, d, r1)" by (cases "ReadPhysicalRecord rd r") auto
  obtain r2 p' where S: "core r2 = core r1" "ReadRecord_loop rd i s p r =
      (case advance i s t d of Inl x \<Rightarrow> (x, r2) | Inr (i', s') \<Rightarrow> ReadRecord_loop rd i' s' p' r2)"
    using ReadRecord_loop_step [OF R, of i s p] by auto
  have "t \<noteq> kEof" using S(2) less.prems by (auto simp: advance_def record_types)
  then have "unread r2 < unread r" using ReadPhysicalRecord_unread [OF R] core_eqD [OF S(1)] by simp
  then show ?case using S(2) less.prems less.hyps [of r2] by (cases "advance i s t d") (auto split: prod.splits dest: less_trans)
qed

lemma SkipToInitialBlock_unread: "unread (snd (SkipToInitialBlock rd r)) \<le> unread r"
  by (cases "rd (rcalls r)") (simp_all add: SkipToInitialBlock_def Let_def unread_def ReportDrop_def)

lemma ReadRecord_unread: "ReadRecord rd r = (Some d, r') \<Longrightarrow> unread r' < unread r"
  using SkipToInitialBlock_unread [of rd r]
  by (auto simp: ReadRecord_def split: if_splits prod.splits bool.splits dest: ReadRecord_loop_unread intro: less_le_trans)

text \<open>All records of a file, as the loop \<open>while (reader.ReadRecord(...))\<close> sees them.\<close>

function read_all :: "(nat \<Rightarrow> nat option) \<Rightarrow> Reader \<Rightarrow> string list" where
  "read_all rd r = (case ReadRecord rd r of (None, r1) \<Rightarrow> [] | (Some d, r1) \<Rightarrow> d # read_all rd r1)"
  by auto
termination
  by (relation "measure (\<lambda>(rd, r). unread r)") (auto dest: ReadRecord_unread [OF sym])

declare read_all.simps [simp del]

text \<open>The physical records of a file.\<close>

function phys_all :: "(nat \<Rightarrow> nat option) \<Rightarrow> Reader \<Rightarrow> (nat \<times> string) list" where
  "phys_all rd r =
     (case ReadPhysicalRecord rd r of (t, d, r1) \<Rightarrow> if t = kEof then [] else (t, d) # phys_all rd r1)"
  by auto
termination
  by (relation "measure (\<lambda>(rd, r). unread r)") (auto dest: ReadPhysicalRecord_unread [OF sym])

declare phys_all.simps [simp del]

fun assemble :: "bool \<Rightarrow> string \<Rightarrow> (nat \<times> string) list \<Rightarrow> string list" where
  "assemble i s [] = []"
| "assemble i s ((t, d) # fs) =
     (case advance i s t d of
        Inl None \<Rightarrow> []
      | Inl (Some x) \<Rightarrow> x # assemble False [] fs
      | Inr (i', s') \<Rightarrow> assemble i' s' fs)"

lemma phys_all_core: "core r = core r' \<Longrightarrow> phys_all rd r = phys_all rd r'"
proof (induction rd r arbitrary: r' rule: phys_all.induct)
  case (1 rd r)
  obtain t d r1 where R: "ReadPhysicalRecord rd r = (t, d, r1)" by (cases "ReadPhysicalRecord rd r") auto
  obtain t' d' r2 where R': "ReadPhysicalRecord rd r' = (t', d', r2)" by (cases "ReadPhysicalRecord rd r'") auto
  have "t' = t" "d' = d" "core r1 = core r2"
    using ReadPhysicalRecord_core [OF "1.prems", of rd] R R' by (simp_all add: core_result_def)
  then show ?case using "1.IH" R R' by (simp add: phys_all.simps [of rd r] phys_all.simps [of rd r'])
qed

end
