(* ===== verification/LogProps.thy ===== *)
theory LogProps
  imports LogFile
begin

text \<open>
  What is read back from the log files of \<open>LogFile\<close>. A reader's state is described by the offset in
  the block and the bytes that are left (\<open>rd_at\<close>); from there the physical records come back one
  by one, and a file that ends within one yields no record for the rest. Records are put together
  from the fragments the writer cut them into.
\<close>

section \<open>Reading all records\<close>

lemma parse_initial: "parse_record r = (t, d, r') \<Longrightarrow> initial_offset r' = initial_offset r"
  by (auto simp: parse_record_def Let_def split: if_splits)

lemma read_block_initial: "read_block rd r = (b, r') \<Longrightarrow> initial_offset r' = initial_offset r"
  by (auto simp: read_block_def ReportDrop_def Let_def split: if_splits)

lemma ReadPhysicalRecord_initial: "ReadPhysicalRecord rd r = (t, d, r') \<Longrightarrow> initial_offset r' = initial_offset r"
proof (induction rd r rule: ReadPhysicalRecord.induct)
  case (1 rd r)
  obtain b r1 where b: "read_block rd r = (b, r1)" by (cases "read_block rd r")
  have "b \<Longrightarrow> length (buffer r) < kHeaderSize \<Longrightarrow> \<not> eof r \<Longrightarrow> ReadPhysicalRecord rd r1 = (t, d, r') \<Longrightarrow>
      initial_offset r' = initial_offset r1"
    using "1.IH" b by simp
  then show ?case using "1.prems" read_block_initial [OF b] parse_initial [of r t d r']
    unfolding ReadPhysicalRecord.simps [of rd r] b by (auto split: if_splits bool.splits)
qed

lemma core_initial: "core r = core r' \<Longrightarrow> initial_offset r = initial_offset r'"
  using core_eq_fields by blast

lemma ReadRecord_loop_assemble:
  "ReadRecord_loop rd i s p r = (x, r') \<Longrightarrow> initial_offset r' = initial_offset r \<and>
     assemble i s (phys_all rd r) = (case x of None \<Rightarrow> [] | Some d \<Rightarrow> d # assemble False [] (phys_all rd r'))"
proof (induction "unread r" arbitrary: i s p r rule: less_induct)
  case less
  obtain t d r1 where R: "ReadPhysicalRecord rd r = (t, d, r1)" by (cases "ReadPhysicalRecord rd r") auto
  obtain r2 p' where S: "core r2 = core r1" "ReadRecord_loop rd i s p r =
      (case advance i s t d of Inl x \<Rightarrow> (x, r2) | Inr (i', s') \<Rightarrow> ReadRecord_loop rd i' s' p' r2)"
    using ReadRecord_loop_step [OF R, of i s p] by auto
  have o: "initial_offset r2 = initial_offset r" using S(1) core_initial ReadPhysicalRecord_initial [OF R] by metis
  show ?case
  proof (cases "t = kEof")
    case True
    then have "advance i s t d = Inl None" by (simp add: advance_def record_types)
    then show ?thesis using True S less.prems R o by (simp add: phys_all.simps [of rd r])
  next
    case False
    then have u: "unread r2 < unread r" using ReadPhysicalRecord_unread [OF R] core_eqD [OF S(1)] by simp
    have ph: "phys_all rd r = (t, d) # phys_all rd r2"
      using False R phys_all_core [OF S(1)] by (simp add: phys_all.simps [of rd r])
    have "x \<noteq> None" if "advance i s t d = Inl x" using that False by (auto simp: advance_def split: if_splits)
    then show ?thesis using S(2) less.prems less.hyps [OF u] o ph by (cases "advance i s t d") (auto split: prod.splits)
  qed
qed

lemma read_all_assemble: "initial_offset r = 0 \<Longrightarrow> read_all rd r = assemble False [] (phys_all rd r)"
proof (induction rd r rule: read_all.induct)
  case (1 rd r)
  obtain x r' where R: "ReadRecord rd r = (x, r')" by (cases "ReadRecord rd r")
  then have L: "ReadRecord_loop rd False [] 0 r = (x, r')" using 1(2) by (simp add: ReadRecord_def)
  show ?case using 1 R ReadRecord_loop_assemble [OF L] by (cases x) (simp_all add: read_all.simps [of rd r])
qed

section \<open>The bytes of physical records\<close>

abbreviation rd_ok :: "nat \<Rightarrow> nat option" where
  "rd_ok \<equiv> \<lambda>_. None"

definition trailer :: "nat \<Rightarrow> string" where
  "trailer off = (if kBlockSize - off < kHeaderSize then replicate (kBlockSize - off) NUL else [])"

definition block_start :: "nat \<Rightarrow> nat" where
  "block_start off = (if kBlockSize - off < kHeaderSize then 0 else off)"

definition header_of :: "nat \<Rightarrow> string \<Rightarrow> string" where
  "header_of t d = EncodeFixed32 (unat (Mask (Extend 0 (type_crc t) d))) @
     [char_of (length d AND 255), char_of (drop_bit 8 (length d)), char_of t]"

definition frag_ok :: "nat \<Rightarrow> nat \<times> string \<Rightarrow> bool" where
  "frag_ok off f \<longleftrightarrow> fst f \<in> {kFullType, kFirstType, kMiddleType, kLastType} \<and> length (snd f) \<le> room_in off"

definition frag_end :: "nat \<Rightarrow> nat \<times> string \<Rightarrow> nat" where
  "frag_end off f = block_start off + kHeaderSize + length (snd f)"

lemma length_header_of [simp]: "length (header_of t d) = kHeaderSize"
  by (simp add: header_of_def kHeaderSize_7)

lemma header_nth: "header_of t d ! 4 = char_of (length d AND 255)" "header_of t d ! 5 = char_of (drop_bit 8 (length d))"
  "header_of t d ! 6 = char_of t" "drop 6 (header_of t d) = [char_of t]"
  by (simp_all add: header_of_def nth_append)

lemma header_length_of: "length d < 65536 \<Longrightarrow> header_length (header_of t d @ x) = length d"
proof -
  assume "length d < 65536"
  then have e: "drop_bit 8 (length d) < 256" by (simp add: drop_bit_eq_div)
  have a: "(of_char (char_of (length d AND 255)) :: nat) = take_bit 8 (length d)"
    unfolding of_char_of_bits mask_255 by (simp flip: take_bit_eq_mask)
  have b: "(of_char (char_of (drop_bit 8 (length d))) :: nat) = drop_bit 8 (length d)"
    unfolding of_char_of_bits using e by (intro take_bit_nat_eq_self) simp
  have n: "(header_of t d @ x) ! 4 = header_of t d ! 4" "(header_of t d @ x) ! 5 = header_of t d ! 5"
    by (simp_all add: nth_append kHeaderSize_7)
  show ?thesis unfolding header_length_def n header_nth a b by (rule or_split)
qed

lemma header_crc: "DecodeFixed32 (header_of t d @ x) = unat (Mask (Extend 0 (type_crc t) d))"
  using DecodeFixed32_Encode [of "unat (Mask (Extend 0 (type_crc t) d))"] unsigned_less [of "Mask (Extend 0 (type_crc t) d)"]
  by (simp add: header_of_def)

lemma crc_type_data: "crc_Value 0 (char_of t # d) = Extend 0 (type_crc t) d"
  by (simp add: crc_Value_def type_crc_def Extend_division crc_ref_append)

section \<open>Positions of a reader\<close>

definition rd_at :: "nat \<Rightarrow> string \<Rightarrow> Reader \<Rightarrow> bool" where
  "rd_at off bytes r \<longleftrightarrow> buffer r @ rfile r = bytes \<and> off \<le> kBlockSize \<and> length (buffer r) \<le> kBlockSize - off \<and>
     initial_offset r = 0 \<and> (if eof r then rfile r = [] else length (buffer r) = kBlockSize - off \<or> off = 0 \<and> buffer r = [])"

lemma rd_at_new: "rd_at 0 f (Reader_new f b 0)"
  by (simp add: rd_at_def Reader_new_def)

text \<open>Reading the next block.\<close>

lemma read_block_at:
  assumes "initial_offset r = 0"
  shows "\<exists>r1. read_block rd_ok r = (True, r1) \<and> buffer r1 = take kBlockSize (rfile r) \<and> rfile r1 = drop kBlockSize (rfile r) \<and>
    initial_offset r1 = 0 \<and> (eof r1 \<longleftrightarrow> length (rfile r) < kBlockSize \<or> eof r)"
  using assms by (auto simp: read_block_def Let_def)

lemma header_type_of: "t < 128 \<Longrightarrow> header_type (char_of t) = t"
  by (simp add: header_type_def)

lemma parse_frag:
  assumes "buffer r = header_of t d @ d @ x" "t \<in> {kFullType, kFirstType, kMiddleType, kLastType}" "length d < 65536" "initial_offset r = 0"
  shows "parse_record r = (t, d, r\<lparr>buffer := x\<rparr>)"
proof -
  have t: "t < 128" "t \<noteq> kZeroType" using assms(2) by (auto simp: record_types)
  have h: "buffer r ! 6 = char_of t" using assms(1) header_nth(3) [of t d] by (simp add: nth_append kHeaderSize_7)
  have l: "header_length (buffer r) = length d" using assms(1,3) header_length_of by simp
  have c: "crc_Value 0 (take (1 + length d) (drop 6 (buffer r))) = Unmask (of_nat (DecodeFixed32 (buffer r)))"
    using assms(1) header_nth(4) [of t d] header_crc [of t d] by (simp add: crc_type_data Unmask_Mask kHeaderSize_7)
  show ?thesis
    unfolding parse_record_def Let_def h l c header_type_of [OF t(1)] using assms(1,4) t(2) by simp
qed

lemma refill:
  assumes "initial_offset r = 0" "length (buffer r) < kHeaderSize" "\<not> eof r"
  shows "\<exists>r1. ReadPhysicalRecord rd_ok r = ReadPhysicalRecord rd_ok r1 \<and> rd_at 0 (rfile r) r1 \<and>
    buffer r1 = take kBlockSize (rfile r) \<and> (eof r1 \<longleftrightarrow> length (rfile r) < kBlockSize)"
proof -
  obtain r1 where "read_block rd_ok r = (True, r1)" "buffer r1 = take kBlockSize (rfile r)" "rfile r1 = drop kBlockSize (rfile r)"
      "initial_offset r1 = 0" "eof r1 \<longleftrightarrow> length (rfile r) < kBlockSize"
    using read_block_at [OF assms(1)] assms(3) by auto
  then show ?thesis using assms by (intro exI [of _ r1]) (simp add: ReadPhysicalRecord.simps [of rd_ok r] rd_at_def)
qed

lemma append_longer: "a @ b = c @ x \<Longrightarrow> length c \<le> length a \<Longrightarrow> \<exists>y. a = c @ y \<and> x = y @ b"
  by (auto simp: append_eq_append_conv2)

text \<open>A fragment that is there is read.\<close>

lemma read_frag:
  assumes "rd_at off (trailer off @ header_of t d @ d @ x) r" "frag_ok off (t, d)"
  shows "\<exists>r'. ReadPhysicalRecord rd_ok r = (t, d, r') \<and> rd_at (frag_end off (t, d)) x r'"
proof -
  have t: "t \<in> {kFullType, kFirstType, kMiddleType, kLastType}" and d: "length d \<le> room_in off"
    using assms(2) by (simp_all add: frag_ok_def)
  have d': "length d < 65536" using d kBlockSize_bounds by (auto simp: room_in_def split: if_splits)
  have fin: "\<exists>r'. ReadPhysicalRecord rd_ok q = (t, d, r') \<and> rd_at (frag_end off (t, d)) x r'"
    if q: "rd_at (block_start off) (header_of t d @ d @ x) q" "kHeaderSize + length d \<le> length (buffer q)" for q
  proof -
    have "buffer q @ rfile q = (header_of t d @ d) @ x" using q(1) by (simp add: rd_at_def)
    from append_longer [OF this] obtain y where y: "buffer q = header_of t d @ d @ y" "x = y @ rfile q"
      using q(2) by auto
    have "ReadPhysicalRecord rd_ok q = (t, d, q\<lparr>buffer := y\<rparr>)"
      using parse_frag [OF y(1) t d'] q by (simp add: ReadPhysicalRecord.simps [of rd_ok q] rd_at_def)
    moreover have "rd_at (frag_end off (t, d)) x (q\<lparr>buffer := y\<rparr>)"
      using q y length_header_of [of t d] by (auto simp: rd_at_def frag_end_def kHeaderSize_7 simp del: length_header_of split: if_splits)
    ultimately show ?thesis by blast
  qed
  have at: "buffer r @ rfile r = trailer off @ header_of t d @ d @ x" "initial_offset r = 0" using assms(1) by (simp_all add: rd_at_def)
  show ?thesis
  proof (cases "length (buffer r) < kHeaderSize")
    case False
    then have "\<not> kBlockSize - off < kHeaderSize" using assms(1) by (auto simp: rd_at_def)
    then have b: "block_start off = off" "trailer off = []" "room_in off = kBlockSize - off - kHeaderSize"
      by (simp_all add: block_start_def trailer_def room_in_def)
    have "kHeaderSize + length d \<le> length (buffer r)"
      using assms(1) False d b by (auto simp: rd_at_def kHeaderSize_7 split: if_splits)
    then show ?thesis using fin assms(1) b by simp
  next
    case True
    have e: "\<not> eof r \<and> block_start off = 0 \<and> buffer r = trailer off"
      using assms(1) True kBlockSize_bounds
      by (auto simp: rd_at_def block_start_def trailer_def kHeaderSize_7 split: if_splits)
    then obtain r1 where r1: "ReadPhysicalRecord rd_ok r = ReadPhysicalRecord rd_ok r1" "rd_at 0 (rfile r) r1"
        "buffer r1 = take kBlockSize (rfile r)"
      using refill [OF at(2) True] by blast
    moreover have "rfile r = header_of t d @ d @ x" using at(1) e by simp
    moreover have "kHeaderSize + length d \<le> kBlockSize"
      using d kBlockSize_bounds by (auto simp: room_in_def kHeaderSize_7 split: if_splits)
    ultimately show ?thesis using fin [of r1] e by simp
  qed
qed

text \<open>A file that ends within a fragment.\<close>

definition no_record :: "(nat \<times> string) list \<Rightarrow> bool" where
  "no_record fs \<longleftrightarrow> fs = [] \<or> fs = [(kBadRecord, [])]"

lemma phys_all_end: "eof r \<Longrightarrow> length (buffer r) < kHeaderSize \<Longrightarrow> phys_all rd r = []"
  by (simp add: phys_all.simps [of rd r] ReadPhysicalRecord.simps [of rd r])

lemma phys_all_eq: "ReadPhysicalRecord rd r = ReadPhysicalRecord rd r' \<Longrightarrow> phys_all rd r = phys_all rd r'"
  by (simp add: phys_all.simps [of rd r] phys_all.simps [of rd r'])

lemma phys_all_parse:
  "parse_record r = (t, d, r') \<Longrightarrow> kHeaderSize \<le> length (buffer r) \<Longrightarrow> t \<noteq> kEof \<Longrightarrow> phys_all rd r = (t, d) # phys_all rd r'"
  by (simp add: phys_all.simps [of rd r] ReadPhysicalRecord.simps [of rd r])

lemma parse_cut:
  assumes "buffer r = take m (header_of t d @ d)" "m < kHeaderSize + length d" "kHeaderSize \<le> m" "length d < 65536"
  shows "\<exists>r'. parse_record r = (kBadRecord, [], r') \<and> buffer r' = [] \<and> eof r' = eof r \<and> rfile r' = rfile r \<and> initial_offset r' = initial_offset r"
proof -
  have b: "buffer r = header_of t d @ take (m - kHeaderSize) d" using assms(1,3) by simp
  have "header_length (buffer r) = length d" unfolding b using assms(4) by (rule header_length_of)
  moreover have "length (buffer r) = m" using assms by simp
  ultimately show ?thesis using assms(2) by (simp add: parse_record_def Let_def)
qed

lemma cut_tail:
  assumes "eof r" "buffer r = take m (header_of t d @ d)" "m < kHeaderSize + length d" "length d < 65536"
  shows "no_record (phys_all rd r)"
proof (cases "m < kHeaderSize")
  case True
  then show ?thesis using assms phys_all_end [of r rd] by (simp add: no_record_def)
next
  case False
  then obtain r' where "parse_record r = (kBadRecord, [], r')" "buffer r' = []" "eof r'"
    using parse_cut [OF assms(2,3) _ assms(4)] assms(1) by auto
  moreover have "\<not> length (buffer r) < kHeaderSize" using False assms by simp
  ultimately show ?thesis using phys_all_end [of r' rd]
    by (simp add: no_record_def phys_all.simps [of rd r] ReadPhysicalRecord.simps [of rd r] record_types kHeaderSize_7)
qed

lemma refill_cut:
  assumes "initial_offset r = 0" "length (buffer r) < kHeaderSize" "\<not> eof r" "rfile r = take m (header_of t d @ d)"
    and "m < kHeaderSize + length d" "kHeaderSize + length d \<le> kBlockSize"
  shows "no_record (phys_all rd_ok r)"
proof -
  obtain r1 where r1: "ReadPhysicalRecord rd_ok r = ReadPhysicalRecord rd_ok r1" "buffer r1 = take kBlockSize (rfile r)"
      "eof r1 \<longleftrightarrow> length (rfile r) < kBlockSize"
    using refill [OF assms(1-3)] by blast
  have "length (rfile r) < kBlockSize" using assms(4-6) by simp
  then have "no_record (phys_all rd_ok r1)"
    using r1 assms(4-6) kBlockSize_bounds by (intro cut_tail [of r1 m t d]) simp_all
  then show ?thesis using phys_all_eq [OF r1(1)] by simp
qed

lemma read_cut:
  assumes "rd_at off (take n (trailer off @ header_of t d @ d)) r" "frag_ok off (t, d)"
    and "n < length (trailer off) + kHeaderSize + length d"
  shows "no_record (phys_all rd_ok r)"
proof -
  let ?bytes = "take n (trailer off @ header_of t d @ d)"
  have d: "length d \<le> room_in off" using assms(2) by (simp add: frag_ok_def)
  have s: "kHeaderSize + length d \<le> kBlockSize" "length d < 65536"
    using d kBlockSize_bounds by (auto simp: room_in_def kHeaderSize_7 split: if_splits)
  have at: "buffer r @ rfile r = ?bytes" "initial_offset r = 0" "length (buffer r) \<le> kBlockSize - off"
    using assms(1) by (simp_all add: rd_at_def)
  have no_eof: "\<not> eof r \<Longrightarrow> length (buffer r) = kBlockSize - off \<or> off = 0 \<and> buffer r = []"
    using assms(1) by (simp add: rd_at_def)
  show ?thesis
  proof (cases "eof r")
    case True
    then have "rfile r = []" using assms(1) by (simp add: rd_at_def)
    then have "buffer r = ?bytes" using at(1) by simp
    moreover have "no_record (phys_all rd_ok r)" if "kBlockSize - off < kHeaderSize"
      using True at(3) that phys_all_end [of r rd_ok] by (simp add: no_record_def)
    moreover have "trailer off = []" if "\<not> kBlockSize - off < kHeaderSize" using that by (simp add: trailer_def)
    ultimately show ?thesis using cut_tail [OF True, of n t d rd_ok] assms(3) s(2) by (metis add_0 append_Nil list.size(3))
  next
    case False
    show ?thesis
    proof (cases "kBlockSize - off < kHeaderSize")
      case True
      have "length (buffer r) = kBlockSize - off"
        using no_eof [OF False] True kBlockSize_bounds by (auto simp: kHeaderSize_7)
      then have b: "length (trailer off) = length (buffer r)" using True by (simp add: trailer_def)
      have "length (buffer r) \<le> length ?bytes" using at(1) by (metis le_add1 length_append)
      then have "?bytes = trailer off @ take (n - length (trailer off)) (header_of t d @ d)" using b by simp
      then have "rfile r = take (n - length (trailer off)) (header_of t d @ d)" using at(1) b by (metis append_eq_append_conv)
      then show ?thesis using refill_cut [OF at(2) _ False, of "n - length (trailer off)" t d] True at(3) assms(3) s by simp
    next
      case f: False
      then have t: "trailer off = []" "room_in off = kBlockSize - off - kHeaderSize" by (simp_all add: trailer_def room_in_def)
      have "length (buffer r) \<le> length ?bytes" using at(1) by (metis le_add1 length_append)
      then have "length (buffer r) < kBlockSize - off" using t assms(3) d f by (simp add: kHeaderSize_7)
      then have "buffer r = []" using no_eof [OF False] by simp
      then show ?thesis using refill_cut [OF at(2) _ False, of n t d] at(1) t assms(3) s by (simp add: kHeaderSize_7)
    qed
  qed
qed

section \<open>Sequences of fragments\<close>

fun lay :: "nat \<Rightarrow> (nat \<times> string) list \<Rightarrow> string" where
  "lay off [] = []"
| "lay off ((t, d) # fs) = trailer off @ header_of t d @ d @ lay (frag_end off (t, d)) fs"

fun lay_ok :: "nat \<Rightarrow> (nat \<times> string) list \<Rightarrow> bool" where
  "lay_ok off [] \<longleftrightarrow> True"
| "lay_ok off (f # fs) \<longleftrightarrow> frag_ok off f \<and> lay_ok (frag_end off f) fs"

fun lay_end :: "nat \<Rightarrow> (nat \<times> string) list \<Rightarrow> nat" where
  "lay_end off [] = off"
| "lay_end off (f # fs) = lay_end (frag_end off f) fs"

lemma lay_append: "lay off (fs @ gs) = lay off fs @ lay (lay_end off fs) gs"
  by (induction off fs rule: lay.induct) simp_all

lemma lay_ok_append: "lay_ok off (fs @ gs) \<longleftrightarrow> lay_ok off fs \<and> lay_ok (lay_end off fs) gs"
  by (induction off fs rule: lay_ok.induct) simp_all

lemma lay_end_append: "lay_end off (fs @ gs) = lay_end (lay_end off fs) gs"
  by (induction off fs rule: lay_end.induct) simp_all

lemma lay_take_mono: "i \<le> j \<Longrightarrow> length (lay off (take i fs)) \<le> length (lay off (take j fs))"
proof -
  assume "i \<le> j"
  then have "take j fs = take i fs @ take (j - i) (drop i fs)" by (metis le_add_diff_inverse take_add)
  then show ?thesis by (simp add: lay_append)
qed

lemma phys_empty: "rd_at off [] r \<Longrightarrow> phys_all rd_ok r = []"
proof (cases "eof r")
  case True
  then show "rd_at off [] r \<Longrightarrow> phys_all rd_ok r = []" by (simp add: rd_at_def phys_all_end kHeaderSize_7)
next
  case False
  assume "rd_at off [] r"
  then have r: "initial_offset r = 0" "buffer r = []" "rfile r = []" by (simp_all add: rd_at_def)
  then obtain r1 where "ReadPhysicalRecord rd_ok r = ReadPhysicalRecord rd_ok r1" "buffer r1 = []" "eof r1"
    using refill [of r] False kBlockSize_bounds by (auto simp: kHeaderSize_7)
  then show ?thesis using phys_all_eq [of rd_ok r r1] by (simp add: phys_all_end kHeaderSize_7)
qed

lemma phys_lay:
  "rd_at off (take n (lay off fs)) r \<Longrightarrow> lay_ok off fs \<Longrightarrow>
   \<exists>k rest. phys_all rd_ok r = take k fs @ rest \<and> no_record rest \<and> k \<le> length fs \<and>
     length (lay off (take k fs)) \<le> n \<and> (k < length fs \<longrightarrow> n < length (lay off (take (Suc k) fs)))"
proof (induction fs arbitrary: off n r)
  case Nil
  then show ?case by (simp add: phys_empty no_record_def)
next
  case (Cons f fs)
  obtain t d where f: "f = (t, d)" by (cases f)
  let ?p = "trailer off @ header_of t d @ d"
  have ok: "frag_ok off (t, d)" "lay_ok (frag_end off (t, d)) fs" using Cons.prems(2) f by simp_all
  show ?case
  proof (cases "n < length ?p")
    case True
    then have "take n (lay off (f # fs)) = take n ?p" using f by simp
    then have "no_record (phys_all rd_ok r)" using read_cut [OF _ ok(1)] Cons.prems(1) True by simp
    then show ?thesis using True f by (intro exI [of _ 0]) simp
  next
    case False
    let ?m = "n - length ?p"
    have "take n (lay off (f # fs)) = ?p @ take ?m (lay (frag_end off (t, d)) fs)" using False f by (simp add: add.assoc)
    then obtain r' where r': "ReadPhysicalRecord rd_ok r = (t, d, r')" "rd_at (frag_end off (t, d)) (take ?m (lay (frag_end off (t, d)) fs)) r'"
      using read_frag [OF _ ok(1)] Cons.prems(1) by fastforce
    obtain k rest where k: "phys_all rd_ok r' = take k fs @ rest" "no_record rest" "k \<le> length fs"
        "length (lay (frag_end off (t, d)) (take k fs)) \<le> ?m" "k < length fs \<longrightarrow> ?m < length (lay (frag_end off (t, d)) (take (Suc k) fs))"
      using Cons.IH [OF r'(2) ok(2)] by blast
    have "t \<noteq> kEof" using ok(1) by (auto simp: frag_ok_def record_types)
    then have "phys_all rd_ok r = take (Suc k) (f # fs) @ rest" using r'(1) k(1) f by (simp add: phys_all.simps [of rd_ok r])
    then show ?thesis using k(2-5) False f by (intro exI [of _ "Suc k"] exI [of _ rest]) (simp, arith)
  qed
qed

section \<open>Records\<close>

inductive record_frags :: "bool \<Rightarrow> string \<Rightarrow> (nat \<times> string) list \<Rightarrow> bool" where
  last: "record_frags b d [(record_type b True, d)]"
| more: "record_frags False d2 fs \<Longrightarrow> record_frags b (d1 @ d2) ((record_type b False, d1) # fs)"

lemma assemble_record:
  "record_frags b d fs \<Longrightarrow> b \<or> i \<Longrightarrow> assemble i s (fs @ gs) = (if b then d else s @ d) # assemble False [] gs"
proof (induction arbitrary: i s rule: record_frags.induct)
  case (last b d)
  then show ?case by (auto simp: record_type_def advance_def record_types)
next
  case (more d2 fs b d1)
  then show ?case by (auto simp: record_type_def advance_def record_types)
qed

lemma assemble_cut:
  "record_frags b d fs \<Longrightarrow> b \<or> i \<Longrightarrow> k < length fs \<Longrightarrow> no_record rest \<Longrightarrow> assemble i s (take k fs @ rest) = []"
proof (induction arbitrary: i s k rule: record_frags.induct)
  case (last b d)
  then show ?case by (auto simp: no_record_def advance_def record_types)
next
  case (more d2 fs b d1)
  then show ?case by (cases k) (auto simp: no_record_def record_type_def advance_def record_types)
qed

abbreviation io_ok :: "nat \<Rightarrow> nat option" where
  "io_ok \<equiv> \<lambda>_. None"

lemma next_block_ok:
  "contents (dest (next_block io_ok w)) = contents (dest w) @ trailer (block_offset w)"
  "block_offset (next_block io_ok w) = block_start (block_offset w)"
  by (simp_all add: next_block_def trailer_def block_start_def Append_def Let_def)

lemma Emit_ok: "\<exists>w'. EmitPhysicalRecord io_ok t d w = (True, w') \<and> contents (dest w') = contents (dest w) @ header_of t d @ d \<and>
    block_offset w' = block_offset w + kHeaderSize + length d"
  by (simp add: EmitPhysicalRecord_def Append_def Flush_def Let_def header_of_def)

lemma AddRecord_unfold:
  assumes "fl = (if length d < room_in (block_offset w) then length d else room_in (block_offset w))"
    and "EmitPhysicalRecord io (record_type b (length d = fl)) (take fl d) (next_block io w) = (s, w2)"
  shows "AddRecord_loop io b d w = (if s \<and> drop fl d \<noteq> [] then AddRecord_loop io False (drop fl d) w2 else (s, w2))"
  using assms by (simp only: AddRecord_loop.simps [of io b d w] Let_def room_in_next_block case_prod_conv)

lemma AddRecord_frags:
  "\<exists>fs w'. AddRecord_loop io_ok b d w = (True, w') \<and> contents (dest w') = contents (dest w) @ lay (block_offset w) fs \<and>
     block_offset w' = lay_end (block_offset w) fs \<and> lay_ok (block_offset w) fs \<and> record_frags b d fs"
proof (induction io_ok b d w rule: AddRecord_loop.induct)
  case (1 b d w)
  let ?off = "block_offset w" and ?w1 = "next_block io_ok w"
  let ?fl = "if length d < room_in ?off then length d else room_in ?off"
  let ?t = "record_type b (length d = ?fl)"
  obtain w2 where w2: "EmitPhysicalRecord io_ok ?t (take ?fl d) ?w1 = (True, w2)"
      "contents (dest w2) = contents (dest w) @ trailer ?off @ header_of ?t (take ?fl d) @ take ?fl d"
      "block_offset w2 = frag_end ?off (?t, take ?fl d)"
    using Emit_ok [of ?t "take ?fl d" ?w1] by (auto simp: next_block_ok frag_end_def)
  have f: "frag_ok ?off (?t, take ?fl d)" by (auto simp: frag_ok_def record_type_def)
  show ?case
  proof (cases "drop ?fl d = []")
    case True
    then have l: "length d = ?fl" by (auto split: if_splits)
    have "AddRecord_loop io_ok b d w = (True, w2)"
      by (simp only: AddRecord_unfold [OF refl w2(1)] True if_False simp_thms)
    moreover have "record_frags b d [(?t, take ?fl d)]" using l record_frags.last [of b d] by simp
    ultimately show ?thesis using w2 f by (intro exI [of _ "[(?t, take ?fl d)]"]) simp
  next
    case False
    then have l: "length d \<noteq> ?fl" by auto
    have A: "AddRecord_loop io_ok b d w = AddRecord_loop io_ok False (drop ?fl d) w2"
      by (simp only: AddRecord_unfold [OF refl w2(1)] False if_True simp_thms)
    obtain fs w' where W: "AddRecord_loop io_ok False (drop ?fl d) w2 = (True, w')"
        "contents (dest w') = contents (dest w2) @ lay (block_offset w2) fs" "block_offset w' = lay_end (block_offset w2) fs"
        "lay_ok (block_offset w2) fs" "record_frags False (drop ?fl d) fs"
      using "1.hyps" [OF refl refl refl refl refl, unfolded room_in_next_block, OF w2(1) [symmetric] conjI [OF TrueI False]] by blast
    have "record_frags b d ((?t, take ?fl d) # fs)"
      using record_frags.more [OF W(5), of b "take ?fl d"] l by simp
    then show ?thesis using A W(1-4) w2(2,3) f by (intro exI [of _ "(?t, take ?fl d) # fs"] exI [of _ w']) simp
  qed
qed

text \<open>The file after a sequence of records.\<close>

definition write_all :: "string list \<Rightarrow> Writer \<Rightarrow> Writer" where
  "write_all ds w = fold (\<lambda>d w. snd (AddRecord io_ok d w)) ds w"

definition log_bytes :: "string list \<Rightarrow> string" where
  "log_bytes ds = contents (dest (write_all ds Writer_new))"

lemma log_layout:
  "\<exists>fss. list_all2 (record_frags True) ds fss \<and> lay_ok 0 (concat fss) \<and>
     block_offset (write_all ds Writer_new) = lay_end 0 (concat fss) \<and>
     (\<forall>j \<le> length ds. log_bytes (take j ds) = lay 0 (concat (take j fss)))"
proof (induction ds rule: rev_induct)
  case Nil
  then show ?case by (simp add: log_bytes_def write_all_def Writer_new_def)
next
  case (snoc d ds)
  then obtain fss where F: "list_all2 (record_frags True) ds fss" "lay_ok 0 (concat fss)"
      "block_offset (write_all ds Writer_new) = lay_end 0 (concat fss)"
      "\<And>j. j \<le> length ds \<Longrightarrow> log_bytes (take j ds) = lay 0 (concat (take j fss))" by blast
  have l: "length fss = length ds" using F(1) by (simp add: list_all2_lengthD)
  let ?w = "write_all ds Writer_new"
  obtain fs w' where W: "AddRecord io_ok d ?w = (True, w')" "contents (dest w') = contents (dest ?w) @ lay (block_offset ?w) fs"
      "block_offset w' = lay_end (block_offset ?w) fs" "lay_ok (block_offset ?w) fs" "record_frags True d fs"
    using AddRecord_frags [of True d ?w] by (auto simp: AddRecord_def)
  have w: "write_all (ds @ [d]) Writer_new = w'" using W(1) by (simp add: write_all_def)
  have b: "log_bytes (ds @ [d]) = lay 0 (concat (fss @ [fs]))"
    using w W(2) F(3) F(4) [of "length ds"] l by (simp add: log_bytes_def lay_append)
  have "log_bytes (take j (ds @ [d])) = lay 0 (concat (take j (fss @ [fs])))" if "j \<le> length (ds @ [d])" for j
    using that F(4) [of j] b l by (cases "j \<le> length ds") (auto simp: not_le le_Suc_eq)
  moreover have "list_all2 (record_frags True) (ds @ [d]) (fss @ [fs])" using F(1) W(5) by (simp add: list_all2_appendI)
  ultimately show ?case using F(2,3) W(3,4) w by (intro exI [of _ "fss @ [fs]"]) (simp add: lay_ok_append lay_end_append)
qed

lemma assemble_records:
  "list_all2 (record_frags True) ds fss \<Longrightarrow> assemble False [] (concat fss @ gs) = ds @ assemble False [] gs"
  by (induction rule: list_all2_induct) (simp_all add: assemble_record)

lemma assemble_prefix:
  assumes "list_all2 (record_frags True) ds fss" "no_record rest" "j \<le> length ds"
    and "length (concat (take j fss)) \<le> k" "j < length ds \<longrightarrow> k < length (concat (take (Suc j) fss))" "k \<le> length (concat fss)"
  shows "assemble False [] (take k (concat fss) @ rest) = take j ds"
proof -
  have l: "length fss = length ds" using assms(1) by (simp add: list_all2_lengthD)
  have a: "list_all2 (record_frags True) (take j ds) (take j fss)" using assms(1) by (rule list_all2_takeI)
  have rest: "assemble False [] rest = []" using assms(2) by (auto simp: no_record_def advance_def record_types)
  show ?thesis
  proof (cases "j < length ds")
    case True
    then have "fss = take j fss @ fss ! j # drop (Suc j) fss" using l by (simp add: id_take_nth_drop)
    then have c: "concat fss = concat (take j fss) @ fss ! j @ concat (drop (Suc j) fss)" by (metis concat.simps(2) concat_append)
    let ?m = "k - length (concat (take j fss))"
    have m: "?m < length (fss ! j)" using True assms(4,5) l by (auto simp: take_Suc_conv_app_nth)
    have "take k (concat fss) = concat (take j fss) @ take ?m (fss ! j)" unfolding c using assms(4) m by simp
    moreover have "record_frags True (ds ! j) (fss ! j)" using assms(1) True by (simp add: list_all2_nthD)
    ultimately show ?thesis using assemble_records [OF a] assemble_cut [of True "ds ! j" "fss ! j" False ?m rest] m assms(2) by simp
  next
    case False
    then have "take k (concat fss) = concat (take j fss)" "take j ds = ds" using assms(3,4,6) l by simp_all
    then show ?thesis using assemble_records [OF a, of rest] rest by simp
  qed
qed

lemma read_log_prefix:
  assumes "j \<le> length ds" "length (log_bytes (take j ds)) \<le> n" "j < length ds \<longrightarrow> n < length (log_bytes (take (Suc j) ds))"
  shows "read_all rd_ok (Reader_new (take n (log_bytes ds)) b 0) = take j ds"
proof -
  obtain fss where F: "list_all2 (record_frags True) ds fss" "lay_ok 0 (concat fss)"
      "\<And>j. j \<le> length ds \<Longrightarrow> log_bytes (take j ds) = lay 0 (concat (take j fss))" using log_layout [of ds] by blast
  have l: "length fss = length ds" using F(1) by (simp add: list_all2_lengthD)
  let ?r = "Reader_new (take n (log_bytes ds)) b 0" and ?L = "\<lambda>j. length (concat (take j fss))"
  have pre: "concat (take i fss) = take (?L i) (concat fss)" for i by (metis append_eq_conv_conj append_take_drop_id concat_append)
  have "log_bytes ds = lay 0 (concat fss)" using F(3) [of "length ds"] l by simp
  then obtain k rest where k: "phys_all rd_ok ?r = take k (concat fss) @ rest" "no_record rest" "k \<le> length (concat fss)"
      "length (lay 0 (take k (concat fss))) \<le> n" "k < length (concat fss) \<longrightarrow> n < length (lay 0 (take (Suc k) (concat fss)))"
    using phys_lay [OF _ F(2), of n ?r] rd_at_new by metis
  have "?L j \<le> k"
  proof (rule ccontr)
    assume "\<not> ?L j \<le> k"
    moreover have "?L j \<le> length (concat fss)" by (subst pre) simp
    ultimately have "n < length (lay 0 (take (Suc k) (concat fss)))" "length (lay 0 (take (Suc k) (concat fss))) \<le> length (lay 0 (take (?L j) (concat fss)))"
      using k(5) lay_take_mono [of "Suc k" "?L j"] by simp_all
    then show False using assms(1,2) F(3) pre [of j] by simp
  qed
  moreover have "k < ?L (Suc j)" if "j < length ds"
  proof (rule ccontr)
    assume "\<not> k < ?L (Suc j)"
    then have "length (lay 0 (take (?L (Suc j)) (concat fss))) \<le> n" using k(4) lay_take_mono [of "?L (Suc j)" k 0 "concat fss"] by simp
    then show False using that assms(3) F(3) [of "Suc j"] pre [of "Suc j"] by simp
  qed
  ultimately have "assemble False [] (phys_all rd_ok ?r) = take j ds"
    unfolding k(1) using assemble_prefix [OF F(1) k(2) assms(1), of k] k(3) by blast
  then show ?thesis by (simp add: read_all_assemble Reader_new_def)
qed

section \<open>Preallocated space\<close>

text \<open>
  The files of \<open>env_posix.cc\<close> are mapped in regions of zeros, which are cut off only when the file is
  closed.
\<close>

lemma parse_zeros:
  assumes "set (buffer r) \<subseteq> {NUL}" "kHeaderSize \<le> length (buffer r)"
  shows "parse_record r = (kBadRecord, [], r\<lparr>buffer := []\<rparr>)"
proof -
  have "buffer r ! i = NUL" if "i < kHeaderSize" for i using assms that nth_mem [of i "buffer r"] by fastforce
  then have "header_type (buffer r ! 6) = kZeroType" "header_length (buffer r) = 0"
    by (simp_all add: header_type_def header_length_def kHeaderSize_7 record_types)
  then show ?thesis using assms(2) by (simp add: parse_record_def Let_def)
qed

lemma read_zeros:
  assumes "initial_offset r = 0" "set (buffer r @ rfile r) \<subseteq> {NUL}" "ReadPhysicalRecord rd_ok r = (t, d, r1)" "t \<noteq> kEof"
  shows "t = kBadRecord \<and> d = [] \<and> initial_offset r1 = 0 \<and> set (buffer r1 @ rfile r1) \<subseteq> {NUL}"
proof -
  have full: ?thesis if "initial_offset q = 0" "set (buffer q @ rfile q) \<subseteq> {NUL}" "ReadPhysicalRecord rd_ok q = (t, d, r1)"
    "length (buffer q) < kHeaderSize \<longrightarrow> eof q" for q
    using that assms(4) parse_zeros [of q] by (cases "length (buffer q) < kHeaderSize") (auto simp: ReadPhysicalRecord.simps [of rd_ok q] split: if_splits)
  show ?thesis
  proof (cases "length (buffer r) < kHeaderSize \<and> \<not> eof r")
    case True
    then obtain q where q: "ReadPhysicalRecord rd_ok r = ReadPhysicalRecord rd_ok q" "rd_at 0 (rfile r) q" "buffer q = take kBlockSize (rfile r)"
        "eof q \<longleftrightarrow> length (rfile r) < kBlockSize" using refill [of r] assms(1) by blast
    have "length (buffer q) < kHeaderSize \<longrightarrow> eof q" using q(3,4) kBlockSize_bounds by (auto simp: kHeaderSize_7)
    moreover have "initial_offset q = 0" "buffer q @ rfile q = rfile r" using q(2) by (simp_all add: rd_at_def)
    ultimately show ?thesis using full [of q] assms(2,3) q(1) by simp
  next
    case False
    then show ?thesis using full [of r] assms(1-3) by blast
  qed
qed

lemma phys_zeros: "initial_offset r = 0 \<Longrightarrow> set (buffer r @ rfile r) \<subseteq> {NUL} \<Longrightarrow> set (phys_all rd_ok r) \<subseteq> {(kBadRecord, [])}"
proof (induction "unread r" arbitrary: r rule: less_induct)
  case less
  obtain t d r1 where R: "ReadPhysicalRecord rd_ok r = (t, d, r1)" by (cases "ReadPhysicalRecord rd_ok r") auto
  show ?case
  proof (cases "t = kEof")
    case False
    then show ?thesis using read_zeros [OF less.prems R] less.hyps [of r1] ReadPhysicalRecord_unread [OF R] R
      by (simp add: phys_all.simps [of rd_ok r])
  qed (use R in \<open>simp add: phys_all.simps [of rd_ok r]\<close>)
qed

lemma phys_lay_zeros:
  "rd_at off (lay off fs @ replicate z NUL) r \<Longrightarrow> lay_ok off fs \<Longrightarrow> \<exists>rest. phys_all rd_ok r = fs @ rest \<and> set rest \<subseteq> {(kBadRecord, [])}"
proof (induction fs arbitrary: off r)
  case Nil
  then have "initial_offset r = 0" "set (buffer r @ rfile r) \<subseteq> {NUL}" by (auto simp: rd_at_def)
  then show ?case using phys_zeros [of r] by simp
next
  case (Cons f fs)
  obtain t d where f: "f = (t, d)" by (cases f)
  have ok: "frag_ok off (t, d)" "lay_ok (frag_end off (t, d)) fs" using Cons.prems(2) f by simp_all
  obtain r' where r': "ReadPhysicalRecord rd_ok r = (t, d, r')" "rd_at (frag_end off (t, d)) (lay (frag_end off (t, d)) fs @ replicate z NUL) r'"
    using read_frag [OF _ ok(1), of "lay (frag_end off (t, d)) fs @ replicate z NUL" r] Cons.prems(1) f by auto
  have "t \<noteq> kEof" using ok(1) by (auto simp: frag_ok_def record_types)
  then show ?case using Cons.IH [OF r'(2) ok(2)] r'(1) f by (auto simp: phys_all.simps [of rd_ok r])
qed

lemma assemble_bad: "set fs \<subseteq> {(kBadRecord, [])} \<Longrightarrow> assemble False [] fs = []"
  by (induction fs) (auto simp: advance_def record_types)

lemma read_log_zeros: "read_all rd_ok (Reader_new (log_bytes ds @ replicate z NUL) b 0) = ds"
proof -
  obtain fss where F: "list_all2 (record_frags True) ds fss" "lay_ok 0 (concat fss)"
      "\<And>j. j \<le> length ds \<Longrightarrow> log_bytes (take j ds) = lay 0 (concat (take j fss))" using log_layout [of ds] by blast
  let ?r = "Reader_new (log_bytes ds @ replicate z NUL) b 0"
  have "log_bytes ds = lay 0 (concat fss)" using F(1) F(3) [of "length ds"] by (simp add: list_all2_lengthD)
  then obtain rest where "phys_all rd_ok ?r = concat fss @ rest" "set rest \<subseteq> {(kBadRecord, [])}"
    using phys_lay_zeros [of 0 "concat fss" z ?r] F(2) rd_at_new by metis
  then show ?thesis using assemble_records [OF F(1)] assemble_bad by (simp add: read_all_assemble Reader_new_def)
qed

section \<open>The contract of a log\<close>

lemma log_bytes_Nil: "log_bytes [] = []"
  by (simp add: log_bytes_def write_all_def Writer_new_def)

lemma log_bytes_mono:
  assumes "i \<le> j" "j \<le> length ds"
  shows "length (log_bytes (take i ds)) \<le> length (log_bytes (take j ds))"
proof -
  obtain fss where F: "\<And>i. i \<le> length ds \<Longrightarrow> log_bytes (take i ds) = lay 0 (concat (take i fss))" using log_layout [of ds] by blast
  have "take j fss = take i fss @ take (j - i) (drop i fss)" using take_add [of i "j - i" fss] assms(1) by simp
  then show ?thesis using F [of i] F [of j] assms by (simp add: lay_append)
qed

text \<open>
  What recovery relies on: records become bytes, and reading the bytes that a crash leaves gives
  a prefix of the records.
\<close>

locale record_log =
  fixes bytes :: "string list \<Rightarrow> string" and records :: "string \<Rightarrow> string list"
  assumes empty: "bytes [] = []"
    and mono: "i \<le> j \<Longrightarrow> j \<le> length ds \<Longrightarrow> length (bytes (take i ds)) \<le> length (bytes (take j ds))"
    and prefix: "j \<le> length ds \<Longrightarrow> length (bytes (take j ds)) \<le> n \<Longrightarrow> (j < length ds \<longrightarrow> n < length (bytes (take (Suc j) ds))) \<Longrightarrow>
      records (take n (bytes ds)) = take j ds"
    and zeros: "records (bytes ds @ replicate z NUL) = ds"
begin

lemma whole: "records (bytes ds) = ds"
  using zeros [of ds 0] by simp

lemma last_complete: "\<exists>j \<le> N. length (bytes (take j ds)) \<le> n \<and> (j < N \<longrightarrow> n < length (bytes (take (Suc j) ds)))"
proof (induction N)
  case 0
  then show ?case by (simp add: empty)
next
  case (Suc N)
  then obtain j where "j \<le> N" "length (bytes (take j ds)) \<le> n" "j < N \<longrightarrow> n < length (bytes (take (Suc j) ds))" by auto
  then show ?case by (cases "j = N \<and> length (bytes (take (Suc N) ds)) \<le> n") (force simp: le_Suc_eq)+
qed

lemma crash:
  assumes "z = 0 \<or> length (bytes ds) \<le> n"
  shows "\<exists>j \<le> length ds. records (take n (bytes ds) @ replicate z NUL) = take j ds \<and> (\<forall>i \<le> length ds. length (bytes (take i ds)) \<le> n \<longrightarrow> i \<le> j)"
proof (cases "z = 0")
  case False
  then show ?thesis using assms zeros [of ds z] by (intro exI [of _ "length ds"]) simp
next
  case True
  obtain j where j: "j \<le> length ds" "length (bytes (take j ds)) \<le> n" "j < length ds \<longrightarrow> n < length (bytes (take (Suc j) ds))"
    using last_complete by blast
  have "i \<le> j" if "i \<le> length ds" "length (bytes (take i ds)) \<le> n" for i
    using mono [of "Suc j" i ds] j(3) that by (cases "i \<le> j") auto
  then show ?thesis using j(1) prefix [OF j] True by (intro exI [of _ j]) simp
qed

end

interpretation wal: record_log log_bytes "\<lambda>f. read_all rd_ok (Reader_new f True 0)"
  by unfold_locales (simp_all add: log_bytes_Nil log_bytes_mono read_log_prefix read_log_zeros)

text \<open>
  C9: The log survives a crash. When records \<open>ds\<close> of any lengths are added to a log file and the
  file is cut to its first \<open>n\<close> bytes, reading it from the start, with or without checksums, returns
  exactly the records whose last fragment is within these bytes: no later record, no part of a
  record and nothing made of the torn end. Here \<open>j\<close> is the number of records that fit. And when the
  complete file is followed by any number of zero bytes, the space that was mapped in advance,
  all records are returned and nothing else.
\<close>

theorem log_crash_prefix:
  assumes "j \<le> length ds" "length (log_bytes (take j ds)) \<le> n" "j < length ds \<longrightarrow> n < length (log_bytes (take (Suc j) ds))"
  shows "read_all rd_ok (Reader_new (take n (log_bytes ds)) b 0) = take j ds \<and>
    read_all rd_ok (Reader_new (log_bytes ds @ replicate z NUL) b 0) = ds"
  using assms by (intro conjI read_log_prefix read_log_zeros)

text \<open>A record that fits into the block.\<close>

lemma AddRecord_small:
  assumes "block_offset w + kHeaderSize + length d \<le> kBlockSize"
  shows "AddRecord io d w = EmitPhysicalRecord io kFullType d w"
proof -
  obtain s w2 where e: "EmitPhysicalRecord io kFullType d w = (s, w2)" by (cases "EmitPhysicalRecord io kFullType d w")
  have "\<not> kBlockSize - block_offset w < kHeaderSize" using assms by linarith
  then have "next_block io w = w" "length d \<le> room_in (block_offset w)" using assms by (simp_all add: next_block_def room_in_def Let_def)
  then show ?thesis using AddRecord_unfold [of "length d" d w io True s w2] e by (simp add: AddRecord_def record_type_def)
qed

lemma log_bytes_small:
  assumes "length x + length y \<le> 32000"
  shows "log_bytes [x] = header_of kFullType x @ x" and "log_bytes [x, y] = header_of kFullType x @ x @ header_of kFullType y @ y"
proof -
  obtain w where w: "EmitPhysicalRecord io_ok kFullType x Writer_new = (True, w)" "contents (dest w) = header_of kFullType x @ x"
      "block_offset w = kHeaderSize + length x" using Emit_ok [of kFullType x Writer_new] by (auto simp: Writer_new_def)
  have a: "AddRecord io_ok x Writer_new = (True, w)"
    using AddRecord_small [of Writer_new x io_ok] w(1) assms by (simp add: Writer_new_def kHeaderSize_7 kBlockSize_def)
  have "AddRecord io_ok y w = EmitPhysicalRecord io_ok kFullType y w"
    using assms w(3) by (intro AddRecord_small) (simp add: kHeaderSize_7 kBlockSize_def)
  then show "log_bytes [x] = header_of kFullType x @ x" "log_bytes [x, y] = header_of kFullType x @ x @ header_of kFullType y @ y"
    using Emit_ok [of kFullType y w] a w(2) by (auto simp: log_bytes_def write_all_def)
qed

text \<open>The second of two records is torn in its header.\<close>

theorem log_crash_prefix_witness:
  "length (log_bytes [''abc'']) = 10 \<and> length (log_bytes [''abc'', ''de'']) = 19 \<and>
   read_all rd_ok (Reader_new (take 12 (log_bytes [''abc'', ''de''])) True 0) = [''abc''] \<and>
   read_all rd_ok (Reader_new (log_bytes [''abc'', ''de''] @ replicate 9 NUL) True 0) = [''abc'', ''de'']"
proof -
  have l: "length (log_bytes [''abc'']) = 10" "length (log_bytes [''abc'', ''de'']) = 19"
    using log_bytes_small [of "''abc''" "''de''"] by (simp_all add: kHeaderSize_7)
  then show ?thesis using log_crash_prefix [of 1 "[''abc'', ''de'']" 12 True 9] by simp
qed

section \<open>A write that fails half way\<close>

text \<open>
  The first region of a file cannot be mapped (\<open>ftruncate\<close> or \<open>mmap\<close> in \<open>MapNewRegion\<close>, the disk is
  full): the append fails with nothing written. Later operations succeed.
\<close>

definition torn_io :: "nat \<Rightarrow> nat option" where
  "torn_io i = (if i = 0 then Some 0 else None)"

lemma Emit_late:
  assumes "0 < calls (dest w)"
  shows "\<exists>w'. EmitPhysicalRecord torn_io t d w = (True, w') \<and> contents (dest w') = contents (dest w) @ header_of t d @ d \<and>
    block_offset w' = block_offset w + kHeaderSize + length d \<and> 0 < calls (dest w')"
  using assms by (simp add: EmitPhysicalRecord_def Append_def Flush_def torn_io_def Let_def header_of_def)

lemma torn_file:
  assumes "length x \<le> 16000" "kBlockSize - 14 < length y" "length y < kBlockSize - 7"
    and "AddRecord torn_io x Writer_new = (s1, w1)" "AddRecord torn_io y w1 = (s2, w2)" "a = kBlockSize - 14 - length x"
  shows "\<not> s1 \<and> s2 \<and> contents (dest w2) = header_of kFirstType (take a y) @ take a y @ header_of kLastType (drop a y) @ drop a y"
proof -
  have "EmitPhysicalRecord torn_io kFullType x Writer_new = (s1, w1)"
    using AddRecord_small [of Writer_new x torn_io] assms(1,4) by (simp add: Writer_new_def kHeaderSize_7 kBlockSize_def)
  then have w1: "\<not> s1" "contents (dest w1) = []" "0 < calls (dest w1)" "block_offset w1 = kHeaderSize + length x"
    by (auto simp: EmitPhysicalRecord_def Writer_new_def Append_def torn_io_def Let_def)
  have room: "next_block torn_io w1 = w1" "room_in (block_offset w1) = a"
    using assms(1,6) w1(4) by (simp_all add: next_block_def room_in_def kHeaderSize_7 kBlockSize_def Let_def)
  obtain w where w: "EmitPhysicalRecord torn_io kFirstType (take a y) w1 = (True, w)" "contents (dest w) = header_of kFirstType (take a y) @ take a y"
      "block_offset w = kBlockSize" "0 < calls (dest w)"
    using Emit_late [OF w1(3), of kFirstType "take a y"] w1(2,4) assms(1,2,6) by (auto simp: kHeaderSize_7 kBlockSize_def)
  have a: "a < length y" "length (drop a y) \<le> kBlockSize - kHeaderSize" using assms(1-3,6) by (simp_all add: kHeaderSize_7 kBlockSize_def)
  have step1: "AddRecord torn_io y w1 = AddRecord_loop torn_io False (drop a y) w"
    using AddRecord_unfold [of a y w1 torn_io True True w] room w(1) a(1) by (simp add: AddRecord_def record_type_def)
  have nb: "next_block torn_io w = w\<lparr>block_offset := 0\<rparr>" "room_in (block_offset w) = kBlockSize - kHeaderSize"
    using w(3) by (cases w; simp add: next_block_def room_in_full kHeaderSize_7)+
  obtain w' where w': "EmitPhysicalRecord torn_io kLastType (drop a y) (w\<lparr>block_offset := 0\<rparr>) = (True, w')"
      "contents (dest w') = contents (dest w) @ header_of kLastType (drop a y) @ drop a y"
    using Emit_late [of "w\<lparr>block_offset := 0\<rparr>" kLastType "drop a y"] w(4) by auto
  have "AddRecord_loop torn_io False (drop a y) w = (True, w')"
    using AddRecord_unfold [of "length (drop a y)" "drop a y" w torn_io False True w'] nb w'(1) a(2) by (simp add: record_type_def)
  then show ?thesis using step1 assms(5) w1(1) w(2) w'(2) by simp
qed

text \<open>The second fragment crosses the end of the block in the file.\<close>

lemma torn_read:
  assumes "length y1 + l + 14 = kBlockSize" "l < length y2" "length y2 < l + 7"
  shows "read_all rd_ok (Reader_new (header_of kFirstType y1 @ y1 @ header_of kLastType y2 @ y2) b 0) = []"
proof -
  let ?t = "header_of kLastType y2 @ y2"
  let ?f = "header_of kFirstType y1 @ y1 @ ?t" and ?r = "Reader_new (header_of kFirstType y1 @ y1 @ header_of kLastType y2 @ y2) b 0"
  have s: "length y1 < 65536" "length y2 < 65536" "kBlockSize = 14 + length y1 + l" using assms kBlockSize_bounds by simp_all
  have T: "take kBlockSize ?f = header_of kFirstType y1 @ y1 @ take (kHeaderSize + l) ?t" "drop kBlockSize ?f = drop l y2"
    unfolding s(3) by (simp_all add: kHeaderSize_7)
  obtain r1 where r1: "ReadPhysicalRecord rd_ok ?r = ReadPhysicalRecord rd_ok r1" "rd_at 0 ?f r1" "buffer r1 = take kBlockSize ?f" "\<not> eof r1"
    using refill [of ?r] assms by (auto simp: Reader_new_def kHeaderSize_7)
  have "buffer r1 @ rfile r1 = ?f" and i1: "initial_offset r1 = 0" using r1(2) unfolding rd_at_def by blast+
  then have f1: "rfile r1 = drop l y2" unfolding r1(3) T(2) [symmetric] by (metis append_take_drop_id same_append_eq)
  let ?r2 = "r1\<lparr>buffer := take (kHeaderSize + l) ?t\<rparr>"
  have p1: "parse_record r1 = (kFirstType, y1, ?r2)" using parse_frag [of r1 kFirstType y1] r1(3) T(1) s(1) i1 by simp
  obtain r3 where r3: "parse_record ?r2 = (kBadRecord, [], r3)" "buffer r3 = []" "\<not> eof r3" "rfile r3 = drop l y2" "initial_offset r3 = 0"
    using parse_cut [of ?r2 "kHeaderSize + l" kLastType y2] assms(2) s(2) r1(4) f1 i1 by auto
  obtain r4 where r4: "ReadPhysicalRecord rd_ok r3 = ReadPhysicalRecord rd_ok r4" "buffer r4 = drop l y2" "eof r4"
    using refill [of r3] r3 assms(3) kBlockSize_bounds by (auto simp: kHeaderSize_7)
  have "phys_all rd_ok r3 = []" using phys_all_eq [OF r4(1)] phys_all_end [of r4 rd_ok] r4(2,3) assms(3) by (simp add: kHeaderSize_7)
  moreover have "phys_all rd_ok ?r2 = (kBadRecord, []) # phys_all rd_ok r3"
    using assms(2) by (intro phys_all_parse [OF r3(1)]) (simp_all add: record_types)
  moreover have "phys_all rd_ok r1 = (kFirstType, y1) # phys_all rd_ok ?r2"
    using r1(3) T(1) by (intro phys_all_parse [OF p1]) (simp_all add: record_types)
  ultimately have "phys_all rd_ok r1 = [(kFirstType, y1), (kBadRecord, [])]" by simp
  then show ?thesis using read_all_assemble [of ?r rd_ok] phys_all_eq [OF r1(1)] by (simp add: Reader_new_def advance_def record_types)
qed

end
