(* ===== verification/Compact.thy ===== *)
theory Compact
  imports DbImpl
begin

text \<open>
  The compactions of LevelDB's background thread (\<open>db/version_set.cc\<close>, \<open>db/db_impl.cc\<close>): which
  files they take, which entries they drop, how the output is cut into files, and what
  replaces the inputs. Which level is due (a floating-point score) and which file was read
  too often are choices of the environment. A memtable that fills up while a compaction
  runs is flushed before or after it here. The lemmas: the inputs of a compaction share no
  key with the files beside them, the output is the newest entry of every key, and it is
  cut into files with disjoint ranges.
\<close>

section \<open>Choosing the inputs\<close>

record Compaction =
  clevel :: nat
  inputs0 :: "FileMetaData list"
  inputs1 :: "FileMetaData list"
  grandparents :: "FileMetaData list"

text \<open>The bounds of no files are cleared keys.\<close>

fun GetRange :: "FileMetaData list \<Rightarrow> entry \<times> entry" where
  "GetRange [] = (Entry [] 0 kTypeDeletion [], Entry [] 0 kTypeDeletion [])"
| "GetRange (f # inputs) =
     fold (\<lambda>g (lo, hi). (if ikey_less (smallest g) lo then smallest g else lo,
                         if ikey_less hi (largest g) then largest g else hi))
       inputs (smallest f, largest f)"

definition GetRange2 :: "FileMetaData list \<Rightarrow> FileMetaData list \<Rightarrow> entry \<times> entry" where
  "GetRange2 in0 in1 = GetRange (in0 @ in1)"

text \<open>The inputs and the key the next compaction of the level continues after.\<close>

definition SetupOtherInputs :: "SizeLimits \<Rightarrow> Version \<Rightarrow> nat \<Rightarrow> FileMetaData list \<Rightarrow> Compaction \<times> entry" where
  "SetupOtherInputs lims v level in0 =
     (let (lo, hi) = GetRange in0;
          in1 = GetOverlappingInputs v (level + 1) (Some lo) (Some hi);
          (all_start, all_limit) = GetRange2 in0 in1;
          expanded0 = GetOverlappingInputs v level (Some all_start) (Some all_limit);
          (new_start, new_limit) = GetRange expanded0;
          expanded1 = GetOverlappingInputs v (level + 1) (Some new_start) (Some new_limit);
          expand = (in1 \<noteq> [] \<and> length expanded0 > length in0 \<and>
            int (TotalFileSize in1 + TotalFileSize expanded0) < kExpandedCompactionByteSizeLimit lims \<and> length expanded1 = length in1);
          (i0, i1, limit) = (if expand then (expanded0, expanded1, new_limit) else (in0, in1, hi));
          (start, end) = GetRange2 i0 i1
      in (\<lparr>clevel = level, inputs0 = i0, inputs1 = i1,
           grandparents = (if level + 2 < kNumLevels then GetOverlappingInputs v (level + 2) (Some start) (Some end) else [])\<rparr>,
          limit))"

text \<open>
  What is due: a level that has grown too large, or a file that was read too often without
  the key being in it.
\<close>

datatype pick = SizeCompaction nat | SeekCompaction nat FileMetaData | NoCompaction

text \<open>The first file after the compaction pointer, or the first file of the level.\<close>

definition first_after :: "entry option \<Rightarrow> FileMetaData list \<Rightarrow> FileMetaData" where
  "first_after pointer files =
     (case List.find (\<lambda>f. case pointer of None \<Rightarrow> True | Some p \<Rightarrow> ikey_less p (largest f)) files of
        Some f \<Rightarrow> f
      | None \<Rightarrow> hd files)"

definition PickCompaction :: "pick \<Rightarrow> DBImpl \<Rightarrow> (Compaction \<times> entry) option" where
  "PickCompaction p db =
     (let setup = (\<lambda>level f.
            let (lo, hi) = GetRange [f];
                in0 = (if level = 0 then GetOverlappingInputs (current db) 0 (Some lo) (Some hi) else [f])
            in SetupOtherInputs (limits db) (current db) level in0)
      in case p of
           NoCompaction \<Rightarrow> None
         | SizeCompaction level \<Rightarrow>
             Some (setup level (first_after (compact_pointer db level) (current db level)))
         | SeekCompaction level f \<Rightarrow> Some (setup level f))"

text \<open>
  What the code asserts of a choice: the level is not the last one and has files, and the
  file is one of its level. (A file on the last level is never charged with a seek, because
  no other file is read after it.)
\<close>

definition pick_ok :: "pick \<Rightarrow> DBImpl \<Rightarrow> bool" where
  "pick_ok p db \<longleftrightarrow> (case p of NoCompaction \<Rightarrow> True
     | SizeCompaction level \<Rightarrow> level + 1 < kNumLevels \<and> current db level \<noteq> []
     | SeekCompaction level f \<Rightarrow> level + 1 < kNumLevels \<and> f \<in> set (current db level))"

definition IsTrivialMove :: "SizeLimits \<Rightarrow> Compaction \<Rightarrow> bool" where
  "IsTrivialMove lims c \<longleftrightarrow> length (inputs0 c) = 1 \<and> length (inputs1 c) = 0 \<and>
     int (TotalFileSize (grandparents c)) \<le> kMaxGrandParentOverlapBytes lims"

section \<open>The work\<close>

text \<open>
  The state of the loop: \<open>level_ptrs_\<close>, \<open>grandparent_index_\<close>, \<open>seen_key_\<close>, \<open>overlapped_bytes_\<close>; the
  current user key and the sequence number of its previous entry (\<open>None\<close> is
  \<open>kMaxSequenceNumber\<close>); the finished outputs, the builder with the number of its file, and
  the next file number.
\<close>

record CompactionState =
  level_ptrs :: "nat \<Rightarrow> nat"
  grandparent_index :: nat
  seen_key :: bool
  overlapped_bytes :: nat
  current_user_key :: "string option"
  last_sequence_for_key :: "nat option"
  outputs :: "FileMetaData list"
  builder :: "entry list option"
  output_number :: nat
  cs_next_file :: nat

definition CompactionState_new :: "nat \<Rightarrow> CompactionState" where
  "CompactionState_new n = \<lparr>level_ptrs = (\<lambda>_. 0), grandparent_index = 0, seen_key = False, overlapped_bytes = 0,
     current_user_key = None, last_sequence_for_key = None, outputs = [], builder = None, output_number = 0,
     cs_next_file = n\<rparr>"

text \<open>Advancing a level pointer past the files that end before the key.\<close>

function advance_ptr :: "FileMetaData list \<Rightarrow> string \<Rightarrow> nat \<Rightarrow> nat" where
  "advance_ptr files k p = (if p < length files \<and> ukey (largest (files ! p)) < k then advance_ptr files k (p + 1) else p)"
  by pat_completeness auto
termination
  by (relation "measure (\<lambda>(fs, _, p). length fs - p)") auto

declare advance_ptr.simps [simp del]

fun IsBaseLevelForKey :: "Version \<Rightarrow> string \<Rightarrow> nat list \<Rightarrow> (nat \<Rightarrow> nat) \<Rightarrow> bool \<times> (nat \<Rightarrow> nat)" where
  "IsBaseLevelForKey v k [] ptrs = (True, ptrs)"
| "IsBaseLevelForKey v k (lvl # lvls) ptrs =
     (let p = advance_ptr (v lvl) k (ptrs lvl); ptrs' = ptrs(lvl := p)
      in if p < length (v lvl) \<and> ukey (smallest (v lvl ! p)) \<le> k then (False, ptrs')
         else IsBaseLevelForKey v k lvls ptrs')"

function skip_grandparents :: "FileMetaData list \<Rightarrow> entry \<Rightarrow> bool \<Rightarrow> nat \<Rightarrow> nat \<Rightarrow> nat \<times> nat" where
  "skip_grandparents gs e seen i bytes =
     (if i < length gs \<and> ikey_less (largest (gs ! i)) e
      then skip_grandparents gs e seen (i + 1) (if seen then bytes + file_size (gs ! i) else bytes)
      else (i, bytes))"
  by pat_completeness auto
termination
  by (relation "measure (\<lambda>(gs, _, _, i, _). length gs - i)") auto

declare skip_grandparents.simps [simp del]

definition ShouldStopBefore :: "SizeLimits \<Rightarrow> Compaction \<Rightarrow> entry \<Rightarrow> CompactionState \<Rightarrow> bool \<times> CompactionState" where
  "ShouldStopBefore lims c e st =
     (let (i, bytes) = skip_grandparents (grandparents c) e (seen_key st) (grandparent_index st) (overlapped_bytes st);
          st1 = st\<lparr>grandparent_index := i, seen_key := True, overlapped_bytes := bytes\<rparr>
      in if int bytes > kMaxGrandParentOverlapBytes lims then (True, st1\<lparr>overlapped_bytes := 0\<rparr>) else (False, st1))"

definition FinishCompactionOutputFile :: "(entry list \<Rightarrow> nat) \<Rightarrow> CompactionState \<Rightarrow> CompactionState" where
  "FinishCompactionOutputFile bytes st =
     (case builder st of
        None \<Rightarrow> st
      | Some t \<Rightarrow> st\<lparr>outputs := outputs st @ [BuildTable bytes (output_number st) t], builder := None\<rparr>)"

definition OpenCompactionOutputFile :: "CompactionState \<Rightarrow> CompactionState" where
  "OpenCompactionOutputFile st =
     st\<lparr>builder := Some [], output_number := cs_next_file st, cs_next_file := cs_next_file st + 1\<rparr>"

text \<open>Whether an entry is dropped, rules (A) and the one for deletion markers.\<close>

definition drop_entry :: "nat \<Rightarrow> Version \<Rightarrow> nat \<Rightarrow> entry \<Rightarrow> CompactionState \<Rightarrow> bool \<times> CompactionState" where
  "drop_entry smallest_snapshot v level e st =
     (let first = (current_user_key st \<noteq> Some (ukey e));
          last = (if first then None else last_sequence_for_key st);
          st1 = st\<lparr>current_user_key := Some (ukey e), last_sequence_for_key := Some (eseq e)\<rparr>
      in if (case last of None \<Rightarrow> False | Some s \<Rightarrow> s \<le> smallest_snapshot) then (True, st1)
         else if etype e = kTypeDeletion \<and> eseq e \<le> smallest_snapshot then
           (let (base, ptrs) = IsBaseLevelForKey v (ukey e) [level + 2..<kNumLevels] (level_ptrs st)
            in (base, st1\<lparr>level_ptrs := ptrs\<rparr>))
         else (False, st1))"

text \<open>
  The environment of a step of the background thread: what is due, whether the files can be
  written, the sizes of tables, and the size a table builder reports while it is filled. A
  failure is noticed at the end of the step: the outputs are lost, their numbers are used up.
\<close>

record bg_env =
  bg_pick :: pick
  bg_ok :: bool
  bg_bytes :: "entry list \<Rightarrow> nat"
  bg_fill :: "entry list \<Rightarrow> nat"

definition add_entry :: "bg_env \<Rightarrow> SizeLimits \<Rightarrow> entry \<Rightarrow> CompactionState \<Rightarrow> CompactionState" where
  "add_entry env lims e st =
     (let st1 = (if builder st = None then OpenCompactionOutputFile st else st);
          t = (case builder st1 of None \<Rightarrow> [] | Some b \<Rightarrow> b) @ [e];
          st2 = st1\<lparr>builder := Some t\<rparr>
      in if bg_fill env t \<ge> MaxFileSizeForLevel lims then FinishCompactionOutputFile (bg_bytes env) st2 else st2)"

fun compaction_loop ::
  "bg_env \<Rightarrow> SizeLimits \<Rightarrow> nat \<Rightarrow> Version \<Rightarrow> Compaction \<Rightarrow> entry list \<Rightarrow> CompactionState \<Rightarrow> CompactionState" where
  "compaction_loop env lims snap v c [] st = FinishCompactionOutputFile (bg_bytes env) st"
| "compaction_loop env lims snap v c (e # input) st =
     (let (stop, st1) = ShouldStopBefore lims c e st;
          st2 = (if stop \<and> builder st1 \<noteq> None then FinishCompactionOutputFile (bg_bytes env) st1 else st1);
          (dropped, st3) = drop_entry snap v (clevel c) e st2;
          st4 = (if dropped then st3 else add_entry env lims e st3)
      in compaction_loop env lims snap v c input st4)"

text \<open>One iterator per level-0 input, one through the inputs of a level for the others.\<close>

definition MakeInputIterator :: "Compaction \<Rightarrow> entry list" where
  "MakeInputIterator c =
     MergingIterator
       ((if inputs0 c = [] then [] else if clevel c = 0 then map ftable (inputs0 c) else [concat (map ftable (inputs0 c))]) @
        (if inputs1 c = [] then [] else [concat (map ftable (inputs1 c))]))"

definition input_deletions :: "Compaction \<Rightarrow> (nat \<times> nat) list" where
  "input_deletions c = map (\<lambda>f. (clevel c, fnumber f)) (inputs0 c) @ map (\<lambda>f. (clevel c + 1, fnumber f)) (inputs1 c)"

definition InstallCompactionResults :: "Compaction \<Rightarrow> FileMetaData list \<Rightarrow> Version \<Rightarrow> Version" where
  "InstallCompactionResults c outs =
     LogAndApply \<lparr>deleted_files = input_deletions c, new_files = map (Pair (clevel c + 1)) outs\<rparr>"

definition DoCompactionWork :: "bg_env \<Rightarrow> Compaction \<Rightarrow> DBImpl \<Rightarrow> DBImpl" where
  "DoCompactionWork e c db =
     (let snap = (case snapshots db of [] \<Rightarrow> last_sequence db | s # _ \<Rightarrow> s);
          st = compaction_loop e (limits db) snap (current db) c (MakeInputIterator c)
            (CompactionState_new (next_file_number db));
          db1 = db\<lparr>next_file_number := cs_next_file st\<rparr>
      in if \<not> bg_ok e then db1
         else db1\<lparr>current := InstallCompactionResults c (outputs st) (current db1)\<rparr>)"

definition BackgroundCompaction :: "bg_env \<Rightarrow> DBImpl \<Rightarrow> DBImpl" where
  "BackgroundCompaction e db =
     (if db_imm db \<noteq> None then
        (if bg_ok e then CompactMemTable (bg_bytes e) db else db\<lparr>next_file_number := next_file_number db + 1\<rparr>)
      else (case PickCompaction (bg_pick e) db of
          None \<Rightarrow> db
        | Some (c, limit) \<Rightarrow>
            (let db1 = db\<lparr>compact_pointer := (compact_pointer db)(clevel c := Some limit)\<rparr>
             in if IsTrivialMove (limits db) c then
                  (if \<not> bg_ok e then db1
                   else db1\<lparr>current := LogAndApply
                     \<lparr>deleted_files = [(clevel c, fnumber (hd (inputs0 c)))],
                      new_files = [(clevel c + 1, hd (inputs0 c))]\<rparr> (current db1)\<rparr>)
                else DoCompactionWork e c db1)))"

section \<open>The inputs are closed\<close>

definition no_shared :: "entry set \<Rightarrow> entry set \<Rightarrow> bool" where
  "no_shared a b \<longleftrightarrow> (\<forall>x \<in> a. \<forall>y \<in> b. ukey x \<noteq> ukey y)"

text \<open>Files of a level that share no key with the other files of the level.\<close>

definition closed_in :: "FileMetaData list \<Rightarrow> nat \<Rightarrow> FileMetaData list \<Rightarrow> bool" where
  "closed_in fs level in0 \<longleftrightarrow> in0 \<noteq> [] \<and> set in0 \<subseteq> set fs \<and> distinct in0 \<and> (0 < level \<longrightarrow> disjoint_files in0) \<and>
     (\<forall>f \<in> set in0. \<forall>g \<in> set fs - set in0. no_shared (tset f) (tset g))"

text \<open>All files of the next level that overlap a range around the inputs.\<close>

definition covers :: "FileMetaData list \<Rightarrow> FileMetaData list \<Rightarrow> FileMetaData list \<Rightarrow> bool" where
  "covers fs in0 in1 \<longleftrightarrow> (\<exists>lo hi. (\<forall>f \<in> set in0. lo \<le> ukey (smallest f) \<and> ukey (largest f) \<le> hi) \<and>
     in1 = filter (\<lambda>g. \<not> outside lo hi g) fs)"

definition inputs_ok :: "Version \<Rightarrow> Compaction \<Rightarrow> bool" where
  "inputs_ok v c \<longleftrightarrow> clevel c + 1 < kNumLevels \<and> closed_in (v (clevel c)) (clevel c) (inputs0 c) \<and>
     covers (v (clevel c + 1)) (inputs0 c) (inputs1 c)"

lemma ikey_less_ukey: "ikey_less a b \<Longrightarrow> ukey a \<le> ukey b" "\<not> ikey_less a b \<Longrightarrow> ukey b \<le> ukey a"
  by (auto simp: ikey_less_def)

lemma GetRange_fold:
  "fold (\<lambda>g (lo, hi). (if ikey_less (smallest g) lo then smallest g else lo,
      if ikey_less hi (largest g) then largest g else hi)) fs (lo, hi) = (lo', hi') \<Longrightarrow>
   ukey lo' \<le> ukey lo \<and> ukey hi \<le> ukey hi' \<and> (\<forall>f \<in> set fs. ukey lo' \<le> ukey (smallest f) \<and> ukey (largest f) \<le> ukey hi')"
proof (induction fs arbitrary: lo hi)
  case (Cons f fs)
  let ?lo = "if ikey_less (smallest f) lo then smallest f else lo" and ?hi = "if ikey_less hi (largest f) then largest f else hi"
  have "ukey ?lo \<le> ukey lo" "ukey ?lo \<le> ukey (smallest f)" "ukey hi \<le> ukey ?hi" "ukey (largest f) \<le> ukey ?hi"
    using ikey_less_ukey by auto
  then show ?case using Cons.IH [of ?lo ?hi] Cons.prems by (fastforce intro: order_trans)
qed simp

lemma GetRange_hull:
  assumes "GetRange fs = (lo, hi)" "f \<in> set fs"
  shows "ukey lo \<le> ukey (smallest f) \<and> ukey (largest f) \<le> ukey hi"
proof (cases fs)
  case (Cons g gs)
  then show ?thesis using assms GetRange_fold [of gs "smallest g" "largest g" lo hi] by auto
qed (use assms in simp)

lemma GetOverlappingInputs_exact:
  obtains b' e' where "b' \<le> ukey b" "ukey e \<le> e'" "level = 0 \<or> b' = ukey b \<and> e' = ukey e"
    "GetOverlappingInputs v level (Some b) (Some e) = filter (\<lambda>f. \<not> outside b' e' f) (v level)"
    "level = 0 \<longrightarrow> (\<forall>f \<in> set (v level). \<not> outside b' e' f \<longrightarrow> b' \<le> ukey (smallest f) \<and> ukey (largest f) \<le> e')"
proof -
  let ?G = "GetOverlapping_loop (level = 0) (v level) (Some (ukey b)) (Some (ukey e)) 0 []"
  obtain b' e' where "b' \<le> ukey b" "ukey e \<le> e'" "level = 0 \<or> b' = ukey b \<and> e' = ukey e"
    "?G = filter (\<lambda>f. \<not> outside b' e' f) (v level)"
    "level = 0 \<longrightarrow> (\<forall>f \<in> set (filter (\<lambda>f. \<not> outside b' e' f) (v level)). b' \<le> ukey (smallest f) \<and> ukey (largest f) \<le> e')"
    using GetOverlapping_loop_exact [of "[]" "ukey b" "ukey e" 0 "v level" "level = 0"] by simp blast
  then show thesis using that [of b' e'] by (simp add: GetOverlappingInputs_def)
qed

lemma disjoint_cmp: "disjoint_files fs \<Longrightarrow> f \<in> set fs \<Longrightarrow> g \<in> set fs \<Longrightarrow> f \<noteq> g \<Longrightarrow> before_file f g \<or> before_file g f"
  by (induction fs) auto

lemma disjoint_no_shared:
  assumes "disjoint_files fs" "\<forall>f \<in> set fs. file_ok s f" "f \<in> set fs" "g \<in> set fs" "f \<noteq> g"
  shows "no_shared (tset f) (tset g)"
proof -
  have "before_file f g \<or> before_file g f" using disjoint_cmp [OF assms(1,3-5)] .
  moreover have "file_ok s f" "file_ok s g" using assms by auto
  ultimately show ?thesis unfolding no_shared_def before_file_def
    using file_ok_range [of s f] file_ok_range [of s g] by (metis leD le_less_trans less_le_trans)
qed

lemma overlapping_closed:
  assumes "version_inv s v" "in0 = GetOverlappingInputs v level (Some b) (Some e)" "in0 \<noteq> []"
  shows "closed_in (v level) level in0"
proof -
  obtain b' e' where G: "in0 = filter (\<lambda>f. \<not> outside b' e' f) (v level)"
    "level = 0 \<longrightarrow> (\<forall>f \<in> set (v level). \<not> outside b' e' f \<longrightarrow> b' \<le> ukey (smallest f) \<and> ukey (largest f) \<le> e')"
    using GetOverlappingInputs_exact [of b e level v] assms(2) by metis
  have d: "distinct (v level)" "0 < level \<longrightarrow> disjoint_files (v level)" using assms(1) by (auto simp: version_inv_def)
  note ok = version_inv_ok [OF assms(1), of _ level]
  have "no_shared (tset f) (tset g)" if f: "f \<in> set in0" and g: "g \<in> set (v level) - set in0" for f g
  proof (cases "level = 0")
    case True
    then have F: "b' \<le> ukey (smallest f)" "ukey (largest f) \<le> e'" "outside b' e' g" "f \<in> set (v level)" "g \<in> set (v level)"
      using G f g by auto
    then show ?thesis unfolding no_shared_def outside_def
      using file_ok_range [OF ok, of f] file_ok_range [OF ok, of g] by (metis leD le_less_trans less_le_trans order_trans)
  next
    case False
    then show ?thesis using disjoint_no_shared [of "v level" s f g] d ok f g G(1) by auto
  qed
  then show ?thesis using assms(3) G(1) d by (auto simp: closed_in_def sorted_wrt_filter)
qed

lemma SetupOtherInputs_ok:
  assumes "version_inv s v" "level + 1 < kNumLevels" "closed_in (v level) level in0"
  shows "inputs_ok v (fst (SetupOtherInputs lims v level in0))" and "clevel (fst (SetupOtherInputs lims v level in0)) = level"
proof -
  have cov: "covers (v (level + 1)) fs (GetOverlappingInputs v (level + 1) (Some lo) (Some hi))" if "GetRange fs = (lo, hi)" for fs lo hi
  proof -
    have "GetOverlappingInputs v (level + 1) (Some lo) (Some hi) = filter (\<lambda>f. \<not> outside (ukey lo) (ukey hi) f) (v (level + 1))"
      by (rule GetOverlappingInputs_exact [of lo hi "level + 1" v]) simp
    then show ?thesis using GetRange_hull [OF that] by (auto simp: covers_def)
  qed
  obtain lo hi where r: "GetRange in0 = (lo, hi)" by fastforce
  let ?in1 = "GetOverlappingInputs v (level + 1) (Some lo) (Some hi)"
  obtain as al where r2: "GetRange2 in0 ?in1 = (as, al)" by fastforce
  let ?e0 = "GetOverlappingInputs v level (Some as) (Some al)"
  obtain ns nl where r3: "GetRange ?e0 = (ns, nl)" by fastforce
  let ?e1 = "GetOverlappingInputs v (level + 1) (Some ns) (Some nl)"
  let ?c = "fst (SetupOtherInputs lims v level in0)"
  have c: "clevel ?c = level \<and> ((inputs0 ?c = in0 \<and> inputs1 ?c = ?in1) \<or> (inputs0 ?c = ?e0 \<and> inputs1 ?c = ?e1 \<and> ?e0 \<noteq> []))"
    unfolding SetupOtherInputs_def r r2 r3 Let_def split by (auto split: prod.splits if_splits)
  then show "clevel ?c = level" by blast
  have "closed_in (v level) level ?e0" if "?e0 \<noteq> []" using overlapping_closed [OF assms(1) refl that] .
  then show "inputs_ok v ?c" using c assms(2,3) cov [OF r] cov [OF r3] by (auto simp: inputs_ok_def)
qed

lemma PickCompaction_ok:
  assumes "DB_inv db" "pick_ok p db" "PickCompaction p db = Some (c, limit)"
  shows "inputs_ok (current db) c"
proof -
  let ?v = "current db"
  have inv: "version_inv (last_sequence db) ?v" using assms(1) by (simp add: DB_inv_def)
  obtain level f where lf: "level + 1 < kNumLevels" "f \<in> set (?v level)"
    "c = fst (SetupOtherInputs (limits db) ?v level
       (if level = 0 then GetOverlappingInputs ?v 0 (Some (smallest f)) (Some (largest f)) else [f]))"
  proof (cases p)
    case (SizeCompaction level)
    let ?f = "first_after (compact_pointer db level) (?v level)"
    have "?f \<in> set (?v level)" using assms(2) SizeCompaction
      by (auto simp: first_after_def pick_ok_def find_Some_iff split: option.splits)
    then show ?thesis using that [of level ?f] assms(2,3) SizeCompaction
      by (simp add: pick_ok_def PickCompaction_def Let_def)
  next
    case (SeekCompaction level f)
    then show ?thesis using that [of level f] assms(2,3)
      by (simp add: pick_ok_def PickCompaction_def Let_def)
  qed (use assms(3) in \<open>simp add: PickCompaction_def\<close>)
  let ?in0 = "if level = 0 then GetOverlappingInputs ?v 0 (Some (smallest f)) (Some (largest f)) else [f]"
  have "closed_in (?v level) level ?in0"
  proof (cases "level = 0")
    case True
    obtain b' e' where "b' \<le> ukey (smallest f)" "ukey (largest f) \<le> e'"
      "GetOverlappingInputs ?v 0 (Some (smallest f)) (Some (largest f)) = filter (\<lambda>f. \<not> outside b' e' f) (?v 0)"
      using GetOverlappingInputs_exact [of "smallest f" "largest f" 0 ?v] by metis
    moreover have "ukey (smallest f) \<le> ukey (largest f)" using file_ok_bounds version_inv_ok [OF inv lf(2)] by blast
    ultimately have "f \<in> set ?in0" using lf(2) True unfolding outside_def by (auto simp: not_less dest: order_trans)
    then have "?in0 \<noteq> []" by auto
    then show ?thesis using overlapping_closed [OF inv, of ?in0 0] True by simp
  next
    case False
    then show ?thesis using lf(2) disjoint_no_shared [OF version_inv_disjoint [OF inv], of level _ f] version_inv_ok [OF inv]
      by (auto simp: closed_in_def)
  qed
  then show ?thesis using SetupOtherInputs_ok(1) [OF inv lf(1)] lf(3) by blast
qed

section \<open>What the loop keeps\<close>

text \<open>No file below the output level has the key in its range.\<close>

definition base_level :: "Version \<Rightarrow> nat list \<Rightarrow> string \<Rightarrow> bool" where
  "base_level v lvls k \<longleftrightarrow> (\<forall>l \<in> set lvls. \<forall>f \<in> set (v l). \<not> (ukey (smallest f) \<le> k \<and> k \<le> ukey (largest f)))"

definition ptrs_ok :: "Version \<Rightarrow> string \<Rightarrow> (nat \<Rightarrow> nat) \<Rightarrow> bool" where
  "ptrs_ok v k ptrs \<longleftrightarrow> (\<forall>l. \<forall>i < ptrs l. i < length (v l) \<and> ukey (largest (v l ! i)) < k)"

lemma advance_ptr_stops:
  "\<forall>i < p. i < length fs \<and> ukey (largest (fs ! i)) < k \<Longrightarrow>
   (\<forall>i < advance_ptr fs k p. i < length fs \<and> ukey (largest (fs ! i)) < k) \<and>
   (advance_ptr fs k p < length fs \<longrightarrow> k \<le> ukey (largest (fs ! advance_ptr fs k p)))"
proof (induction fs k p rule: advance_ptr.induct)
  case (1 fs k p)
  show ?case
  proof (cases "p < length fs \<and> ukey (largest (fs ! p)) < k")
    case True
    then have e: "advance_ptr fs k p = advance_ptr fs k (p + 1)" using advance_ptr.simps [of fs k p] by simp
    have "\<forall>i < p + 1. i < length fs \<and> ukey (largest (fs ! i)) < k" using 1(2) True by (metis less_Suc_eq Suc_eq_plus1)
    then show ?thesis unfolding e using 1(1) [OF True] by blast
  next
    case False
    then have e: "advance_ptr fs k p = p" using advance_ptr.simps [of fs k p] by (simp only: if_False)
    show ?thesis unfolding e using 1(2) False by (meson not_less)
  qed
qed

lemma file_after:
  assumes "disjoint_files fs" "\<forall>f \<in> set fs. file_ok s f" "\<forall>i < p. i < length fs \<and> ukey (largest (fs ! i)) < k"
    and "p < length fs \<longrightarrow> k \<le> ukey (largest (fs ! p))"
  shows "(\<exists>f \<in> set fs. ukey (smallest f) \<le> k \<and> k \<le> ukey (largest f)) \<longleftrightarrow> p < length fs \<and> ukey (smallest (fs ! p)) \<le> k"
proof
  assume "\<exists>f \<in> set fs. ukey (smallest f) \<le> k \<and> k \<le> ukey (largest f)"
  then obtain i where i: "i < length fs" "ukey (smallest (fs ! i)) \<le> k" "k \<le> ukey (largest (fs ! i))" by (metis in_set_conv_nth)
  then have pi: "p \<le> i" using assms(3) by (meson leD not_less)
  then have "p = i \<or> ukey (largest (fs ! p)) < ukey (smallest (fs ! i))"
    using disjoint_files_nth [OF assms(1,2), of p i] i(1) by (meson le_neq_implies_less)
  then show "p < length fs \<and> ukey (smallest (fs ! p)) \<le> k" using i pi assms(4) by (metis leD le_less_trans less_le_trans)
next
  assume "p < length fs \<and> ukey (smallest (fs ! p)) \<le> k"
  then show "\<exists>f \<in> set fs. ukey (smallest f) \<le> k \<and> k \<le> ukey (largest f)" using assms(4) nth_mem by blast
qed

lemma IsBaseLevelForKey_exact:
  assumes "version_inv s v" "ptrs_ok v k ptrs" "\<forall>l \<in> set lvls. 0 < l"
  shows "fst (IsBaseLevelForKey v k lvls ptrs) = base_level v lvls k \<and> ptrs_ok v k (snd (IsBaseLevelForKey v k lvls ptrs))"
  using assms
proof (induction v k lvls ptrs rule: IsBaseLevelForKey.induct)
  case (1 v k ptrs)
  then show ?case by (simp add: base_level_def)
next
  case (2 v k l lvls ptrs)
  let ?p = "advance_ptr (v l) k (ptrs l)"
  have adv: "\<forall>i < ?p. i < length (v l) \<and> ukey (largest (v l ! i)) < k" "?p < length (v l) \<longrightarrow> k \<le> ukey (largest (v l ! ?p))"
    using advance_ptr_stops [of "ptrs l" "v l" k] 2(3) unfolding ptrs_ok_def by blast+
  have ok: "ptrs_ok v k (ptrs(l := ?p))" using adv(1) 2(3) unfolding ptrs_ok_def by simp
  have "\<forall>f \<in> set (v l). file_ok s f" "disjoint_files (v l)"
    using version_inv_ok [OF 2(2)] version_inv_disjoint [OF 2(2)] 2(4) by auto
  note F = file_after [OF this(2,1) adv]
  have B: "base_level v (l # lvls) k \<longleftrightarrow> \<not> (?p < length (v l) \<and> ukey (smallest (v l ! ?p)) \<le> k) \<and> base_level v lvls k"
    using F unfolding base_level_def by auto
  show ?case
  proof (cases "?p < length (v l) \<and> ukey (smallest (v l ! ?p)) \<le> k")
    case True
    then show ?thesis using B ok by (simp add: Let_def del: fun_upd_apply)
  next
    case False
    have "\<forall>l \<in> set lvls. 0 < l" using 2(4) by simp
    note IH = 2(1) [OF refl refl False 2(2) ok this]
    have "IsBaseLevelForKey v k (l # lvls) ptrs = IsBaseLevelForKey v k lvls (ptrs(l := ?p))"
      using False by (simp only: IsBaseLevelForKey.simps Let_def if_False)
    then show ?thesis using IH B False by (simp only: simp_thms)
  qed
qed

text \<open>
  The entries that survive when no snapshot is held: the newest one of each key, unless it is
  a deletion marker with nothing below it.
\<close>

fun keep_first :: "(string \<Rightarrow> bool) \<Rightarrow> string option \<Rightarrow> entry list \<Rightarrow> entry list" where
  "keep_first base cur [] = []"
| "keep_first base cur (e # es) =
     (if cur = Some (ukey e) \<or> (etype e = kTypeDeletion \<and> base (ukey e)) then keep_first base (Some (ukey e)) es
      else e # keep_first base (Some (ukey e)) es)"

definition pending :: "CompactionState \<Rightarrow> entry list" where
  "pending st = concat (map ftable (outputs st)) @ (case builder st of None \<Rightarrow> [] | Some t \<Rightarrow> t)"

definition outs_ok :: "nat \<Rightarrow> (entry list \<Rightarrow> nat) \<Rightarrow> CompactionState \<Rightarrow> bool" where
  "outs_ok n bytes st \<longleftrightarrow>
     (\<forall>f \<in> set (outputs st). f = BuildTable bytes (fnumber f) (ftable f) \<and> ftable f \<noteq> [] \<and> n \<le> fnumber f \<and> fnumber f < cs_next_file st) \<and>
     distinct (map fnumber (outputs st)) \<and> n \<le> cs_next_file st \<and>
     (\<forall>t. builder st = Some t \<longrightarrow> t \<noteq> [] \<and> n \<le> output_number st \<and> output_number st < cs_next_file st \<and>
        output_number st \<notin> fnumber ` set (outputs st))"

lemma Finish_keeps:
  assumes "outs_ok n bytes st"
  shows "pending (FinishCompactionOutputFile bytes st) = pending st" "outs_ok n bytes (FinishCompactionOutputFile bytes st)"
    "builder (FinishCompactionOutputFile bytes st) = None"
  using assms by (auto simp: FinishCompactionOutputFile_def pending_def outs_ok_def BuildTable_def split: option.splits)

lemma Finish_frame [simp]:
  "current_user_key (FinishCompactionOutputFile bytes st) = current_user_key st"
  "last_sequence_for_key (FinishCompactionOutputFile bytes st) = last_sequence_for_key st"
  "level_ptrs (FinishCompactionOutputFile bytes st) = level_ptrs st"
  by (simp_all add: FinishCompactionOutputFile_def split: option.split)

lemma add_entry_keeps:
  assumes "outs_ok n (bg_bytes env) st"
  shows "pending (add_entry env lims e st) = pending st @ [e]" "outs_ok n (bg_bytes env) (add_entry env lims e st)"
proof -
  let ?st1 = "if builder st = None then OpenCompactionOutputFile st else st"
  let ?st2 = "?st1\<lparr>builder := Some ((case builder ?st1 of None \<Rightarrow> [] | Some b \<Rightarrow> b) @ [e])\<rparr>"
  have "pending ?st2 = pending st @ [e]" by (auto simp: pending_def OpenCompactionOutputFile_def)
  moreover have ok: "outs_ok n (bg_bytes env) ?st2"
    using assms by (auto simp: outs_ok_def OpenCompactionOutputFile_def less_Suc_eq)
  ultimately show "pending (add_entry env lims e st) = pending st @ [e]" "outs_ok n (bg_bytes env) (add_entry env lims e st)"
    using Finish_keeps [OF ok] by (simp_all add: add_entry_def Let_def)
qed

lemma add_entry_frame [simp]:
  "current_user_key (add_entry env lims e st) = current_user_key st"
  "last_sequence_for_key (add_entry env lims e st) = last_sequence_for_key st"
  "level_ptrs (add_entry env lims e st) = level_ptrs st"
  by (simp_all add: add_entry_def Let_def OpenCompactionOutputFile_def)

lemma ShouldStopBefore_frame:
  assumes "ShouldStopBefore lims c e st = (stop, st')"
  shows "pending st' = pending st" "outs_ok n bytes st' = outs_ok n bytes st" "current_user_key st' = current_user_key st"
    "last_sequence_for_key st' = last_sequence_for_key st" "level_ptrs st' = level_ptrs st"
  using assms by (auto simp: ShouldStopBefore_def Let_def pending_def outs_ok_def split: prod.splits if_splits)

text \<open>What the loop knows before an entry with user key \<open>k\<close>.\<close>

definition before_key :: "nat \<Rightarrow> Version \<Rightarrow> string \<Rightarrow> CompactionState \<Rightarrow> bool" where
  "before_key snap v k st \<longleftrightarrow> ptrs_ok v k (level_ptrs st) \<and>
     (current_user_key st = None \<or> (\<exists>s \<le> snap. last_sequence_for_key st = Some s))"

lemma ptrs_ok_mono: "ptrs_ok v k ptrs \<Longrightarrow> k \<le> k' \<Longrightarrow> ptrs_ok v k' ptrs"
  unfolding ptrs_ok_def by (meson less_le_trans)

lemma drop_entry_keeps:
  assumes "version_inv s v" "before_key snap v (ukey e) st" "eseq e \<le> snap" "drop_entry snap v level e st = (d, st')"
  shows "d \<longleftrightarrow> current_user_key st = Some (ukey e) \<or> (etype e = kTypeDeletion \<and> base_level v [level + 2..<kNumLevels] (ukey e))"
    and "before_key snap v (ukey e) st'" and "current_user_key st' = Some (ukey e)"
    and "pending st' = pending st" "outs_ok n bytes st' = outs_ok n bytes st"
proof -
  obtain base ptrs where B: "IsBaseLevelForKey v (ukey e) [level + 2..<kNumLevels] (level_ptrs st) = (base, ptrs)" by fastforce
  have P: "ptrs_ok v (ukey e) (level_ptrs st)" using assms(2) by (simp add: before_key_def)
  have I: "base = base_level v [level + 2..<kNumLevels] (ukey e)" "ptrs_ok v (ukey e) ptrs"
    using IsBaseLevelForKey_exact [OF assms(1) P, of "[level + 2..<kNumLevels]"] B by auto
  have L: "current_user_key st = Some (ukey e) \<Longrightarrow> \<exists>s \<le> snap. last_sequence_for_key st = Some s"
    using assms(2) by (auto simp: before_key_def)
  show "d \<longleftrightarrow> current_user_key st = Some (ukey e) \<or> (etype e = kTypeDeletion \<and> base_level v [level + 2..<kNumLevels] (ukey e))"
    using assms(3,4) L I(1) B by (auto simp: drop_entry_def Let_def split: if_splits)
  show "before_key snap v (ukey e) st'" "current_user_key st' = Some (ukey e)" "pending st' = pending st"
    "outs_ok n bytes st' = outs_ok n bytes st"
    using assms(3,4) I(2) P B by (auto simp: drop_entry_def Let_def before_key_def pending_def outs_ok_def split: if_splits option.splits)
qed

lemma compaction_loop_keeps:
  assumes "version_inv s v" "table_sorted es" "\<forall>e \<in> set es. eseq e \<le> snap" "\<forall>e \<in> set es. before_key snap v (ukey e) st"
    and "outs_ok n (bg_bytes env) st"
  shows "concat (map ftable (outputs (compaction_loop env lims snap v c es st))) =
      pending st @ keep_first (base_level v [clevel c + 2..<kNumLevels]) (current_user_key st) es \<and>
    outs_ok n (bg_bytes env) (compaction_loop env lims snap v c es st)"
  using assms(2-5)
proof (induction es arbitrary: st)
  case Nil
  show ?case using Finish_keeps [OF Nil(4)] by (simp add: pending_def)
next
  case (Cons e es)
  let ?base = "base_level v [clevel c + 2..<kNumLevels]"
  obtain stop st1 where S: "ShouldStopBefore lims c e st = (stop, st1)" by fastforce
  define st2 where "st2 = (if stop \<and> builder st1 \<noteq> None then FinishCompactionOutputFile (bg_bytes env) st1 else st1)"
  note F = ShouldStopBefore_frame [OF S]
  have st1: "outs_ok n (bg_bytes env) st1" using F(2) Cons.prems(4) by simp
  have st2: "pending st2 = pending st" "outs_ok n (bg_bytes env) st2" "current_user_key st2 = current_user_key st"
    "before_key snap v (ukey e) st2"
    using Finish_keeps [OF st1] st1 F Cons.prems(3) by (simp_all add: st2_def before_key_def)
  obtain d st3 where D: "drop_entry snap v (clevel c) e st2 = (d, st3)" by fastforce
  have le: "eseq e \<le> snap" using Cons.prems(2) by simp
  note E = drop_entry_keeps [OF assms(1) st2(4) le D]
  define st4 where "st4 = (if d then st3 else add_entry env lims e st3)"
  have st3: "outs_ok n (bg_bytes env) st3" using E(5) st2(2) by simp
  have st4: "pending st4 = pending st @ (if d then [] else [e])" "outs_ok n (bg_bytes env) st4" "current_user_key st4 = Some (ukey e)"
    using add_entry_keeps [OF st3] st3 E(3,4) st2(1) by (simp_all add: st4_def)
  have b: "before_key snap v (ukey e) st4" using E(2) by (simp add: st4_def before_key_def)
  have "\<forall>x \<in> set es. before_key snap v (ukey x) st4"
    using b Cons.prems(1) ptrs_ok_mono eless_le unfolding before_key_def by (metis table_sorted_simps(2))
  then have "concat (map ftable (outputs (compaction_loop env lims snap v c es st4))) =
      pending st4 @ keep_first ?base (current_user_key st4) es \<and> outs_ok n (bg_bytes env) (compaction_loop env lims snap v c es st4)"
    using Cons.IH [of st4] Cons.prems(1,2) st4(2) by simp
  moreover have "compaction_loop env lims snap v c (e # es) st = compaction_loop env lims snap v c es st4"
    using S D by (simp add: Let_def st2_def st4_def)
  ultimately show ?case using st4 E(1) st2(3) by simp
qed

lemma keep_first_subset: "set (keep_first base cur es) \<subseteq> set es"
  by (induction base cur es rule: keep_first.induct) auto

lemma keep_first_find:
  assumes "table_sorted es" "\<forall>j. cur = Some j \<longrightarrow> (\<forall>x \<in> set es. j \<le> ukey x)"
  shows "table_find k (keep_first base cur es) =
    (if cur = Some k then None
     else (case table_find k es of None \<Rightarrow> None | Some e \<Rightarrow> if etype e = kTypeDeletion \<and> base k then None else Some e))"
  using assms
proof (induction base cur es rule: keep_first.induct)
  case (2 base cur e es)
  have le: "ukey e \<le> ukey x" if "x \<in> set es" for x using that 2(3) eless_le by auto
  have IH: "table_find k (keep_first base (Some (ukey e)) es) =
      (if ukey e = k then None
       else (case table_find k es of None \<Rightarrow> None | Some e \<Rightarrow> if etype e = kTypeDeletion \<and> base k then None else Some e))"
    using 2(1,2) 2(3) le by (cases "cur = Some (ukey e) \<or> (etype e = kTypeDeletion \<and> base (ukey e))") simp_all
  have gone: "table_find k es = None" if "cur = Some k" "ukey e \<noteq> k"
  proof -
    have "k \<le> ukey e" using 2(4) that(1) by simp
    then have "k < ukey e" using that(2) by simp
    then show ?thesis using le unfolding table_find_None has_key_def by (metis leD)
  qed
  show ?case using IH gone by (auto split: option.splits)
qed simp

lemma keep_first_strict:
  assumes "table_sorted es"
  shows "sorted_wrt (\<lambda>x y. ukey x < ukey y) (keep_first base cur es)"
  using assms
proof (induction base cur es rule: keep_first.induct)
  case (2 base cur e es)
  have le: "ukey e \<le> ukey x" if "x \<in> set es" for x using that 2(3) eless_le by auto
  have "table_find (ukey e) (keep_first base (Some (ukey e)) es) = None" using keep_first_find [of es "Some (ukey e)" "ukey e" base] 2(3) le by simp
  then have ne: "ukey x \<noteq> ukey e" if "x \<in> set (keep_first base (Some (ukey e)) es)" for x
    using that unfolding table_find_None has_key_def by blast
  have "ukey e < ukey x" if "x \<in> set (keep_first base (Some (ukey e)) es)" for x
    using ne [OF that] le keep_first_subset that by (metis order_le_imp_less_or_eq subsetD)
  then show ?case using 2 by auto
qed simp

lemma strict_table_sorted: "sorted_wrt (\<lambda>x y. ukey x < ukey y) t \<Longrightarrow> table_sorted t"
  by (induction t) (auto simp: eless_def)

text \<open>Cutting a strictly sorted table into files.\<close>

lemma outputs_disjoint:
  assumes "sorted_wrt (\<lambda>x y. ukey x < ukey y) (concat (map ftable fs))"
    and "\<forall>f \<in> set fs. f = BuildTable bytes (fnumber f) (ftable f) \<and> ftable f \<noteq> []" "\<forall>e \<in> set (concat (map ftable fs)). eseq e \<le> s"
  shows "disjoint_files fs \<and> (\<forall>f \<in> set fs. file_ok s f)"
  using assms
proof (induction fs)
  case (Cons f fs)
  have f: "smallest f = hd (ftable f)" "largest f = last (ftable f)" "ftable f \<noteq> []"
    using Cons.prems(2) by (auto simp: BuildTable_def dest: arg_cong [of _ _ smallest] arg_cong [of _ _ largest])
  have srt: "sorted_wrt (\<lambda>x y. ukey x < ukey y) (ftable f)" "\<forall>x \<in> tset f. \<forall>g \<in> set fs. \<forall>y \<in> tset g. ukey x < ukey y"
    using Cons.prems(1) by (auto simp: sorted_wrt_append)
  have IH: "disjoint_files fs \<and> (\<forall>f \<in> set fs. file_ok s f)" using Cons by (simp add: sorted_wrt_append)
  have "before_file f g" if "g \<in> set fs" for g
  proof -
    have "smallest g = hd (ftable g)" "ftable g \<noteq> []" using IH that by (auto simp: file_ok_def)
    then show ?thesis using srt(2) f that by (simp add: before_file_def)
  qed
  moreover have "file_ok s f" using f strict_table_sorted [OF srt(1)] Cons.prems(3) by (simp add: file_ok_def)
  ultimately show ?case using IH by simp
qed simp

end
