(* ===== verification/CompactProps.thy ===== *)
theory CompactProps
  imports Compact "HOL-Library.Code_Target_Nat"
begin

text \<open>
  What a client of LevelDB can observe of the background thread: nothing, as long as no
  tables are merged while a snapshot is held; and what happens otherwise.
\<close>

section \<open>A compaction cannot be observed\<close>

lemma sees_newer:
  assumes "newer a b"
  shows "sees (a \<union> b) k r \<longleftrightarrow> (if has_key a k then sees a k r else sees b k r)"
proof (cases "has_key a k")
  case True
  have "is_latest a k e" if e: "is_latest (a \<union> b) k e" for e
  proof -
    obtain x where x: "x \<in> a" "ukey x = k" using True by (auto simp: has_key_def)
    have "e \<in> a" using e x assms unfolding is_latest_def newer_def by (metis UnE UnI1 less_asym')
    then show ?thesis using e by (auto simp: is_latest_def)
  qed
  then have "sees (a \<union> b) k r \<Longrightarrow> sees a k r" using True unfolding sees_def by (metis has_key_simps(3))
  then show ?thesis using True sees_newer_Some [OF assms True] by auto
next
  case False
  then show ?thesis using sees_skip by simp
qed

text \<open>
  The entries above, beside and below the inputs \<open>I\<close>; replacing the inputs by what is kept of
  them changes nothing.
\<close>

lemma sees_replace:
  assumes "newer U (N \<union> (set es \<union> W))" "newer N (set es \<union> W)" "newer (set es) W" "table_sorted es"
    and "keep = keep_first base None es" "\<forall>k. base k \<longrightarrow> \<not> has_key W k"
    and "sees (U \<union> (N \<union> (set es \<union> W))) k r"
  shows "sees (U \<union> (N \<union> (set keep \<union> W))) k r"
proof -
  have sub: "set keep \<subseteq> set es" using keep_first_subset assms(5) by blast
  have nw: "newer U (N \<union> (set keep \<union> W))" "newer N (set keep \<union> W)" "newer (set keep) W"
    using assms(1-3) newer_mono [OF _ _ sub, of _ U] newer_mono [OF _ _ sub, of _ N] newer_mono [OF assms(3) sub] by auto
  have srt: "table_sorted keep" using strict_table_sorted [OF keep_first_strict [OF assms(4)]] assms(5) by simp
  have F: "table_find k keep = (case table_find k es of None \<Rightarrow> None | Some e \<Rightarrow> if etype e = kTypeDeletion \<and> base k then None else Some e)"
    using keep_first_find [OF assms(4), of None k base] assms(5) by simp
  have es: "sees (set es) k (Option.bind (table_find k es) entry_result)" "has_key (set es) k \<longleftrightarrow> table_find k es \<noteq> None"
    using table_find_sees [OF assms(4)] table_find_None [of k es] by auto
  have kp: "sees (set keep) k (Option.bind (table_find k keep) entry_result)" "has_key (set keep) k \<longleftrightarrow> table_find k keep \<noteq> None"
    using table_find_sees [OF srt] table_find_None [of k keep] by auto
  have "sees (set keep \<union> W) k r" if low: "sees (set es \<union> W) k r"
  proof (cases "table_find k es")
    case None
    then show ?thesis using low es(2) kp(2) F sees_skip by simp
  next
    case (Some e)
    then have r: "r = entry_result e" using low es sees_newer [OF assms(3), of k r] sees_unique [of "set es" k] by simp
    show ?thesis
    proof (cases "etype e = kTypeDeletion \<and> base k")
      case True
      then have "r = None" using r by (cases e) auto
      then show ?thesis using True Some F kp(2) assms(6) by (simp add: sees_def)
    next
      case False
      then have "table_find k keep = Some e" using Some F by auto
      then show ?thesis using kp r sees_newer [OF nw(3), of k r] by simp
    qed
  qed
  then show ?thesis using assms(7) sees_newer [OF assms(1), of k r] sees_newer [OF assms(2), of k r]
      sees_newer [OF nw(1), of k r] sees_newer [OF nw(2), of k r] by (simp split: if_splits)
qed

abbreviation files_set :: "FileMetaData set \<Rightarrow> entry set" where
  "files_set F \<equiv> \<Union> (tset ` F)"

lemma files_set_concat: "files_set (set fs) = set (concat (map ftable fs))"
  by simp

lemma MakeInputIterator_ok:
  assumes "version_inv s v" "inputs_ok v c"
  shows "table_sorted (MakeInputIterator c)" and "set (MakeInputIterator c) = files_set (set (inputs0 c) \<union> set (inputs1 c))"
proof -
  let ?L = "clevel c"
  let ?cs = "(if inputs0 c = [] then [] else if ?L = 0 then map ftable (inputs0 c) else [concat (map ftable (inputs0 c))]) @
        (if inputs1 c = [] then [] else [concat (map ftable (inputs1 c))])"
  have i0: "set (inputs0 c) \<subseteq> set (v ?L)" "distinct (inputs0 c)" "0 < ?L \<longrightarrow> disjoint_files (inputs0 c)"
    using assms(2) by (auto simp: inputs_ok_def closed_in_def)
  have i1: "set (inputs1 c) \<subseteq> set (v (?L + 1))" "disjoint_files (inputs1 c)"
    using assms(2) version_inv_disjoint [OF assms(1), of "?L + 1"] by (auto simp: inputs_ok_def covers_def sorted_wrt_filter)
  have ok: "\<forall>f \<in> set (inputs0 c). file_ok s f" "\<forall>f \<in> set (inputs1 c). file_ok s f"
    using version_inv_ok [OF assms(1)] i0(1) i1(1) by blast+
  have s1: "table_sorted (concat (map ftable (inputs1 c)))" "0 < ?L \<longrightarrow> table_sorted (concat (map ftable (inputs0 c)))"
    using concat_tables_sorted ok i0(3) i1(2) by auto
  have sub: "files_set (set (inputs0 c)) \<subseteq> level_set v ?L" "files_set (set (inputs1 c)) \<subseteq> level_set v (?L + 1)"
    using i0(1) i1(1) by (auto simp: level_set_def)
  have ap: "apart (files_set (set (inputs0 c))) (files_set (set (inputs1 c)))"
    using newer_apart [OF newer_mono [OF version_inv_newer [OF assms(1), of ?L "?L + 1"] sub]] by simp
  have z: "sorted_wrt (\<lambda>f g. apart (tset f) (tset g)) (inputs0 c)" if "?L = 0"
    using level0_apart [OF assms(1)] i0(1,2) that by (intro distinct_sorted_wrt) auto
  have "apart (tset f) (files_set (set (inputs1 c)))" if "f \<in> set (inputs0 c)" for f
    by (rule apart_subset [OF ap]) (use that in auto)
  then have "children_ok ?cs"
    using z s1 ok ap by (auto simp: children_ok_def sorted_wrt_append sorted_wrt_map file_ok_def)
  from MergingIterator_sorted [OF this]
  show "table_sorted (MakeInputIterator c)" "set (MakeInputIterator c) = files_set (set (inputs0 c) \<union> set (inputs1 c))"
    unfolding MakeInputIterator_def by (auto split: if_splits)
qed

abbreviation input_files :: "Compaction \<Rightarrow> FileMetaData set" where
  "input_files c \<equiv> set (inputs0 c) \<union> set (inputs1 c)"

text \<open>A file of the output level that is not an input lies on one side of all inputs.\<close>

lemma kept_beside:
  assumes "version_inv s v" "inputs_ok v c" "g \<in> set (v (clevel c + 1))" "g \<notin> set (inputs1 c)"
  shows "(\<forall>x \<in> files_set (input_files c). ukey (largest g) < ukey x) \<or> (\<forall>x \<in> files_set (input_files c). ukey x < ukey (smallest g))"
proof -
  let ?fs = "v (clevel c + 1)"
  obtain lo hi where r: "\<forall>f \<in> set (inputs0 c). lo \<le> ukey (smallest f) \<and> ukey (largest f) \<le> hi" "inputs1 c = filter (\<lambda>g. \<not> outside lo hi g) ?fs"
    using assms(2) by (auto simp: inputs_ok_def covers_def)
  have g: "outside lo hi g" "file_ok s g" using r(2) assms(3,4) version_inv_ok [OF assms(1)] by auto
  have sub: "set (inputs0 c) \<subseteq> set (v (clevel c))" using assms(2) by (simp add: inputs_ok_def closed_in_def)
  have i0: "lo \<le> ukey x \<and> ukey x \<le> hi" if "x \<in> tset f" "f \<in> set (inputs0 c)" for x f
    using file_ok_range [OF version_inv_ok [OF assms(1)], of f "clevel c" x] that sub r(1) by (meson order_trans subsetD)
  have i1: "before_file g h \<or> before_file h g" "\<not> outside lo hi h" "file_ok s h" if "h \<in> set (inputs1 c)" for h
  proof -
    have h: "h \<in> set ?fs" "h \<noteq> g" "\<not> outside lo hi h" using that r(2) g(1) by auto
    then show "before_file g h \<or> before_file h g" "\<not> outside lo hi h" "file_ok s h"
      using disjoint_cmp [OF version_inv_disjoint [OF assms(1), of "clevel c + 1"] assms(3) h(1)] version_inv_ok [OF assms(1) h(1)] by auto
  qed
  note gb = file_ok_bounds [OF g(2)]
  from g(1) consider "ukey (largest g) < lo" | "hi < ukey (smallest g)" by (auto simp: outside_def)
  then show ?thesis
  proof cases
    case 1
    have "before_file g h" if h: "h \<in> set (inputs1 c)" for h
    proof -
      have "ukey (largest h) < lo" if "before_file h g"
        using that less_trans [OF less_le_trans [OF _ gb] 1] unfolding before_file_def by blast
      then show ?thesis using i1(1,2) [OF h] unfolding outside_def by blast
    qed
    then have "ukey (largest g) < ukey x" if "x \<in> tset h" "h \<in> set (inputs1 c)" for x h
      using file_ok_range(1) [OF i1(3) that(1)] that(2) unfolding before_file_def by (meson less_le_trans)
    moreover have "ukey (largest g) < ukey x" if "x \<in> tset h" "h \<in> set (inputs0 c)" for x h
      using less_le_trans [OF 1] i0 [OF that] by blast
    ultimately show ?thesis by blast
  next
    case 2
    have "before_file h g" if h: "h \<in> set (inputs1 c)" for h
    proof -
      have "hi < ukey (smallest h)" if "before_file g h"
        using that less_trans [OF less_le_trans [OF 2 gb]] unfolding before_file_def by blast
      then show ?thesis using i1(1,2) [OF h] unfolding outside_def by blast
    qed
    then have "ukey x < ukey (smallest g)" if "x \<in> tset h" "h \<in> set (inputs1 c)" for x h
      using file_ok_range(2) [OF i1(3) that(1)] that(2) unfolding before_file_def by (meson le_less_trans)
    moreover have "ukey x < ukey (smallest g)" if "x \<in> tset h" "h \<in> set (inputs0 c)" for x h
      using le_less_trans [OF _ 2] i0 [OF that] by blast
    ultimately show ?thesis by blast
  qed
qed

text \<open>The edit that replaces the inputs by the files \<open>A\<close>.\<close>

definition replace_edit :: "Compaction \<Rightarrow> FileMetaData list \<Rightarrow> VersionEdit" where
  "replace_edit c A = \<lparr>deleted_files = input_deletions c, new_files = map (Pair (clevel c + 1)) A\<rparr>"

definition replacement :: "nat \<Rightarrow> Version \<Rightarrow> Compaction \<Rightarrow> FileMetaData list \<Rightarrow> bool" where
  "replacement s v c A \<longleftrightarrow> (\<forall>f \<in> set A. file_ok s f) \<and> disjoint_files A \<and> distinct (map fnumber A) \<and>
     files_set (set A) \<subseteq> files_set (input_files c) \<and> (\<forall>a \<in> set A. \<forall>f \<in> set (v (clevel c + 1)). fnumber a \<noteq> fnumber f) \<and>
     (\<forall>a \<in> set A. \<forall>l. \<forall>f \<in> set (v l). fnumber a = fnumber f \<longrightarrow> l = clevel c \<and> f \<in> set (inputs0 c))"

definition inputs_at :: "Compaction \<Rightarrow> nat \<Rightarrow> FileMetaData set" where
  "inputs_at c l = (if l = clevel c then set (inputs0 c) else if l = clevel c + 1 then set (inputs1 c) else {})"

lemma inputs_at_subset: "inputs_ok v c \<Longrightarrow> inputs_at c l \<subseteq> set (v l)"
  by (auto simp: inputs_at_def inputs_ok_def closed_in_def covers_def)

lemma kept_replace:
  assumes "version_inv s v" "inputs_ok v c" "replacement s v c A"
  shows "kept (replace_edit c A) v l = set (v l) - inputs_at c l"
proof -
  have num: "fnumber f = fnumber g \<Longrightarrow> f \<in> set (v l) \<Longrightarrow> g \<in> set (v l) \<Longrightarrow> f = g" for f g
    using assms(1) unfolding version_inv_def by blast
  have del: "(l, fnumber f) \<in> set (input_deletions c) \<longleftrightarrow> f \<in> inputs_at c l" if "f \<in> set (v l)" for f
  proof -
    have "(l, fnumber f) \<in> set (input_deletions c) \<longleftrightarrow> (\<exists>g \<in> inputs_at c l. fnumber f = fnumber g)"
      by (auto simp: input_deletions_def inputs_at_def)
    then show ?thesis using num [OF _ that] inputs_at_subset [OF assms(2), of l] by blast
  qed
  have new: "fnumber f \<notin> (fnumber \<circ> snd) ` set (filter (\<lambda>(m, g). m = l) (new_files (replace_edit c A)))" if "f \<in> set (v l)" for f
  proof
    assume "fnumber f \<in> (fnumber \<circ> snd) ` set (filter (\<lambda>(m, g). m = l) (new_files (replace_edit c A)))"
    then obtain a where "a \<in> set A" "l = clevel c + 1" "fnumber a = fnumber f" by (auto simp: replace_edit_def)
    then show False using assms(3) that unfolding replacement_def by blast
  qed
  show ?thesis using del new by (auto simp: kept_def is_deleted_def replace_edit_def)
qed

lemma file_ok_ends: "file_ok s f \<Longrightarrow> smallest f \<in> tset f \<and> largest f \<in> tset f"
  by (simp add: file_ok_def)

text \<open>The files that stay above the output level are newer than the inputs where they share a key.\<close>

lemma kept_above:
  assumes "version_inv s v" "inputs_ok v c" "g \<in> set (v l)" "g \<notin> inputs_at c l" "l \<le> clevel c" "f \<in> input_files c"
  shows "newer (tset g) (tset f)"
proof -
  have nw: "newer (tset g) (tset f)" if "f \<in> set (v m)" "l < m" for m
    using newer_mono [OF version_inv_newer [OF assms(1) that(2)], of "tset g" "tset f"] that(1) assms(3) by (auto simp: level_set_def)
  consider "f \<in> set (inputs1 c)" | "f \<in> set (inputs0 c)" "l < clevel c" | "f \<in> set (inputs0 c)" "l = clevel c"
    using assms(5,6) by fastforce
  then show ?thesis
  proof cases
    case 1
    then show ?thesis using nw [of "clevel c + 1"] inputs_at_subset [OF assms(2), of "clevel c + 1"] assms(5) by (auto simp: inputs_at_def)
  next
    case 2
    then show ?thesis using nw [of "clevel c"] inputs_at_subset [OF assms(2), of "clevel c"] by (auto simp: inputs_at_def)
  next
    case 3
    then have "no_shared (tset f) (tset g)" using assms(2-4) by (auto simp: inputs_ok_def closed_in_def inputs_at_def)
    then show ?thesis by (fastforce simp: newer_def no_shared_def)
  qed
qed

lemma beside_no_shared:
  assumes "version_inv s v" "inputs_ok v c"
  shows "no_shared (files_set (set (v (clevel c + 1)) - set (inputs1 c))) (files_set (input_files c))"
proof -
  have "ukey x \<noteq> ukey y" if "g \<in> set (v (clevel c + 1))" "g \<notin> set (inputs1 c)" "x \<in> tset g" "y \<in> files_set (input_files c)" for g x y
    using kept_beside [OF assms that(1,2)] that(4) file_ok_range [OF version_inv_ok [OF assms(1) that(1)] that(3)]
    by (auto dest!: bspec)
  then show ?thesis unfolding no_shared_def by blast
qed

lemma replace_edit_ok:
  assumes "version_inv s v" "inputs_ok v c" "replacement s v c A"
  shows "edit_ok s (replace_edit c A) v (clevel c + 1) A"
proof -
  let ?L = "clevel c"
  note K = kept_replace [OF assms]
  have A: "\<forall>f \<in> set A. file_ok s f" "disjoint_files A" "distinct (map fnumber A)" "files_set (set A) \<subseteq> files_set (input_files c)"
    "\<forall>a \<in> set A. \<forall>f \<in> set (v (?L + 1)). fnumber a \<noteq> fnumber f"
    "\<forall>a \<in> set A. \<forall>l. \<forall>f \<in> set (v l). fnumber a = fnumber f \<longrightarrow> l = ?L \<and> f \<in> set (inputs0 c)"
    using assms(3) by (auto simp: replacement_def)
  have L: "?L + 1 < kNumLevels" using assms(2) by (simp add: inputs_ok_def)
  have num: "fnumber a \<noteq> fnumber g" if "a \<in> set A" "g \<in> kept (replace_edit c A) v l" for a g l
  proof
    assume eq: "fnumber a = fnumber g"
    have "g \<in> set (v l)" "g \<notin> inputs_at c l" using that(2) K [of l] by simp_all
    then show False using A(6) that(1) eq by (auto simp: inputs_at_def)
  qed
  have cmp: "before_file a g \<or> before_file g a" if a: "a \<in> set A" and g: "g \<in> kept (replace_edit c A) v (?L + 1)" for a g
  proof -
    have "smallest a \<in> tset a" "largest a \<in> tset a" using file_ok_ends A(1) a by blast+
    then have "smallest a \<in> files_set (input_files c)" "largest a \<in> files_set (input_files c)" using A(4) a by (meson UN_I subsetD)+
    moreover have "g \<in> set (v (?L + 1))" "g \<notin> set (inputs1 c)" using g K [of "?L + 1"] by (simp_all add: inputs_at_def)
    ultimately show ?thesis using kept_beside [OF assms(1,2), of g] unfolding before_file_def by blast
  qed
  have lev: "files_set (set (inputs0 c)) \<subseteq> level_set v ?L" "files_set (set (inputs1 c)) \<subseteq> level_set v (?L + 1)"
    using inputs_at_subset [OF assms(2), of ?L] inputs_at_subset [OF assms(2), of "?L + 1"] by (auto simp: inputs_at_def level_set_def)
  have up: "newer (tset g) (tset a)" if a: "a \<in> set A" and g: "g \<in> kept (replace_edit c A) v l" "l < ?L + 1" for a g l
  proof -
    have "newer (tset g) (files_set (input_files c))"
      using kept_above [OF assms(1,2), of g l] g K [of l] by (fastforce simp: newer_def)
    then show ?thesis using newer_mono [OF _ order_refl] A(4) a by (meson UN_upper order_trans)
  qed
  have down: "newer (tset a) (tset g)" if a: "a \<in> set A" and g: "g \<in> kept (replace_edit c A) v l" "?L + 1 < l" for a g l
  proof -
    have gl: "tset g \<subseteq> level_set v l" using g(1) K [of l] by (auto simp: level_set_def)
    have "newer (files_set (set (inputs0 c))) (tset g)" "newer (files_set (set (inputs1 c))) (tset g)"
      using newer_mono [OF version_inv_newer [OF assms(1), of ?L l] lev(1) gl] newer_mono [OF version_inv_newer [OF assms(1), of "?L + 1" l] lev(2) gl] g(2) by auto
    then have "newer (files_set (input_files c)) (tset g)" by (simp add: image_Un Union_Un_distrib)
    then show ?thesis using newer_mono [OF _ _ order_refl] A(4) a by (meson UN_upper order_trans)
  qed
  have new: "new_files (replace_edit c A) = map (Pair (?L + 1)) A" "?L + 1 \<noteq> 0" by (simp_all add: replace_edit_def)
  show ?thesis unfolding edit_ok_def using A(1-3,5) L num cmp up down new by blast
qed

subsection \<open>The entries above, beside and below the inputs\<close>

definition above_files :: "Version \<Rightarrow> Compaction \<Rightarrow> FileMetaData set" where
  "above_files v c = (\<Union>l \<le> clevel c. set (v l) - inputs_at c l)"

definition beside_files :: "Version \<Rightarrow> Compaction \<Rightarrow> FileMetaData set" where
  "beside_files v c = set (v (clevel c + 1)) - set (inputs1 c)"

definition below_files :: "Version \<Rightarrow> Compaction \<Rightarrow> FileMetaData set" where
  "below_files v c = (\<Union>l \<in> {clevel c + 2..<kNumLevels}. set (v l))"

lemma version_split:
  assumes "clevel c + 1 < kNumLevels" "\<forall>l. set (w l) = (set (v l) - inputs_at c l) \<union> B l"
    and "\<forall>l. l \<noteq> clevel c \<longrightarrow> l \<noteq> clevel c + 1 \<longrightarrow> B l = {}"
  shows "version_set w = files_set (above_files v c) \<union> (files_set (beside_files v c) \<union>
    (files_set (B (clevel c) \<union> B (clevel c + 1)) \<union> files_set (below_files v c)))"
proof -
  let ?L = "clevel c"
  have "{..<kNumLevels} = {..?L} \<union> {?L + 1} \<union> {?L + 2..<kNumLevels}" using assms(1) by auto
  then have "(\<Union>l < kNumLevels. set (w l)) = (\<Union>l \<le> ?L. set (w l)) \<union> set (w (?L + 1)) \<union> (\<Union>l \<in> {?L + 2..<kNumLevels}. set (w l))" by auto
  moreover have "(\<Union>l \<le> ?L. set (w l)) = above_files v c \<union> B ?L"
  proof -
    have "l \<le> ?L \<Longrightarrow> B l \<subseteq> B ?L" for l using assms(3) by (cases "l = ?L") auto
    then have "(\<Union>l \<le> ?L. B l) = B ?L" by blast
    then show ?thesis using assms(2) by (simp add: above_files_def UN_Un_distrib)
  qed
  moreover have "set (w (?L + 1)) = beside_files v c \<union> B (?L + 1)" using assms(2) by (simp add: beside_files_def inputs_at_def)
  moreover have "(\<Union>l \<in> {?L + 2..<kNumLevels}. set (w l)) = below_files v c" using assms(2,3) by (simp add: below_files_def inputs_at_def)
  ultimately have "(\<Union>l < kNumLevels. set (w l)) = above_files v c \<union> (beside_files v c \<union> ((B ?L \<union> B (?L + 1)) \<union> below_files v c))" by auto
  moreover have "version_set w = files_set (\<Union>l < kNumLevels. set (w l))" by (auto simp: version_set_def level_set_def)
  ultimately show ?thesis by (simp add: image_Un Union_Un_distrib)
qed

lemma version_split_self:
  assumes "inputs_ok v c"
  shows "version_set v = files_set (above_files v c) \<union> (files_set (beside_files v c) \<union>
    (files_set (input_files c) \<union> files_set (below_files v c)))"
proof -
  have "set (v l) = (set (v l) - inputs_at c l) \<union> inputs_at c l" for l using inputs_at_subset [OF assms] by blast
  then show ?thesis using version_split [of c v v "inputs_at c"] assms by (simp add: inputs_ok_def inputs_at_def)
qed

lemma version_split_replace:
  assumes "version_inv s v" "inputs_ok v c" "replacement s v c A"
  shows "version_set (LogAndApply (replace_edit c A) v) = files_set (above_files v c) \<union> (files_set (beside_files v c) \<union>
    (files_set (set A) \<union> files_set (below_files v c)))"
  using version_split [of c "LogAndApply (replace_edit c A) v" v "\<lambda>l. if l = clevel c + 1 then set A else {}"] assms(2)
    set_LogAndApply [OF replace_edit_ok [OF assms]] kept_replace [OF assms] by (simp add: inputs_ok_def)

lemma split_newer:
  assumes "version_inv s v" "inputs_ok v c"
  shows "newer (files_set (above_files v c)) (files_set (beside_files v c) \<union> (files_set (input_files c) \<union> files_set (below_files v c)))"
    and "newer (files_set (beside_files v c)) (files_set (input_files c) \<union> files_set (below_files v c))"
    and "newer (files_set (input_files c)) (files_set (below_files v c))"
proof -
  let ?L = "clevel c"
  have nw: "newer (tset f) (tset g)" if "f \<in> set (v l)" "g \<in> set (v m)" "l < m" for f g l m
    using newer_mono [OF version_inv_newer [OF assms(1) that(3)], of "tset f" "tset g"] that(1,2) by (auto simp: level_set_def)
  have fs: "newer (files_set F) (files_set G)" if "\<And>f g. f \<in> F \<Longrightarrow> g \<in> G \<Longrightarrow> newer (tset f) (tset g)" for F G
    using that by (fastforce simp: newer_def)
  have i: "set (inputs0 c) \<subseteq> set (v ?L)" "set (inputs1 c) \<subseteq> set (v (?L + 1))"
    using inputs_at_subset [OF assms(2), of ?L] inputs_at_subset [OF assms(2), of "?L + 1"] by (simp_all add: inputs_at_def)
  have "newer (files_set (above_files v c)) (files_set (beside_files v c))"
    by (rule fs) (auto simp: above_files_def beside_files_def intro: nw)
  moreover have "newer (files_set (above_files v c)) (files_set (below_files v c))"
    by (rule fs) (auto simp: above_files_def below_files_def intro: nw)
  moreover have "newer (files_set (above_files v c)) (files_set (input_files c))"
    by (rule fs) (auto simp: above_files_def intro: kept_above [OF assms])
  ultimately show "newer (files_set (above_files v c)) (files_set (beside_files v c) \<union> (files_set (input_files c) \<union> files_set (below_files v c)))" by simp
  show "newer (files_set (input_files c)) (files_set (below_files v c))"
    using i by (intro fs) (auto simp: below_files_def intro: nw)
  moreover have "newer (files_set (beside_files v c)) (files_set (below_files v c))"
    by (rule fs) (auto simp: beside_files_def below_files_def intro: nw)
  ultimately show "newer (files_set (beside_files v c)) (files_set (input_files c) \<union> files_set (below_files v c))"
    using beside_no_shared [OF assms] unfolding beside_files_def by (fastforce simp: newer_def no_shared_def)
qed

lemma replace_sees:
  assumes "version_inv s v" "inputs_ok v c" "replacement s v c A" "newer M (version_set v)"
    and "files_set (set A) = set (keep_first (base_level v [clevel c + 2..<kNumLevels]) None (MakeInputIterator c))"
    and "sees (M \<union> version_set v) k r"
  shows "sees (M \<union> version_set (LogAndApply (replace_edit c A) v)) k r"
proof -
  let ?U = "files_set (above_files v c)" and ?N = "files_set (beside_files v c)" and ?W = "files_set (below_files v c)"
  note it = MakeInputIterator_ok [OF assms(1,2)] and nw = split_newer [OF assms(1,2)] and V = version_split_self [OF assms(2)]
  have base: "\<not> has_key ?W k" if "base_level v [clevel c + 2..<kNumLevels] k" for k
    using that file_ok_has_key [OF version_inv_ok [OF assms(1)]] by (fastforce simp: base_level_def below_files_def)
  have "newer (M \<union> ?U) (?N \<union> (set (MakeInputIterator c) \<union> ?W))" using nw(1) assms(4) V it(2) by simp
  then have "sees ((M \<union> ?U) \<union> (?N \<union> (files_set (set A) \<union> ?W))) k r"
    unfolding assms(5) using nw(2,3) it base assms(6) V by (intro sees_replace [OF _ _ _ it(1) refl]) (simp_all add: Un_assoc)
  then show ?thesis using version_split_replace [OF assms(1-3)] by (simp add: Un_assoc)
qed

text \<open>Installing the edit in the database.\<close>

lemma install_keeps:
  assumes "DB_inv db" "inputs_ok (current db) c" "replacement (last_sequence db) (current db) c A"
    and "next_file_number db \<le> n" "\<forall>a \<in> set A. fnumber a < n"
    and "db' = db\<lparr>compact_pointer := ptr, next_file_number := n, current := LogAndApply (replace_edit c A) (current db)\<rparr>"
  shows "DB_inv db'"
proof -
  let ?v = "current db"
  have inv: "version_inv (last_sequence db) ?v" using assms(1) by (simp add: DB_inv_def)
  note E = replace_edit_ok [OF inv assms(2,3)]
  have sub: "version_set (LogAndApply (replace_edit c A) ?v) \<subseteq> version_set ?v"
    using version_split_replace [OF inv assms(2,3)] version_split_self [OF assms(2)] assms(3) by (auto simp: replacement_def)
  have "numbers_below n (LogAndApply (replace_edit c A) ?v)"
    using set_LogAndApply [OF E] kept_replace [OF inv assms(2,3)] assms(1,4,5)
    by (fastforce simp: numbers_below_def DB_inv_def split: if_splits)
  then show ?thesis using LogAndApply_inv [OF inv E] assms(1,6) later_mono [OF _ order_refl sub] by (simp add: DB_inv_def imm_set_def)
qed

lemma outputs_replacement:
  assumes "DB_inv db" "inputs_ok (current db) c" "outs_ok (next_file_number db) bytes st"
    and "concat (map ftable (outputs st)) = keep_first base None (MakeInputIterator c)"
  shows "replacement (last_sequence db) (current db) c (outputs st)"
proof -
  let ?v = "current db"
  have inv: "version_inv (last_sequence db) ?v" "numbers_below (next_file_number db) ?v" using assms(1) by (simp_all add: DB_inv_def)
  note it = MakeInputIterator_ok [OF inv(1) assms(2)]
  have set_out: "files_set (set (outputs st)) = set (keep_first base None (MakeInputIterator c))" unfolding files_set_concat assms(4) ..
  then have sub: "files_set (set (outputs st)) \<subseteq> files_set (input_files c)"
    using keep_first_subset [of base None "MakeInputIterator c"] unfolding it(2) by (simp only:)
  have "files_set (input_files c) \<subseteq> version_set ?v" using version_split_self [OF assms(2)] by blast
  then have le: "\<forall>e \<in> set (concat (map ftable (outputs st))). eseq e \<le> last_sequence db"
    unfolding files_set_concat [symmetric] using sub version_set_seq [OF inv(1)] by blast
  have o: "\<forall>f \<in> set (outputs st). f = BuildTable bytes (fnumber f) (ftable f) \<and> ftable f \<noteq> []" "distinct (map fnumber (outputs st))"
    "\<forall>f \<in> set (outputs st). next_file_number db \<le> fnumber f" using assms(3) by (auto simp: outs_ok_def)
  have "\<forall>a \<in> set (outputs st). \<forall>l. \<forall>f \<in> set (?v l). fnumber a \<noteq> fnumber f" using inv(2) o(3) by (fastforce simp: numbers_below_def)
  then show ?thesis unfolding replacement_def
    using outputs_disjoint [OF _ o(1) le] keep_first_strict [OF it(1), of base None] assms(4) o(2) sub by simp
qed

lemma move_replacement:
  assumes "version_inv s v" "inputs_ok v c" "inputs0 c = [f]" "inputs1 c = []"
  shows "replacement s v c [f]" and "version_set (LogAndApply (replace_edit c [f]) v) = version_set v"
proof -
  have f: "f \<in> set (v (clevel c))" using assms(2,3) by (simp add: inputs_ok_def closed_in_def)
  have num: "fnumber f = fnumber g \<Longrightarrow> g \<in> set (v l) \<Longrightarrow> l = clevel c \<and> g = f" for g l
    using assms(1) f unfolding version_inv_def by metis
  show R: "replacement s v c [f]"
    unfolding replacement_def using version_inv_ok [OF assms(1) f] num assms(3,4) by fastforce
  show "version_set (LogAndApply (replace_edit c [f]) v) = version_set v"
    using version_split_replace [OF assms(1,2) R] version_split_self [OF assms(2)] assms(3,4) by simp
qed

text \<open>The work of a compaction that merges.\<close>

lemma DoCompactionWork_keeps:
  assumes "DB_inv db" "inputs_ok (current db) c" "snapshots db = []"
    and "sees (db_set db) k r"
  shows "DB_inv (DoCompactionWork e c db)" and "sees (db_set (DoCompactionWork e c db)) k r"
proof -
  let ?v = "current db" and ?s = "last_sequence db"
  define st where "st = compaction_loop e (limits db) ?s ?v c (MakeInputIterator c) (CompactionState_new (next_file_number db))"
  have inv: "version_inv ?s ?v" using assms(1) by (simp add: DB_inv_def)
  note it = MakeInputIterator_ok [OF inv assms(2)]
  have le: "\<forall>x \<in> set (MakeInputIterator c). eseq x \<le> ?s"
    using it(2) version_split_self [OF assms(2)] version_set_seq [OF inv] by blast
  have new: "\<forall>x \<in> set (MakeInputIterator c). before_key ?s ?v (ukey x) (CompactionState_new (next_file_number db))"
    "outs_ok (next_file_number db) (bg_bytes e) (CompactionState_new (next_file_number db))"
    "pending (CompactionState_new (next_file_number db)) = []" "current_user_key (CompactionState_new (next_file_number db)) = None"
    by (simp_all add: before_key_def CompactionState_new_def ptrs_ok_def outs_ok_def pending_def)
  let ?base = "base_level ?v [clevel c + 2..<kNumLevels]"
  have K: "concat (map ftable (outputs st)) = keep_first ?base None (MakeInputIterator c)" "outs_ok (next_file_number db) (bg_bytes e) st"
    using compaction_loop_keeps [OF inv it(1) le new(1,2), of "limits db" c] new(3,4) by (simp_all add: st_def)
  note R = outputs_replacement [OF assms(1,2) K(2,1)]
  have n: "next_file_number db \<le> cs_next_file st" "\<forall>a \<in> set (outputs st). fnumber a < cs_next_file st" using K(2) by (auto simp: outs_ok_def)
  have D: "DoCompactionWork e c db = (if \<not> bg_ok e then db\<lparr>next_file_number := cs_next_file st\<rparr>
      else db\<lparr>next_file_number := cs_next_file st, current := LogAndApply (replace_edit c (outputs st)) ?v\<rparr>)"
    using assms(3) by (simp add: DoCompactionWork_def InstallCompactionResults_def Let_def st_def replace_edit_def)
  have "numbers_below (cs_next_file st) ?v" using assms(1) n(1) by (fastforce simp: DB_inv_def numbers_below_def)
  then show "DB_inv (DoCompactionWork e c db)"
    using install_keeps [OF assms(1,2) R n refl, of "compact_pointer db"] assms(1) by (simp add: D DB_inv_def imm_set_def)
  have "files_set (set (outputs st)) = set (keep_first ?base None (MakeInputIterator c))" unfolding files_set_concat K(1) ..
  moreover have "newer (set (db_mem db) \<union> imm_set db) (version_set ?v)" using assms(1) later_newer by (auto simp: DB_inv_def)
  ultimately have "sees ((set (db_mem db) \<union> imm_set db) \<union> version_set (LogAndApply (replace_edit c (outputs st)) ?v)) k r"
    using assms(4) by (intro replace_sees [OF inv assms(2) R]) (simp_all add: db_set_def Un_assoc)
  then show "sees (db_set (DoCompactionWork e c db)) k r" using assms(4) by (simp add: D db_set_def imm_set_def Un_assoc)
qed

lemma BackgroundCompaction_keeps:
  assumes "DB_inv db" "db_imm db \<noteq> None \<or> snapshots db = []" "pick_ok (bg_pick e) db" "sees (db_set db) k r"
  shows "DB_inv (BackgroundCompaction e db)" and "sees (db_set (BackgroundCompaction e db)) k r"
proof -
  consider "db_imm db \<noteq> None" | "db_imm db = None" "PickCompaction (bg_pick e) db = None"
    | c limit where "db_imm db = None" "PickCompaction (bg_pick e) db = Some (c, limit)" by fastforce
  then have "DB_inv (BackgroundCompaction e db) \<and> sees (db_set (BackgroundCompaction e db)) k r"
  proof cases
    case 1
    have "DB_inv (db\<lparr>next_file_number := next_file_number db + 1\<rparr>)"
      using assms(1) by (simp add: DB_inv_def imm_set_def numbers_below_Suc)
    then show ?thesis using CompactMemTable_keeps [OF assms(1)] assms(4) 1
      by (simp add: BackgroundCompaction_def db_set_def imm_set_def)
  next
    case 2
    then show ?thesis using assms(1,4) by (simp add: BackgroundCompaction_def)
  next
    case (3 c limit)
    define db1 where "db1 = db\<lparr>compact_pointer := (compact_pointer db)(clevel c := Some limit)\<rparr>"
    have db1: "DB_inv db1" "snapshots db1 = []" "current db1 = current db" "db_set db1 = db_set db" "last_sequence db1 = last_sequence db"
      "limits db1 = limits db" "next_file_number db1 = next_file_number db"
      using assms(1,2) 3(1) by (simp_all add: db1_def DB_inv_def db_set_def imm_set_def)
    have ok: "inputs_ok (current db1) c" using PickCompaction_ok [OF assms(1,3) 3(2)] db1(3) by simp
    show ?thesis
    proof (cases "IsTrivialMove (limits db) c")
      case True
      then obtain f where f: "inputs0 c = [f]" "inputs1 c = []" by (auto simp: IsTrivialMove_def length_Suc_conv)
      have inv: "version_inv (last_sequence db1) (current db1)" using db1(1) by (simp add: DB_inv_def)
      note R = move_replacement [OF inv ok f]
      have "f \<in> set (current db1 (clevel c))" using ok f(1) by (simp add: inputs_ok_def closed_in_def)
      then have n: "\<forall>a \<in> set [f]. fnumber a < next_file_number db1" using db1(1) by (auto simp: DB_inv_def numbers_below_def)
      have B: "BackgroundCompaction e db = (if bg_ok e then db1\<lparr>current := LogAndApply (replace_edit c [f]) (current db1)\<rparr> else db1)"
        using 3 True f by (simp add: BackgroundCompaction_def db1_def replace_edit_def input_deletions_def)
      have "DB_inv (db1\<lparr>current := LogAndApply (replace_edit c [f]) (current db1)\<rparr>)"
        using install_keeps [OF db1(1) ok R(1) order_refl n refl, of "compact_pointer db1"] by simp
      moreover have "db_set (db1\<lparr>current := LogAndApply (replace_edit c [f]) (current db1)\<rparr>) = db_set db1"
        using R(2) by (simp add: db_set_def imm_set_def)
      ultimately show ?thesis using B db1(1,4) assms(4) by simp
    next
      case False
      then have "BackgroundCompaction e db = DoCompactionWork e c db1" using 3 by (simp add: BackgroundCompaction_def db1_def)
      then show ?thesis using DoCompactionWork_keeps [OF db1(1) ok db1(2), of k r e] assms(4) db1(4) by simp
    qed
  qed
  then show "DB_inv (BackgroundCompaction e db)" "sees (db_set (BackgroundCompaction e db)) k r" by auto
qed

section \<open>Writes and background steps interleaved\<close>

datatype db_event =
  WriteEv write_env "batch_op list" | BackgroundEv bg_env | SnapshotEv | ReleaseEv nat

fun db_step :: "db_event \<Rightarrow> DBImpl \<Rightarrow> DBImpl" where
  "db_step (WriteEv e ops) db = snd (DB_Write e (fold WriteBatch_apply ops WriteBatch_Clear) db)"
| "db_step (BackgroundEv e) db = BackgroundCompaction e db"
| "db_step SnapshotEv db = snd (GetSnapshot db)"
| "db_step (ReleaseEv s) db = ReleaseSnapshot s db"

text \<open>What the clients and the scheduling of the background thread guarantee.\<close>

fun event_ok :: "db_event \<Rightarrow> DBImpl \<Rightarrow> bool" where
  "event_ok (WriteEv e ops) db \<longleftrightarrow> (\<forall>x \<in> set ops. op_fits x)"
| "event_ok (BackgroundEv e) db \<longleftrightarrow> pick_ok (bg_pick e) db"
| "event_ok SnapshotEv db \<longleftrightarrow> True"
| "event_ok (ReleaseEv s) db \<longleftrightarrow> s \<in> set (snapshots db)"

text \<open>No tables are merged while a snapshot is held.\<close>

fun merges_alone :: "db_event \<Rightarrow> DBImpl \<Rightarrow> bool" where
  "merges_alone (BackgroundEv e) db \<longleftrightarrow> db_imm db \<noteq> None \<or> snapshots db = []"
| "merges_alone _ db \<longleftrightarrow> True"

fun along :: "(db_event \<Rightarrow> DBImpl \<Rightarrow> bool) \<Rightarrow> db_event list \<Rightarrow> DBImpl \<Rightarrow> bool" where
  "along P [] db \<longleftrightarrow> True"
| "along P (ev # evs) db \<longleftrightarrow> P ev db \<and> along P evs (db_step ev db)"

text \<open>What a client that knows only about writes expects.\<close>

fun expected :: "db_event list \<Rightarrow> string \<Rightarrow> string option \<Rightarrow> string option" where
  "expected [] k r = r"
| "expected (WriteEv e ops # evs) k r = expected evs k (if write_ok e then ops_get ops k r else r)"
| "expected (_ # evs) k r = expected evs k r"

lemma snapshot_keeps:
  "DB_inv (db\<lparr>snapshots := ss\<rparr>) = DB_inv db" "DB_Get (db\<lparr>snapshots := ss\<rparr>) k = DB_Get db k"
  by (simp_all add: DB_inv_def imm_set_def DB_Get_def Let_def cong: option.case_cong)

lemma db_step_keeps:
  assumes "DB_inv db" "event_ok ev db" "merges_alone ev db"
  shows "DB_inv (db_step ev db) \<and> DB_Get (db_step ev db) k = expected [ev] k (DB_Get db k)"
proof (cases ev)
  case (WriteEv e ops)
  then show ?thesis using DB_Write_ops [OF assms(1), of ops e] assms(2)
    by (cases "DB_Write e (fold WriteBatch_apply ops WriteBatch_Clear) db") simp
next
  case (BackgroundEv e)
  then have "DB_inv (BackgroundCompaction e db) \<and> sees (db_set (BackgroundCompaction e db)) k (DB_Get db k)"
    using BackgroundCompaction_keeps [OF assms(1) _ _ DB_Get_sees [OF assms(1)], of e] assms(2,3) by simp
  then show ?thesis using BackgroundEv DB_Get_iff by simp
qed (use assms(1) in \<open>simp_all add: GetSnapshot_def ReleaseSnapshot_def snapshot_keeps\<close>)

lemma expected_Cons: "expected (ev # evs) k r = expected evs k (expected [ev] k r)"
  by (cases ev) simp_all

lemma db_steps_keep:
  assumes "DB_inv db" "along event_ok evs db" "along merges_alone evs db"
  shows "DB_inv (fold db_step evs db) \<and> DB_Get (fold db_step evs db) k = expected evs k (DB_Get db k)"
  using assms
proof (induction evs arbitrary: db)
  case (Cons ev evs)
  have "DB_inv (db_step ev db) \<and> DB_Get (db_step ev db) k = expected [ev] k (DB_Get db k)"
    using db_step_keeps [OF Cons.prems(1)] Cons.prems(2,3) by simp
  then show ?case using Cons.IH [of "db_step ev db"] Cons.prems(2,3) expected_Cons [of ev evs k "DB_Get db k"] by simp
qed simp

text \<open>
  C3: A LevelDB database behaves as one map, whatever the background thread does in between.
  For every interleaving of batch writes (successful or failed, with or without a switch of the
  memtable), snapshots and background steps (flush of the immutable memtable, trivial move,
  merging compaction, with or without a write error) in which no tables are merged while a
  snapshot is held, \<open>Get\<close> returns for every key what the sequence of successful writes says,
  and the iterator lists exactly those pairs in key order. This holds for every configured
  target file size.
\<close>

theorem compactions_invisible:
  assumes "along event_ok evs (DBImpl_new mb)" "along merges_alone evs (DBImpl_new mb)"
  shows "(\<forall>k. DB_Get (fold db_step evs (DBImpl_new mb)) k = expected evs k None) \<and>
    (\<forall>k. map_of (DB_entries (fold db_step evs (DBImpl_new mb))) k = expected evs k None) \<and>
    sorted_wrt (<) (map fst (DB_entries (fold db_step evs (DBImpl_new mb))))"
  using db_steps_keep [OF DB_inv_new assms] DB_entries_props by simp

definition fits_env :: write_env where
  "fits_env = \<lparr>env_room = RoomFits, env_log = True, env_bytes = length\<rparr>"

definition switch_env :: write_env where
  "switch_env = \<lparr>env_room = RoomSwitch, env_log = True, env_bytes = length\<rparr>"

text \<open>A table builder that reaches the size of a file with every entry (values of 2 MB).\<close>

definition merge_env :: "pick \<Rightarrow> bg_env" where
  "merge_env p = \<lparr>bg_pick = p, bg_ok = True, bg_bytes = length, bg_fill = (\<lambda>t. 2097152 * length t)\<rparr>"

definition split_events :: "bool \<Rightarrow> db_event list" where
  "split_events snap =
     [WriteEv fits_env [Handler_Put ''k'' ''0''], WriteEv switch_env [Handler_Put ''k'' ''1''],
      BackgroundEv (merge_env NoCompaction)] @ (if snap then [SnapshotEv] else []) @
     [WriteEv fits_env [Handler_Put ''k'' ''2''], WriteEv switch_env [Handler_Put ''z'' ''3''],
      BackgroundEv (merge_env NoCompaction), BackgroundEv (merge_env (SizeCompaction 1))] @
      (if snap then [ReleaseEv 2] else []) @ [BackgroundEv (merge_env (SizeCompaction 2))]"

text \<open>The run with two merging steps, without a snapshot: the newest value, in a file of level 3.\<close>

theorem compactions_invisible_witness:
  "along event_ok (split_events False) (DBImpl_new 2) \<and> along merges_alone (split_events False) (DBImpl_new 2) \<and>
   DB_Get (fold db_step (split_events False) (DBImpl_new 2)) ''k'' = Some ''2'' \<and>
   ftable (hd (current (fold db_step (split_events False) (DBImpl_new 2)) 3)) = [Entry ''k'' 3 kTypeValue ''2'']"
proof -
  have ok: "along event_ok (split_events False) (DBImpl_new 2)" by code_simp
  have quiet: "along merges_alone (split_events False) (DBImpl_new 2)" by code_simp
  have "expected (split_events False) ''k'' None = Some ''2''" by code_simp
  moreover have "ftable (hd (current (fold db_step (split_events False) (DBImpl_new 2)) 3)) = [Entry ''k'' 3 kTypeValue ''2'']" by code_simp
  ultimately show ?thesis using compactions_invisible [OF ok quiet] ok quiet by simp
qed


section \<open>The size limits\<close>

text \<open>With a negative limit every entry starts a new file.\<close>

definition small_files :: "CompactionState \<Rightarrow> bool" where
  "small_files st \<longleftrightarrow> (\<forall>f \<in> set (outputs st). length (ftable f) = 1) \<and> (\<forall>t. builder st = Some t \<longrightarrow> length t = 1)"

lemma Finish_small: "small_files st \<Longrightarrow> small_files (FinishCompactionOutputFile bytes st) \<and> builder (FinishCompactionOutputFile bytes st) = None"
  by (auto simp: small_files_def FinishCompactionOutputFile_def BuildTable_def split: option.splits)

lemma add_entry_small: "small_files st \<Longrightarrow> builder st = None \<Longrightarrow> small_files (add_entry env lims e st)"
  using Finish_small [of "(OpenCompactionOutputFile st)\<lparr>builder := Some [e]\<rparr>" "bg_bytes env"]
  by (simp add: add_entry_def Let_def OpenCompactionOutputFile_def small_files_def)

lemma drop_entry_small: "drop_entry snap v l e st = (d, st') \<Longrightarrow> small_files st' = small_files st \<and> builder st' = builder st"
  by (auto simp: drop_entry_def Let_def small_files_def split: if_splits prod.splits)

lemma ShouldStopBefore_negative:
  "kMaxGrandParentOverlapBytes lims < 0 \<Longrightarrow> ShouldStopBefore lims c e st = (stop, st') \<Longrightarrow>
   stop \<and> small_files st' = small_files st"
  by (auto simp: ShouldStopBefore_def Let_def small_files_def split: prod.splits if_splits)

lemma compaction_loop_small:
  assumes "kMaxGrandParentOverlapBytes lims < 0" "small_files st"
  shows "small_files (compaction_loop env lims snap v c es st)"
  using assms(2)
proof (induction es arbitrary: st)
  case (Cons e es)
  obtain stop st1 where S: "ShouldStopBefore lims c e st = (stop, st1)" by fastforce
  define st2 where "st2 = (if stop \<and> builder st1 \<noteq> None then FinishCompactionOutputFile (bg_bytes env) st1 else st1)"
  obtain d st3 where D: "drop_entry snap v (clevel c) e st2 = (d, st3)" by fastforce
  have "stop" "small_files st1" using ShouldStopBefore_negative [OF assms(1) S] Cons.prems by auto
  then have "small_files st2" "builder st2 = None" using Finish_small [of st1 "bg_bytes env"] by (auto simp: st2_def)
  then have "small_files st3" "builder st3 = None" using drop_entry_small [OF D] by auto
  then have "small_files (if d then st3 else add_entry env lims e st3)" using add_entry_small by simp
  then show ?case using Cons.IH S D by (simp add: Let_def st2_def)
qed (simp add: Finish_small)

lemma never_expands:
  assumes "kExpandedCompactionByteSizeLimit lims < 0"
  shows "inputs0 (fst (SetupOtherInputs lims v level in0)) = in0"
proof -
  have "\<not> int (TotalFileSize a + TotalFileSize b) < kExpandedCompactionByteSizeLimit lims" for a b using assms by simp
  then show ?thesis unfolding SetupOtherInputs_def by (auto simp: Let_def split: prod.splits)
qed

text \<open>
  C33: The size limits wrap around, because \<open>setTargetFileSize\<close> multiplies in \<open>int\<close>. With the
  default target of 128 MB the limit of an expanded compaction is negative, so that a
  compaction never takes additional files of its level. For a configured target of 205 to 409
  MB the limit on overlaps with the next level is negative, and every merging compaction, of
  whatever inputs, writes one file per entry.
\<close>

theorem size_limits_wrap:
  assumes "205 \<le> mb" "mb \<le> 409"
  shows "inputs0 (fst (SetupOtherInputs (setTargetFileSize 128) v level in0)) = in0 \<and>
    (\<forall>f \<in> set (outputs (compaction_loop env (setTargetFileSize mb) snap v c es (CompactionState_new n))). length (ftable f) = 1)"
proof
  show "inputs0 (fst (SetupOtherInputs (setTargetFileSize 128) v level in0)) = in0"
    by (rule never_expands) (simp add: setTargetFileSize_def to_i32_def)
  have "kMaxGrandParentOverlapBytes (setTargetFileSize mb) < 0"
  proof -
    have t: "to_i32 (mb * 1048576) = mb * 1048576" using assms by (simp add: to_i32_def)
    have "(10 * (mb * 1048576) + 2 ^ 31) mod 2 ^ 32 = 10 * (mb * 1048576) + 2 ^ 31 - (2 ^ 32 :: int)"
      using assms by (intro int_mod_pos_eq [where q = 1]) auto
    then have "to_i32 (10 * (mb * 1048576)) = 10 * (mb * 1048576) - 2 ^ 32" by (simp add: to_i32_def)
    then show ?thesis using assms(2) by (simp add: setTargetFileSize_def t)
  qed
  moreover have "small_files (CompactionState_new n)" by (simp add: small_files_def CompactionState_new_def)
  ultimately show "\<forall>f \<in> set (outputs (compaction_loop env (setTargetFileSize mb) snap v c es (CompactionState_new n))). length (ftable f) = 1"
    using compaction_loop_small unfolding small_files_def by blast
qed

definition merge_inputs :: Compaction where
  "merge_inputs = \<lparr>clevel = 1, inputs0 = [], inputs1 = [], grandparents = []\<rparr>"

theorem size_limits_wrap_witness:
  "length (ftable (hd (outputs (compaction_loop (merge_env NoCompaction) (setTargetFileSize 256) 9 (\<lambda>_. []) merge_inputs
     [Entry ''a'' 1 kTypeValue ''x'', Entry ''b'' 2 kTypeValue ''y''] (CompactionState_new 5))))) = 1"
proof -
  let ?out = "outputs (compaction_loop (merge_env NoCompaction) (setTargetFileSize 256) 9 (\<lambda>_. []) merge_inputs
     [Entry ''a'' 1 kTypeValue ''x'', Entry ''b'' 2 kTypeValue ''y''] (CompactionState_new 5))"
  have "length ?out = 2" by code_simp
  then have "hd ?out \<in> set ?out" by (cases ?out) auto
  moreover have "\<forall>f \<in> set ?out. length (ftable f) = 1" by (rule size_limits_wrap [THEN conjunct2]) simp_all
  ultimately show ?thesis by (rule bspec [rotated])
qed

end
