(* ===== verification/Recovery.thy ===== *)
theory Recovery
  imports LogProps CompactProps
begin

text \<open>
  The write-ahead log of a database and how a database is opened after a crash
  (\<open>db/db_impl.cc\<close>: \<open>Write\<close>, \<open>MakeRoomForWrite\<close>, \<open>CompactMemTable\<close>, \<open>DeleteObsoleteFiles\<close>,
  \<open>Recover\<close>, \<open>RecoverLogFile\<close>, \<open>Open\<close>; \<open>VersionSet::Recover\<close>). The log files are those of \<open>LogFile\<close>,
  byte for byte. What the manifest says is kept as the values it was last told. The database in
  memory is the one of \<open>DbImpl\<close> and \<open>Compact\<close>; here the log is written beside it.
\<close>

section \<open>Writing the log\<close>

definition WriteBatch_Contents :: "WriteBatch \<Rightarrow> string" where
  "WriteBatch_Contents b = EncodeFixed64 (wb_sequence b) @ EncodeFixed32 (wb_count b) @ wb_data b"

definition WriteBatch_SetContents :: "string \<Rightarrow> WriteBatch" where
  "WriteBatch_SetContents rep =
     \<lparr>wb_sequence = DecodeFixed64 rep, wb_count = DecodeFixed32 (drop 8 rep), wb_data = drop 12 rep\<rparr>"

text \<open>\<open>Count\<close> is an \<open>int\<close>; added to a sequence number it is sign-extended.\<close>

definition count64 :: "WriteBatch \<Rightarrow> nat" where
  "count64 b = (if wb_count b < 2 ^ 31 then wb_count b else wb_count b + (2 ^ 64 - 2 ^ 32))"

text \<open>
  A running database with its log files, the open one last. \<open>man_next_file\<close> and
  \<open>man_last_sequence\<close> are the values in the newest record of the manifest, \<open>log_number\<close> is that of
  the oldest log still needed.
\<close>

record DBLog =
  live :: DBImpl
  logfile_number :: nat
  log_number :: nat
  log_files :: "(nat \<times> Writer) list"
  man_next_file :: nat
  man_last_sequence :: nat

text \<open>\<open>VersionSet::LogAndApply\<close> puts the counters into the manifest.\<close>

definition manifest_written :: "DBLog \<Rightarrow> DBLog" where
  "manifest_written d = d\<lparr>man_next_file := next_file_number (live d), man_last_sequence := last_sequence (live d)\<rparr>"

text \<open>The log files that \<open>DeleteObsoleteFiles\<close> keeps; the previous log number is always 0.\<close>

definition DeleteObsoleteFiles :: "DBLog \<Rightarrow> DBLog" where
  "DeleteObsoleteFiles d = d\<lparr>log_files := filter (\<lambda>(number, w). log_number d \<le> number \<or> number = 0) (log_files d)\<rparr>"

text \<open>After \<open>CompactMemTable\<close> has made a table of the immutable memtable, giving the database \<open>db\<close>.\<close>

definition memtable_compacted :: "DBImpl \<Rightarrow> DBLog \<Rightarrow> DBLog" where
  "memtable_compacted db d = DeleteObsoleteFiles (manifest_written (d\<lparr>live := db, log_number := logfile_number d\<rparr>))"

definition MakeRoom_logged :: "write_env \<Rightarrow> DBLog \<Rightarrow> DBLog" where
  "MakeRoom_logged e d =
     (if env_room e = RoomSwitch then
        (let d1 = (if db_imm (live d) \<noteq> None then memtable_compacted (CompactMemTable (env_bytes e) (live d)) d else d);
             new_log_number = next_file_number (live d1)
         in d1\<lparr>live := snd (MakeRoomForWrite e (live d)), logfile_number := new_log_number,
               log_files := log_files d1 @ [(new_log_number, Writer_new)]\<rparr>)
      else d)"

text \<open>The status of the write is that of the log; \<open>io\<close> gives the outcomes of the file operations.\<close>

definition Write_logged :: "(nat \<Rightarrow> nat option) \<Rightarrow> write_env \<Rightarrow> WriteBatch \<Rightarrow> DBLog \<Rightarrow> bool \<times> DBLog" where
  "Write_logged io e my_batch d =
     (if env_room e = RoomError then (False, d)
      else
        (let d1 = MakeRoom_logged e d;
             updates = my_batch\<lparr>wb_sequence := last_sequence (live d1) + 1\<rparr>;
             (s, w) = AddRecord io (WriteBatch_Contents updates) (snd (last (log_files d1)));
             (status, db) = DB_Write (e\<lparr>env_log := s\<rparr>) my_batch (live d)
         in (status, d1\<lparr>live := db, log_files := butlast (log_files d1) @ [(logfile_number d1, w)]\<rparr>)))"

definition Background_logged :: "bg_env \<Rightarrow> DBLog \<Rightarrow> DBLog" where
  "Background_logged e d =
     (let db = BackgroundCompaction e (live d)
      in if db_imm (live d) \<noteq> None then (if bg_ok e then memtable_compacted db d else d\<lparr>live := db\<rparr>)
         else (case PickCompaction (bg_pick e) (live d) of
             None \<Rightarrow> d\<lparr>live := db\<rparr>
           | Some (c, limit) \<Rightarrow>
               (let d1 = (if bg_ok e then manifest_written (d\<lparr>live := db\<rparr>) else d\<lparr>live := db\<rparr>)
                in if IsTrivialMove (limits (live d)) c then d1 else DeleteObsoleteFiles d1)))"

section \<open>Opening a database\<close>

text \<open>The files of a database: what the manifest says, and the log files with their bytes.\<close>

record Disk =
  d_version :: Version
  d_compact_pointer :: "nat \<Rightarrow> entry option"
  d_log_number :: nat
  d_prev_log_number :: nat
  d_next_file :: nat
  d_last_sequence :: nat
  d_logs :: "(nat \<times> string) list"

definition NewDB :: Disk where
  "NewDB = \<lparr>d_version = (\<lambda>_. []), d_compact_pointer = (\<lambda>_. None), d_log_number = 0, d_prev_log_number = 0,
     d_next_file = 2, d_last_sequence = 0, d_logs = []\<rparr>"

text \<open>
  What the environment decides: outcomes of opening and reading log files, by number, when the
  memory of a memtable exceeds the write buffer, whether writing the table with a number
  succeeds, the sizes of tables, whether the new log file and the manifest record of \<open>Open\<close> can
  be written, and the option \<open>paranoid_checks\<close>.
\<close>

record rec_env =
  rc_paranoid :: bool
  rc_open :: "nat \<Rightarrow> bool"
  rc_read :: "nat \<Rightarrow> nat \<Rightarrow> nat option"
  rc_full :: "entry list \<Rightarrow> bool"
  rc_build :: "nat \<Rightarrow> bool"
  rc_bytes :: "entry list \<Rightarrow> nat"
  rc_commit :: bool

record rec_state =
  rs_status :: bool
  rs_mem :: "entry list option"
  rs_edit :: VersionEdit
  rs_max :: nat
  rs_db :: DBImpl

text \<open>\<open>WriteLevel0Table\<close> without a base version: always level 0.\<close>

definition WriteLevel0Table_rec :: "rec_env \<Rightarrow> rec_state \<Rightarrow> rec_state" where
  "WriteLevel0Table_rec c st =
     (case rs_mem st of
        None \<Rightarrow> st
      | Some t \<Rightarrow>
          (let number = next_file_number (rs_db st)
           in st\<lparr>rs_status := rc_build c number, rs_mem := None, rs_db := (rs_db st)\<lparr>next_file_number := number + 1\<rparr>,
                 rs_edit := (if \<not> rc_build c number \<or> t = [] then rs_edit st
                   else (rs_edit st)\<lparr>new_files := new_files (rs_edit st) @ [(0, BuildTable (rc_bytes c) number t)]\<rparr>)\<rparr>))"

function RecoverLog_loop :: "rec_env \<Rightarrow> (nat \<Rightarrow> nat option) \<Rightarrow> Reader \<Rightarrow> rec_state \<Rightarrow> rec_state" where
  "RecoverLog_loop c rd r st =
     (case ReadRecord rd r of
        (None, r1) \<Rightarrow> st\<lparr>rs_status := rs_status st \<and> (rc_paranoid c \<longrightarrow> reports r1 = reports r)\<rparr>
      | (Some rec, r1) \<Rightarrow>
          if \<not> (rs_status st \<and> (rc_paranoid c \<longrightarrow> reports r1 = reports r)) then st\<lparr>rs_status := False\<rparr>
          else if length rec < 12 then RecoverLog_loop c rd r1 (st\<lparr>rs_status := \<not> rc_paranoid c\<rparr>)
          else
            (let batch = WriteBatch_SetContents rec;
                 (status, mem) = InsertInto batch (case rs_mem st of None \<Rightarrow> [] | Some t \<Rightarrow> t)
             in if \<not> status \<and> rc_paranoid c then st\<lparr>rs_status := False, rs_mem := Some mem\<rparr>
                else
                  (let last_seq = sub64 (add64 (wb_sequence batch) (count64 batch)) 1;
                       st1 = st\<lparr>rs_mem := Some mem, rs_max := max (rs_max st) last_seq\<rparr>;
                       st2 = (if rc_full c mem then WriteLevel0Table_rec c st1 else st1)
                   in if rs_status st2 then RecoverLog_loop c rd r1 st2 else st2)))"
  by pat_completeness auto
termination
  by (relation "measure (\<lambda>(c, rd, r, st). unread r)") (auto dest: ReadRecord_unread [OF sym])

declare RecoverLog_loop.simps [simp del]

definition RecoverLogFile :: "rec_env \<Rightarrow> nat \<times> string \<Rightarrow> rec_state \<Rightarrow> rec_state" where
  "RecoverLogFile c f st =
     (if \<not> rc_open c (fst f) then st\<lparr>rs_status := \<not> rc_paranoid c\<rparr>
      else
        (let st1 = RecoverLog_loop c (rc_read c (fst f)) (Reader_new (snd f) True 0) (st\<lparr>rs_status := True, rs_mem := None\<rparr>)
         in if rs_status st1 then WriteLevel0Table_rec c st1 else st1\<lparr>rs_mem := None\<rparr>))"

definition MarkFileNumberUsed :: "nat \<Rightarrow> DBImpl \<Rightarrow> DBImpl" where
  "MarkFileNumberUsed number db = (if next_file_number db \<le> number then db\<lparr>next_file_number := number + 1\<rparr> else db)"

text \<open>The state \<open>VersionSet::Recover\<close> reads from the manifest.\<close>

definition VersionSet_Recover :: "int \<Rightarrow> Disk \<Rightarrow> DBImpl" where
  "VersionSet_Recover mb disk =
     (DBImpl_new mb)\<lparr>current := d_version disk, compact_pointer := d_compact_pointer disk,
       next_file_number := d_next_file disk + 1, last_sequence := d_last_sequence disk\<rparr>"

definition Recover :: "rec_env \<Rightarrow> int \<Rightarrow> Disk \<Rightarrow> rec_state" where
  "Recover c mb disk =
     (let logs = sort_key fst (filter (\<lambda>(number, f). d_log_number disk \<le> number \<or> number = d_prev_log_number disk) (d_logs disk));
          st0 = \<lparr>rs_status = True, rs_mem = None, rs_edit = \<lparr>deleted_files = [], new_files = []\<rparr>, rs_max = 0,
                 rs_db = VersionSet_Recover mb disk\<rparr>;
          st = fold (\<lambda>f st. let st1 = RecoverLogFile c f st in st1\<lparr>rs_db := MarkFileNumberUsed (fst f) (rs_db st1)\<rparr>) logs st0
      in if rs_status st \<and> last_sequence (rs_db st) < rs_max st
         then st\<lparr>rs_db := (rs_db st)\<lparr>last_sequence := rs_max st\<rparr>\<rparr> else st)"

text \<open>\<open>DB::Open\<close>; \<open>None\<close> is an error status.\<close>

definition DB_Open :: "rec_env \<Rightarrow> int \<Rightarrow> Disk \<Rightarrow> DBLog option" where
  "DB_Open c mb disk =
     (let st = Recover c mb disk;
          new_log_number = next_file_number (rs_db st);
          db = (rs_db st)\<lparr>next_file_number := new_log_number + 1\<rparr>;
          db1 = db\<lparr>current := LogAndApply (rs_edit st) (current db)\<rparr>
      in if \<not> rs_status st \<or> \<not> rc_commit c then None
         else Some (DeleteObsoleteFiles (manifest_written
           \<lparr>live = db1, logfile_number = new_log_number, log_number = new_log_number,
            log_files = map (\<lambda>(n, f). (n, Writer_new\<lparr>dest := \<lparr>contents = f, calls = 0\<rparr>\<rparr>)) (d_logs disk) @ [(new_log_number, Writer_new)],
            man_next_file = 0, man_last_sequence = 0\<rparr>)))"

text \<open>
  What is on disk while the database runs. The compaction pointers in the manifest may be older
  than those in memory, when a compaction failed; they are the argument \<open>cp\<close>.
\<close>

definition disk_of :: "(nat \<Rightarrow> entry option) \<Rightarrow> DBLog \<Rightarrow> Disk" where
  "disk_of cp d = \<lparr>d_version = current (live d), d_compact_pointer = cp, d_log_number = log_number d,
     d_prev_log_number = 0, d_next_file = man_next_file d, d_last_sequence = man_last_sequence d,
     d_logs = map (\<lambda>(n, w). (n, contents (dest w))) (log_files d)\<rparr>"

end
