(* ===== verification/RecoveryProps.thy ===== *)
theory RecoveryProps
  imports Recovery
begin

text \<open>
  Durability: whatever a database did before a crash, opening it again gives the effect of a
  prefix of the successful writes, of all of them when the open log file is complete. The log
  records of the memtables rebuild their entries (\<open>rec_inv\<close>), and while the database runs its two
  memtables are what the log files hold (\<open>dl_inv\<close>).
\<close>

section \<open>Batches in the log\<close>

definition batch_at :: "nat \<Rightarrow> batch_op list \<Rightarrow> WriteBatch" where
  "batch_at s ops = (fold WriteBatch_apply ops WriteBatch_Clear)\<lparr>wb_sequence := s\<rparr>"

fun log_records :: "nat \<Rightarrow> batch_op list list \<Rightarrow> string list" where
  "log_records s [] = []"
| "log_records s (ops # os) = WriteBatch_Contents (batch_at s ops) # log_records (s + length ops) os"

lemma batch_at_simps [simp]: "wb_sequence (batch_at s ops) = s" "wb_count (batch_at s ops) = length ops"
  "wb_data (batch_at s ops) = concat (map op_bytes ops)"
  by (simp_all add: batch_at_def WriteBatch_fold WriteBatch_Clear_def)

lemma SetContents_Contents:
  "s < 2 ^ 64 \<Longrightarrow> length ops < 2 ^ 32 \<Longrightarrow> WriteBatch_SetContents (WriteBatch_Contents (batch_at s ops)) = batch_at s ops"
  by (simp add: WriteBatch_SetContents_def WriteBatch_Contents_def DecodeFixed64_Encode DecodeFixed32_Encode)

lemma InsertInto_batch:
  "\<forall>x \<in> set ops. op_fits x \<Longrightarrow> InsertInto (batch_at s ops) t = (True, MemTableInserter ops s t)"
  by (simp add: InsertInto_def WriteBatch_Iterate_def WriteBatch_loop_ops)

lemma length_Contents: "12 \<le> length (WriteBatch_Contents b)"
  by (simp add: WriteBatch_Contents_def)

lemma last_seq_batch:
  "1 \<le> s \<Longrightarrow> s + length ops < 2 ^ 64 \<Longrightarrow> length ops < 2 ^ 31 \<Longrightarrow>
   sub64 (add64 s (count64 (batch_at s ops))) 1 = s + length ops - 1"
  by (simp add: count64_def add64_def sub64_def to_u64_def)

lemma length_log_records [simp]: "length (log_records s os) = length os"
  by (induction os arbitrary: s) auto

lemma log_records_append: "log_records s (a @ b) = log_records s a @ log_records (s + length (concat a)) b"
  by (induction a arbitrary: s) (simp_all add: add.assoc)

lemma take_log_records: "take j (log_records s os) = log_records s (take j os)"
  by (induction os arbitrary: s j) (auto simp: take_Cons split: nat.splits)

lemma MemTableInserter_append:
  "MemTableInserter (a @ b) s t = MemTableInserter b (s + length a) (MemTableInserter a s t)"
  by (induction a s t rule: MemTableInserter.induct) simp_all

lemma ops_get_append: "ops_get (a @ b) k r = ops_get b k (ops_get a k r)"
  by (induction a k r rule: ops_get.induct) simp_all

section \<open>The recovery loop\<close>

text \<open>What the loop does with one record when errors are ignored.\<close>

definition rec_record :: "rec_env \<Rightarrow> string \<Rightarrow> rec_state \<Rightarrow> rec_state" where
  "rec_record c rec st =
     (if length rec < 12 then st
      else
        (let batch = WriteBatch_SetContents rec;
             mem = snd (InsertInto batch (case rs_mem st of None \<Rightarrow> [] | Some t \<Rightarrow> t));
             st1 = st\<lparr>rs_mem := Some mem, rs_max := max (rs_max st) (sub64 (add64 (wb_sequence batch) (count64 batch)) 1)\<rparr>
         in if rc_full c mem then WriteLevel0Table_rec c st1 else st1))"

text \<open>Without paranoid checks, and while tables can be written.\<close>

definition tolerant :: "rec_env \<Rightarrow> bool" where
  "tolerant c \<longleftrightarrow> \<not> rc_paranoid c \<and> (\<forall>number. rc_build c number)"

lemma WriteLevel0Table_rec_status: "tolerant c \<Longrightarrow> rs_status st \<Longrightarrow> rs_status (WriteLevel0Table_rec c st)"
  by (simp add: WriteLevel0Table_rec_def tolerant_def Let_def split: option.splits)

lemma rec_record_status: "tolerant c \<Longrightarrow> rs_status st \<Longrightarrow> rs_status (rec_record c rec st)"
  by (simp add: rec_record_def WriteLevel0Table_rec_status Let_def)

lemma rs_status_id: "rs_status st \<Longrightarrow> st\<lparr>rs_status := True\<rparr> = st"
  by (cases st) simp

lemma RecoverLog_loop_fold:
  "tolerant c \<Longrightarrow> rs_status st \<Longrightarrow> RecoverLog_loop c rd r st = fold (rec_record c) (read_all rd r) st"
proof (induction "unread r" arbitrary: r st rule: less_induct)
  case less
  obtain x r1 where R: "ReadRecord rd r = (x, r1)" by (cases "ReadRecord rd r")
  show ?case
  proof (cases x)
    case None
    then show ?thesis using R less.prems by (simp add: tolerant_def RecoverLog_loop.simps [of c rd r st] read_all.simps [of rd r] rs_status_id)
  next
    case (Some rec)
    obtain status mem where I: "InsertInto (WriteBatch_SetContents rec) (case rs_mem st of None \<Rightarrow> [] | Some t \<Rightarrow> t) = (status, mem)" by fastforce
    have "RecoverLog_loop c rd r st = RecoverLog_loop c rd r1 (rec_record c rec st)"
      using R Some less.prems I rec_record_status [OF less.prems, of rec]
      by (simp add: tolerant_def RecoverLog_loop.simps [of c rd r st] rec_record_def Let_def rs_status_id split: if_splits)
    then show ?thesis using R Some less.hyps [of r1 "rec_record c rec st"] ReadRecord_unread [of rd r rec r1] less.prems rec_record_status [OF less.prems, of rec]
      by (simp add: read_all.simps [of rd r])
  qed
qed

section \<open>The tables that recovery writes\<close>

definition rs_table :: "rec_state \<Rightarrow> entry list" where
  "rs_table st = (case rs_mem st of None \<Rightarrow> [] | Some t \<Rightarrow> t)"

definition rs_files :: "rec_state \<Rightarrow> FileMetaData list" where
  "rs_files st = map snd (new_files (rs_edit st))"

definition added_set :: "FileMetaData list \<Rightarrow> entry set" where
  "added_set A = \<Union> (tset ` set A)"

text \<open>Level-0 files that can be added to a version \<open>v\<close> with file numbers below \<open>n\<close>.\<close>

definition fresh_files :: "nat \<Rightarrow> Version \<Rightarrow> FileMetaData list \<Rightarrow> bool" where
  "fresh_files n v A \<longleftrightarrow> sorted_wrt (\<lambda>f g. fnumber f < fnumber g \<and> later (tset g) (tset f)) A \<and>
     (\<forall>f \<in> set A. n \<le> fnumber f \<and> later (tset f) (version_set v))"

definition rec_inv :: "Version \<Rightarrow> nat \<Rightarrow> nat \<Rightarrow> nat \<Rightarrow> batch_op list \<Rightarrow> rec_state \<Rightarrow> bool" where
  "rec_inv v n m s ops st \<longleftrightarrow>
     rs_status st \<and> deleted_files (rs_edit st) = [] \<and> new_files (rs_edit st) = map (Pair 0) (rs_files st) \<and>
     last_sequence (rs_db st) = m \<and> current (rs_db st) = v \<and> db_mem (rs_db st) = [] \<and> db_imm (rs_db st) = None \<and> n \<le> next_file_number (rs_db st) \<and>
     fresh_files n v (rs_files st) \<and> (\<forall>f \<in> set (rs_files st). fnumber f < next_file_number (rs_db st) \<and> file_ok (max m (rs_max st)) f) \<and>
     table_sorted (rs_table st) \<and> later (set (rs_table st)) (added_set (rs_files st) \<union> version_set v) \<and>
     (\<forall>e \<in> set (rs_table st) \<union> (added_set (rs_files st) \<union> version_set v). eseq e < s \<and> eseq e \<le> max m (rs_max st)) \<and>
     (\<forall>k. sees (set (rs_table st) \<union> (added_set (rs_files st) \<union> version_set v)) k (ops_get ops k None))"

lemma added_set_simps [simp]: "added_set [] = {}" "added_set (A @ B) = added_set A \<union> added_set B" "added_set [f] = tset f"
  by (auto simp: added_set_def)

lemma rec_inv_table:
  assumes "rec_inv v n m s ops st" "tolerant c"
  shows "rec_inv v n m s ops (WriteLevel0Table_rec c st)" and "rs_mem (WriteLevel0Table_rec c st) = None"
proof -
  let ?N = "next_file_number (rs_db st)" and ?st = "WriteLevel0Table_rec c st"
  consider "rs_mem st = None" | "rs_mem st = Some []" | t where "rs_mem st = Some t" "t \<noteq> []" by (cases "rs_mem st"; cases "the (rs_mem st)") auto
  then have "rec_inv v n m s ops ?st \<and> rs_mem ?st = None"
  proof cases
    case 1
    then show ?thesis using assms by (simp add: WriteLevel0Table_rec_def)
  next
    case 2
    then have "?st = st\<lparr>rs_status := True, rs_mem := None, rs_db := (rs_db st)\<lparr>next_file_number := ?N + 1\<rparr>\<rparr>"
      using assms(2) by (simp add: WriteLevel0Table_rec_def tolerant_def)
    then show ?thesis using assms 2 by (simp add: rec_inv_def rs_table_def rs_files_def less_SucI)
  next
    case (3 t)
    let ?f = "BuildTable (rc_bytes c) ?N t"
    have st: "?st = st\<lparr>rs_status := True, rs_mem := None, rs_db := (rs_db st)\<lparr>next_file_number := ?N + 1\<rparr>,
        rs_edit := (rs_edit st)\<lparr>new_files := new_files (rs_edit st) @ [(0, ?f)]\<rparr>\<rparr>"
      using 3 assms(2) by (simp add: WriteLevel0Table_rec_def tolerant_def Let_def)
    have F: "rs_files ?st = rs_files st @ [?f]" "rs_table ?st = []" "rs_table st = t" "tset ?f = set t" "fnumber ?f = ?N"
      using st 3 by (simp_all add: rs_files_def rs_table_def BuildTable_def)
    have I: "fresh_files n v (rs_files st)" "n \<le> ?N" "\<forall>f \<in> set (rs_files st). fnumber f < ?N"
      "later (set t) (added_set (rs_files st) \<union> version_set v)" "table_sorted t" "\<forall>e \<in> set t. eseq e \<le> max m (rs_max st)"
      using assms F(3) by (auto simp: rec_inv_def)
    have "file_ok (max m (rs_max st)) ?f" using I 3(2) by (simp add: file_ok_def BuildTable_def)
    moreover have "fresh_files n v (rs_files st @ [?f])"
      using I(1-4) F(4,5) by (auto simp: fresh_files_def sorted_wrt_append added_set_def later_def)
    moreover have "set t \<union> (added_set (rs_files st) \<union> version_set v) = added_set (rs_files st @ [?f]) \<union> version_set v"
      using F(4) by auto
    ultimately show ?thesis using assms F st by (auto simp: rec_inv_def less_Suc_eq)
  qed
  then show "rec_inv v n m s ops ?st" "rs_mem ?st = None" by auto
qed

lemma rec_inv_record:
  assumes "rec_inv v n m s ops st" "\<forall>x \<in> set o1. op_fits x" "1 \<le> s" "s + length o1 < 2 ^ 31" "tolerant c"
  shows "rec_inv v n m (s + length o1) (ops @ o1) (rec_record c (WriteBatch_Contents (batch_at s o1)) st)"
proof -
  let ?E = "added_set (rs_files st) \<union> version_set v" and ?t = "MemTableInserter o1 s (rs_table st)"
  let ?st = "st\<lparr>rs_mem := Some ?t, rs_max := max (rs_max st) (s + length o1 - 1)\<rparr>"
  have b: "s < 2 ^ 64" "length o1 < 2 ^ 32" "s + length o1 < 2 ^ 64" "length o1 < 2 ^ 31" using assms(4) by simp_all
  have r: "rec_record c (WriteBatch_Contents (batch_at s o1)) st = (if rc_full c ?t then WriteLevel0Table_rec c ?st else ?st)"
    using InsertInto_batch [OF assms(2)] length_Contents [of "batch_at s o1"] last_seq_batch [OF assms(3) b(3,4)]
    by (simp add: rec_record_def Let_def SetContents_Contents [OF b(1,2)] rs_table_def not_less)
  have I: "table_sorted (rs_table st)" "\<forall>e \<in> set (rs_table st) \<union> ?E. eseq e < s" "later (set (rs_table st)) ?E"
    "\<forall>k. sees (set (rs_table st) \<union> ?E) k (ops_get ops k None)" "\<forall>e \<in> set (rs_table st) \<union> ?E. eseq e \<le> max m (rs_max st)"
    using assms(1) by (auto simp: rec_inv_def)
  have T: "table_sorted ?t" "\<forall>e \<in> set ?t. eseq e < s + length o1 \<and> (e \<in> set (rs_table st) \<or> s \<le> eseq e)"
    using MemTableInserter_inv [of "rs_table st" s o1] I(1,2) by auto
  have L: "later (set ?t) ?E"
    unfolding later_def
  proof (intro ballI)
    fix x y assume "x \<in> set ?t" "y \<in> ?E"
    then show "eseq y < eseq x"
      using T(2) I(2) I(3) [unfolded later_def] by (metis UnI2 less_le_trans)
  qed
  have S: "sees (set ?t \<union> ?E) k (ops_get (ops @ o1) k None)" for k
    using MemTableInserter_sees [of "rs_table st" ?E s k "ops_get ops k None" o1] I(2,4) by (simp add: ops_get_append)
  let ?M = "max m (max (rs_max st) (s + length o1 - 1))"
  have B: "\<forall>e \<in> set ?t \<union> ?E. eseq e < s + length o1 \<and> eseq e \<le> ?M"
  proof
    fix e assume "e \<in> set ?t \<union> ?E"
    then have "eseq e < s + length o1 \<and> (eseq e \<le> max m (rs_max st) \<or> eseq e \<le> s + length o1 - 1)"
      using bspec [OF T(2), of e] bspec [OF I(2), of e] bspec [OF I(5), of e] by auto
    then show "eseq e < s + length o1 \<and> eseq e \<le> ?M" by auto
  qed
  have F: "file_ok ?M f" if "f \<in> set (rs_files st)" for f
    using assms(1) that file_ok_mono [of "max m (rs_max st)" f ?M] by (auto simp: rec_inv_def)
  have t: "rs_table ?st = ?t" "rs_files ?st = rs_files st" by (simp_all add: rs_table_def rs_files_def)
  have "rec_inv v n m (s + length o1) (ops @ o1) ?st"
    using assms(1) unfolding rec_inv_def t using T(1) L S B F by simp
  then show ?thesis using r rec_inv_table(1) assms(5) by simp
qed

lemma rec_inv_records:
  assumes "rec_inv v n m s ops st" "\<forall>o1 \<in> set os. \<forall>x \<in> set o1. op_fits x" "1 \<le> s" "s + length (concat os) < 2 ^ 31" "tolerant c"
  shows "rec_inv v n m (s + length (concat os)) (ops @ concat os) (fold (rec_record c) (log_records s os) st)"
  using assms
proof (induction os arbitrary: s ops st)
  case (Cons o1 os)
  have "rec_inv v n m (s + length o1) (ops @ o1) (rec_record c (WriteBatch_Contents (batch_at s o1)) st)"
    using Cons.prems by (intro rec_inv_record) auto
  then show ?case using Cons.IH [of "s + length o1" "ops @ o1"] Cons.prems by (simp add: add.assoc)
qed simp

lemma rec_inv_file:
  assumes "rec_inv v n m s ops st" "rs_mem st = None" "tolerant c" "rc_open c num"
    and "read_all (rc_read c num) (Reader_new f True 0) = log_records s os"
    and "\<forall>o1 \<in> set os. \<forall>x \<in> set o1. op_fits x" "1 \<le> s" "s + length (concat os) < 2 ^ 31"
  shows "rec_inv v n m (s + length (concat os)) (ops @ concat os) (RecoverLogFile c (num, f) st) \<and> rs_mem (RecoverLogFile c (num, f) st) = None"
proof -
  have st: "rs_status st" "st\<lparr>rs_status := True, rs_mem := None\<rparr> = st" using assms(1,2) by (cases st; simp add: rec_inv_def)+
  let ?st = "fold (rec_record c) (log_records s os) st"
  have "RecoverLog_loop c (rc_read c num) (Reader_new f True 0) st = ?st"
    using RecoverLog_loop_fold [OF assms(3) st(1)] assms(5) by simp
  moreover have I: "rec_inv v n m (s + length (concat os)) (ops @ concat os) ?st" using rec_inv_records assms(1,3,6-8) by blast
  then have "rs_status ?st" by (simp add: rec_inv_def)
  ultimately show ?thesis using rec_inv_table [OF I assms(3)] assms(4) st(2) by (simp add: RecoverLogFile_def)
qed

section \<open>Installing the recovered tables\<close>

lemma BySmallestKey_total: "fnumber f \<noteq> fnumber g \<Longrightarrow> BySmallestKey f g \<or> BySmallestKey g f"
  by (auto simp: BySmallestKey_def)

lemma FileSet_insert_set:
  "\<forall>g \<in> set gs. fnumber g \<noteq> fnumber f \<Longrightarrow> set (FileSet_insert f gs) = insert f (set gs) \<and> (distinct gs \<longrightarrow> distinct (FileSet_insert f gs))"
  using BySmallestKey_total by (induction gs) auto

lemma FileSet_fold_set:
  "distinct (map fnumber (gs @ A)) \<Longrightarrow> set (fold FileSet_insert A gs) = set gs \<union> set A \<and> distinct (fold FileSet_insert A gs)"
proof (induction A arbitrary: gs)
  case Nil
  then show ?case by (simp add: distinct_map)
next
  case (Cons f A)
  have "fnumber f \<notin> fnumber ` set gs" using Cons.prems by auto
  then have d: "\<forall>g \<in> set gs. fnumber g \<noteq> fnumber f" "distinct gs" using Cons.prems by (metis imageI, simp add: distinct_map)
  note I = FileSet_insert_set [OF d(1)]
  have "distinct (map fnumber (FileSet_insert f gs @ A))"
  proof -
    have "distinct (FileSet_insert f gs)" "set (FileSet_insert f gs) = insert f (set gs)" using I d(2) by auto
    moreover have "inj_on fnumber (insert f (set gs))" using Cons.prems d(1) by (auto simp: distinct_map)
    ultimately show ?thesis using Cons.prems by (auto simp: distinct_map)
  qed
  then show ?case using Cons.IH [of "FileSet_insert f gs"] I by auto
qed

lemma fresh_files_numbers: "fresh_files n v A \<Longrightarrow> distinct (map fnumber A)"
proof -
  assume "fresh_files n v A"
  then have "sorted_wrt (<) (map fnumber A)"
    by (auto simp: fresh_files_def sorted_wrt_map elim: sorted_wrt_mono_rel [rotated])
  then show ?thesis by (simp add: strict_sorted_iff)
qed

lemma fresh_pair:
  assumes "fresh_files n v A" "f \<in> set A" "g \<in> set A" "fnumber f < fnumber g"
  shows "newer (tset g) (tset f)"
proof -
  have S: "sorted_wrt (\<lambda>f g. fnumber f < fnumber g \<and> later (tset g) (tset f)) A" using assms(1) by (simp add: fresh_files_def)
  obtain i j where ij: "i < length A" "f = A ! i" "j < length A" "g = A ! j" using assms(2,3) by (auto simp: in_set_conv_nth)
  have "i < j"
  proof (rule ccontr)
    assume "\<not> i < j"
    then have "j = i \<or> j < i" by auto
    then show False using sorted_wrt_nth_less [OF S, of j i] ij assms(4) by auto
  qed
  then show ?thesis using sorted_wrt_nth_less [OF S, of i j] ij later_newer by auto
qed

lemma fresh_apply:
  assumes "version_inv m v" "fresh_files n v A" "numbers_below n v" "\<forall>f \<in> set A. file_ok L f" "m \<le> L"
  defines "v' \<equiv> LogAndApply \<lparr>deleted_files = [], new_files = map (Pair 0) A\<rparr> v"
  shows "version_inv L v'" and "version_set v' = added_set A \<union> version_set v"
    and "set (v' l) = set (v l) \<union> (if l = 0 then set A else {})"
proof -
  let ?e = "\<lparr>deleted_files = [], new_files = map (Pair 0) A\<rparr>"
  note d = fresh_files_numbers [OF assms(2)]
  have a: "added_files ?e l = (if l = 0 then fold FileSet_insert A [] else [])" for l
    by (simp add: added_files_def filter_map comp_def)
  have F: "set (fold FileSet_insert A []) = set A" "distinct (fold FileSet_insert A [])" using FileSet_fold_set [of "[]" A] d by auto
  have nd: "is_deleted ?e l = (\<lambda>_. False)" for l by (simp add: is_deleted_def fun_eq_iff)
  have S: "set (v' l) = set (v l) \<union> (if l = 0 then set A else {})" for l
    unfolding v'_def LogAndApply_def nd a set_SaveTo_level using F(1) by auto
  then show "set (v' l) = set (v l) \<union> (if l = 0 then set A else {})" .
  have up: "v' l = v l" if "0 < l" for l using that by (simp add: v'_def LogAndApply_def nd a)
  have nA: "n \<le> fnumber f" "later (tset f) (version_set v)" if "f \<in> set A" for f using assms(2) that by (auto simp: fresh_files_def)
  have nv: "fnumber f < n" if "f \<in> set (v l)" for f l using assms(3) that by (auto simp: numbers_below_def)
  have sub: "tset f \<subseteq> version_set v" if "f \<in> set (v l)" for f l using tset_version [OF assms(1) that] .
  have lev: "level_set v' l = level_set v l \<union> (if l = 0 then added_set A else {})" for l
    using S [of l] by (auto simp: level_set_def added_set_def)
  have "(\<Union>l \<in> {..<kNumLevels}. if l = 0 then added_set A else {}) = added_set A"
    by (auto split: if_splits intro!: bexI [of _ 0] simp: kNumLevels_def)
  then show vs: "version_set v' = added_set A \<union> version_set v" by (auto simp: version_set_def lev UN_Un_distrib)
  have lat: "newer (added_set A) (level_set v l)" for l
  proof -
    have "level_set v l \<subseteq> version_set v" using sub by (auto simp: level_set_def)
    then have "later (tset f) (level_set v l)" if "f \<in> set A" for f using nA(2) [OF that] later_mono by blast
    then have "later (added_set A) (level_set v l)" by (auto simp: later_def added_set_def)
    then show ?thesis by (rule later_newer)
  qed
  note V = assms(1) [unfolded version_inv_def]
  have ok: "file_ok L f" if "f \<in> set (v l)" for f l using version_inv_ok [OF assms(1) that] assms(5) by (rule file_ok_mono)
  have 1: "\<forall>l. \<forall>f \<in> set (v' l). file_ok L f" using S ok assms(4) by (auto split: if_splits)
  have 2: "\<forall>l \<ge> kNumLevels. v' l = []" using V up by (auto simp: kNumLevels_def)
  have 3: "\<forall>l > 0. disjoint_files (v' l)" using V up by auto
  have 4: "\<forall>f \<in> set (v' 0). \<forall>g \<in> set (v' 0). fnumber f < fnumber g \<longrightarrow> newer (tset g) (tset f)"
  proof (intro ballI impI)
    fix f g assume fg: "f \<in> set (v' 0)" "g \<in> set (v' 0)" "fnumber f < fnumber g"
    consider "f \<in> set (v 0)" "g \<in> set (v 0)" | "f \<in> set A" "g \<in> set A" | "f \<in> set (v 0)" "g \<in> set A" | "f \<in> set A" "g \<in> set (v 0)"
      using fg(1,2) S [of 0] by auto
    then show "newer (tset g) (tset f)"
    proof cases
      case 1
      then show ?thesis using V fg(3) by blast
    next
      case 2
      then show ?thesis using fresh_pair [OF assms(2) 2] fg(3) by blast
    next
      case 3
      then show ?thesis using later_newer [OF later_mono [OF nA(2) [OF 3(2)] order_refl sub [OF 3(1)]]] by blast
    next
      case 4
      then show ?thesis using nA(1) nv fg(3) by fastforce
    qed
  qed
  have 5: "\<forall>l m. l < m \<longrightarrow> newer (level_set v' l) (level_set v' m)"
    using V lat by (auto simp: lev)
  have 6: "\<forall>l m. \<forall>f \<in> set (v' l). \<forall>g \<in> set (v' m). fnumber f = fnumber g \<longrightarrow> l = m \<and> f = g"
  proof (intro allI ballI impI)
    fix l m f g assume fg: "f \<in> set (v' l)" "g \<in> set (v' m)" "fnumber f = fnumber g"
    consider "f \<in> set (v l)" "g \<in> set (v m)" | "f \<in> set A" "g \<in> set A" "l = 0" "m = 0" | "f \<in> set (v l)" "g \<in> set A" | "f \<in> set A" "g \<in> set (v m)"
      using fg(1,2) S [of l] S [of m] by (auto split: if_splits)
    then show "l = m \<and> f = g"
    proof cases
      case 1
      then show ?thesis using V fg(3) by blast
    next
      case 2
      then show ?thesis using d fg(3) by (auto simp: distinct_map inj_on_def)
    qed (use nA(1) nv fg(3) in fastforce)+
  qed
  have 7: "distinct (v' l)" for l
  proof (cases "l = 0")
    case True
    have "set (v 0) \<inter> set A = {}" using nA(1) nv by fastforce
    moreover have "distinct (v 0)" using V by blast
    ultimately show ?thesis using True F distinct_SaveTo_level [of "v 0" "fold FileSet_insert A []"] by (simp add: v'_def LogAndApply_def a)
  next
    case False
    then show ?thesis using up V by simp
  qed
  show "version_inv L v'" unfolding version_inv_def using 1 2 3 4 5 6 7 by blast
qed

end
