(* ===== verification/Durability.thy ===== *)
theory Durability
  imports RecoveryProps
begin

text \<open>
  The run of a database with its log, the invariant that ties its memtables to the log files, and
  what opening its files after a crash gives.
\<close>

section \<open>Runs\<close>

fun log_step :: "db_event \<Rightarrow> DBLog \<Rightarrow> DBLog" where
  "log_step (WriteEv e ops) d = snd (Write_logged io_ok e (fold WriteBatch_apply ops WriteBatch_Clear) d)"
| "log_step (BackgroundEv e) d = Background_logged e d"
| "log_step SnapshotEv d = d\<lparr>live := snd (GetSnapshot (live d))\<rparr>"
| "log_step (ReleaseEv s) d = d\<lparr>live := ReleaseSnapshot s (live d)\<rparr>"

fun log_along :: "(db_event \<Rightarrow> DBImpl \<Rightarrow> bool) \<Rightarrow> db_event list \<Rightarrow> DBLog \<Rightarrow> bool" where
  "log_along P [] d \<longleftrightarrow> True"
| "log_along P (ev # evs) d \<longleftrightarrow> P ev (live d) \<and> log_along P evs (log_step ev d)"

text \<open>The operations of the writes that succeed.\<close>

fun writes :: "db_event list \<Rightarrow> batch_op list list" where
  "writes [] = []"
| "writes (WriteEv e ops # evs) = (if env_room e = RoomError then writes evs else ops # writes evs)"
| "writes (_ # evs) = writes evs"

definition quiet_ok :: "db_event \<Rightarrow> DBImpl \<Rightarrow> bool" where
  "quiet_ok ev db \<longleftrightarrow> event_ok ev db \<and> merges_alone ev db"

section \<open>The log files hold the memtables\<close>

text \<open>\<open>ow\<close> are the writes that are in table files, \<open>oi\<close> those of the immutable memtable, \<open>om\<close> those of the other.\<close>

definition dl_files :: "nat \<Rightarrow> batch_op list list \<Rightarrow> batch_op list list \<Rightarrow> DBLog \<Rightarrow> bool" where
  "dl_files s0 oi om d \<longleftrightarrow>
     (let s1 = s0 + length (concat oi); open_log = (logfile_number d, write_all (log_records s1 om) Writer_new)
      in 0 < log_number d \<and>
         (case db_imm (live d) of
            None \<Rightarrow> oi = [] \<and> log_number d \<le> logfile_number d \<and> log_files d = [open_log]
          | Some t \<Rightarrow> t = MemTableInserter (concat oi) s0 [] \<and>
              (\<exists>p. log_number d \<le> p \<and> p < logfile_number d \<and> log_files d = [(p, write_all (log_records s0 oi) Writer_new), open_log])))"

definition dl_inv :: "nat \<Rightarrow> batch_op list list \<Rightarrow> batch_op list list \<Rightarrow> batch_op list list \<Rightarrow> DBLog \<Rightarrow> bool" where
  "dl_inv s0 ow oi om d \<longleftrightarrow>
     DB_inv (live d) \<and> 1 \<le> s0 \<and> last_sequence (live d) + 1 = s0 + length (concat oi) + length (concat om) \<and>
     db_mem (live d) = MemTableInserter (concat om) (s0 + length (concat oi)) [] \<and>
     (\<forall>e \<in> version_set (current (live d)). eseq e < s0 \<and> eseq e \<le> man_last_sequence d) \<and>
     (\<forall>k. sees (version_set (current (live d))) k (ops_get (concat ow) k None)) \<and>
     numbers_below (man_next_file d) (current (live d)) \<and> logfile_number d < next_file_number (live d) \<and>
     dl_files s0 oi om d \<and> (\<forall>ops \<in> set (oi @ om). \<forall>x \<in> set ops. op_fits x)"

lemma dl_files_cong:
  "db_imm (live d') = db_imm (live d) \<Longrightarrow> logfile_number d' = logfile_number d \<Longrightarrow> log_number d' = log_number d \<Longrightarrow>
   log_files d' = log_files d \<Longrightarrow> dl_files s0 oi om d' = dl_files s0 oi om d"
  by (simp add: dl_files_def Let_def cong: option.case_cong)

lemma CompactMemTable_version:
  assumes "DB_inv db" "db_imm db = Some t"
  shows "version_set (current (CompactMemTable bytes db)) = set t \<union> version_set (current db)"
    and "next_file_number db \<le> next_file_number (CompactMemTable bytes db)"
proof -
  have "version_set (current (CompactMemTable bytes db)) = set t \<union> version_set (current db) \<and>
      next_file_number db \<le> next_file_number (CompactMemTable bytes db)"
  proof (cases "t = []")
    case True
    have "LogAndApply \<lparr>deleted_files = [], new_files = []\<rparr> v = v" for v
      by (simp add: LogAndApply_def added_files_def is_deleted_def)
    then show ?thesis using True assms(2) by (simp add: CompactMemTable_def WriteLevel0Table_def)
  next
    case False
    have inv: "version_inv (last_sequence db) (current db)" "table_ok (last_sequence db) t"
      "later (set t) (version_set (current db))" "numbers_below (next_file_number db) (current db)"
      using assms by (auto simp: DB_inv_def imm_set_def)
    note F = flush_version [OF inv(1,2) False inv(3,4) refl refl, where bytes = bytes and limit = "kMaxGrandParentOverlapBytes (limits db)"]
    show ?thesis using F(2) assms(2) False by (simp add: CompactMemTable_def WriteLevel0Table_def Let_def)
  qed
  then show "version_set (current (CompactMemTable bytes db)) = set t \<union> version_set (current db)"
    "next_file_number db \<le> next_file_number (CompactMemTable bytes db)" by auto
qed

lemma compacted_inv:
  assumes "dl_inv s0 ow oi om d" "db_imm (live d) = Some t"
  shows "dl_inv (s0 + length (concat oi)) (ow @ oi) [] om (memtable_compacted (CompactMemTable bytes (live d)) d)"
proof -
  let ?db = "CompactMemTable bytes (live d)" and ?d = "memtable_compacted (CompactMemTable bytes (live d)) d"
  have I: "DB_inv (live d)" "\<forall>e \<in> version_set (current (live d)). eseq e < s0"
    "\<forall>k. sees (version_set (current (live d))) k (ops_get (concat ow) k None)"
    using assms(1) by (auto simp: dl_inv_def)
  obtain p where F: "t = MemTableInserter (concat oi) s0 []" "log_number d \<le> p" "p < logfile_number d" "0 < log_number d"
      "log_files d = [(p, write_all (log_records s0 oi) Writer_new), (logfile_number d, write_all (log_records (s0 + length (concat oi)) om) Writer_new)]"
    using assms by (auto simp: dl_inv_def dl_files_def Let_def)
  note K = CompactMemTable_keeps [OF I(1), of bytes] and V = CompactMemTable_version [OF I(1) assms(2), of bytes]
  have live: "live ?d = ?db" "log_number ?d = logfile_number d" "logfile_number ?d = logfile_number d"
    "man_next_file ?d = next_file_number ?db" "man_last_sequence ?d = last_sequence ?db"
    "log_files ?d = [(logfile_number d, write_all (log_records (s0 + length (concat oi)) om) Writer_new)]"
    using F by (simp_all add: memtable_compacted_def DeleteObsoleteFiles_def manifest_written_def)
  have T: "\<forall>e \<in> set t. eseq e < s0 + length (concat oi)" using MemTableInserter_inv [of "[]" s0 "concat oi"] F(1) by simp
  have "sees (set t \<union> version_set (current (live d))) k (ops_get (concat (ow @ oi)) k None)" for k
    using MemTableInserter_sees [of "[]" "version_set (current (live d))" s0 k "ops_get (concat ow) k None" "concat oi"] I(2,3) F(1)
    by (simp add: ops_get_append)
  moreover have "\<forall>e \<in> version_set (current ?db). eseq e < s0 + length (concat oi) \<and> eseq e \<le> last_sequence ?db"
    using V(1) T I(2) K(1) version_set_seq [of "last_sequence ?db" "current ?db"] by (fastforce simp: DB_inv_def)
  moreover have "numbers_below (next_file_number ?db) (current ?db)" using K(1) by (simp add: DB_inv_def)
  moreover have "\<forall>ops \<in> set om. \<forall>x \<in> set ops. op_fits x" using assms(1) unfolding dl_inv_def by auto
  moreover have "1 \<le> s0" "last_sequence (live d) + 1 = s0 + length (concat oi) + length (concat om)"
    "db_mem (live d) = MemTableInserter (concat om) (s0 + length (concat oi)) []" "logfile_number d < next_file_number (live d)"
    using assms(1) by (simp_all add: dl_inv_def)
  ultimately show ?thesis
    using K V F(3,4) unfolding dl_inv_def dl_files_def live by (simp add: Let_def)
qed

lemma switched_inv:
  assumes "dl_inv s0 ow [] om d" "db_imm (live d) = None"
    and "d' = d\<lparr>live := (live d)\<lparr>next_file_number := next_file_number (live d) + 1, db_imm := Some (db_mem (live d)), db_mem := []\<rparr>,
      logfile_number := next_file_number (live d), log_files := log_files d @ [(next_file_number (live d), Writer_new)]\<rparr>"
  shows "dl_inv s0 ow om [] d'"
proof -
  have I: "DB_inv (live d)" "dl_files s0 [] om d" "logfile_number d < next_file_number (live d)" using assms(1) by (simp_all add: dl_inv_def)
  have "DB_inv (live d')"
    using I(1) assms(2,3) by (auto simp: DB_inv_def imm_set_def numbers_below_Suc)
  moreover have "dl_files s0 om [] d'"
    using I(2,3) assms(1,2,3) by (auto simp: dl_files_def dl_inv_def Let_def write_all_def)
  moreover have "\<forall>ops \<in> set om. \<forall>x \<in> set ops. op_fits x" using assms(1) unfolding dl_inv_def by auto
  ultimately show ?thesis using assms(1,3) unfolding dl_inv_def by simp
qed

text \<open>
  From \<open>d\<close> to \<open>d'\<close> the writes \<open>ws\<close> are done: either they are appended to the open log file, or
  there is a newer one, which holds some of them only.
\<close>

definition log_ext :: "batch_op list list \<Rightarrow> DBLog \<Rightarrow> batch_op list list \<Rightarrow> DBLog \<Rightarrow> batch_op list list \<Rightarrow> bool" where
  "log_ext om d om' d' ws \<longleftrightarrow> last_sequence (live d') = last_sequence (live d) + length (concat ws) \<and>
     (logfile_number d' = logfile_number d \<and> om' = om @ ws \<or> logfile_number d < logfile_number d' \<and> length om' \<le> length ws)"

lemma log_ext_same: "last_sequence (live d') = last_sequence (live d) \<Longrightarrow> logfile_number d' = logfile_number d \<Longrightarrow> log_ext om d om d' []"
  by (simp add: log_ext_def)

lemma log_ext_trans: "log_ext om d om1 d1 ws \<Longrightarrow> log_ext om1 d1 om2 d2 us \<Longrightarrow> log_ext om d om2 d2 (ws @ us)"
  by (auto simp: log_ext_def)

lemma CompactMemTable_seq: "last_sequence (CompactMemTable bytes db) = last_sequence db"
  by (auto simp: CompactMemTable_def WriteLevel0Table_def Let_def split: option.splits)

lemma MakeRoom_logged_inv:
  assumes "dl_inv s0 ow oi om d" "env_room e \<noteq> RoomError"
  shows "\<exists>s ow' oi' om'. ow' @ oi' @ om' = ow @ oi @ om \<and> dl_inv s ow' oi' om' (MakeRoom_logged e d) \<and> log_ext om d om' (MakeRoom_logged e d) [] \<and>
    MakeRoomForWrite e (live d) = (True, live (MakeRoom_logged e d))"
proof (cases "env_room e")
  case RoomFits
  then show ?thesis using assms(1) log_ext_same [of d d om] by (simp add: MakeRoom_logged_def MakeRoomForWrite_def) blast
next
  case RoomError
  then show ?thesis using assms(2) by simp
next
  case RoomSwitch
  let ?d1 = "if db_imm (live d) \<noteq> None then memtable_compacted (CompactMemTable (env_bytes e) (live d)) d else d"
  obtain s ow' where d1: "ow' @ om = ow @ oi @ om" "dl_inv s ow' [] om ?d1" "db_imm (live ?d1) = None"
  proof (cases "db_imm (live d)")
    case None
    then have "oi = []" using assms(1) by (simp add: dl_inv_def dl_files_def Let_def)
    then show ?thesis using that [of ow s0] None assms(1) by simp
  next
    case (Some t)
    have "DB_inv (live d)" using assms(1) by (simp add: dl_inv_def)
    from CompactMemTable_keeps(3) [OF this] show ?thesis
      using that [of "ow @ oi"] Some compacted_inv [OF assms(1) Some, of "env_bytes e"]
      by (simp add: memtable_compacted_def DeleteObsoleteFiles_def manifest_written_def)
  qed
  have l: "live ?d1 = (if db_imm (live d) \<noteq> None then CompactMemTable (env_bytes e) (live d) else live d)"
    by (simp add: memtable_compacted_def DeleteObsoleteFiles_def manifest_written_def)
  have M: "MakeRoomForWrite e (live d) = (True, (live ?d1)\<lparr>next_file_number := next_file_number (live ?d1) + 1,
      db_imm := Some (db_mem (live ?d1)), db_mem := []\<rparr>)"
    unfolding l using RoomSwitch by (simp add: MakeRoomForWrite_def Let_def)
  have "dl_inv s ow' om [] (MakeRoom_logged e d)"
    by (rule switched_inv [OF d1(2,3)]) (simp add: MakeRoom_logged_def RoomSwitch Let_def M)
  moreover have "MakeRoomForWrite e (live d) = (True, live (MakeRoom_logged e d))"
    using M by (simp add: MakeRoom_logged_def RoomSwitch Let_def)
  moreover have "logfile_number ?d1 = logfile_number d" "last_sequence (live ?d1) = last_sequence (live d)"
    by (simp_all add: memtable_compacted_def DeleteObsoleteFiles_def manifest_written_def CompactMemTable_seq)
  then have "logfile_number d < next_file_number (live ?d1)" "last_sequence (live ?d1) = last_sequence (live d)"
    using d1(2) by (simp_all add: dl_inv_def)
  then have "log_ext om d [] (MakeRoom_logged e d) []"
    using M by (simp add: log_ext_def MakeRoom_logged_def RoomSwitch Let_def)
  ultimately show ?thesis using d1(1) by (intro exI [of _ s] exI [of _ ow'] exI [of _ om] exI [of _ "[]"]) simp
qed

lemma AddRecord_write_all: "AddRecord io_ok x (write_all xs Writer_new) = (True, write_all (xs @ [x]) Writer_new)"
proof -
  obtain w where "AddRecord io_ok x (write_all xs Writer_new) = (True, w)"
    using AddRecord_frags [of True x "write_all xs Writer_new"] by (auto simp: AddRecord_def)
  then show ?thesis by (simp add: write_all_def)
qed

lemma MakeRoom_env_log: "MakeRoomForWrite (e\<lparr>env_log := b\<rparr>) db = MakeRoomForWrite e db"
  by (cases "env_room e") (simp_all add: MakeRoomForWrite_def)

lemma Write_logged_inv:
  assumes "dl_inv s0 ow oi om d" "env_room e \<noteq> RoomError" "\<forall>x \<in> set ops. op_fits x"
    and "Write_logged io_ok e (fold WriteBatch_apply ops WriteBatch_Clear) d = (st, d')"
  shows "st \<and> (\<exists>s ow' oi' om'. ow' @ oi' @ om' = ow @ oi @ om @ [ops] \<and> dl_inv s ow' oi' om' d' \<and> log_ext om d om' d' [ops])"
proof -
  let ?b = "fold WriteBatch_apply ops WriteBatch_Clear" and ?d1 = "MakeRoom_logged e d" and ?e = "e\<lparr>env_log := True\<rparr>"
  obtain s ow' oi' om' where R: "ow' @ oi' @ om' = ow @ oi @ om" "dl_inv s ow' oi' om' ?d1" "MakeRoomForWrite e (live d) = (True, live ?d1)"
    "log_ext om d om' ?d1 []"
    using MakeRoom_logged_inv [OF assms(1,2)] by blast
  let ?s1 = "s + length (concat oi')" and ?db1 = "live ?d1"
  have I: "last_sequence ?db1 + 1 = ?s1 + length (concat om')" "db_mem ?db1 = MemTableInserter (concat om') ?s1 []" "dl_files s oi' om' ?d1"
    using R(2) by (simp_all add: dl_inv_def)
  let ?n = "last_sequence ?db1 + 1"
  have up: "?b\<lparr>wb_sequence := ?n\<rparr> = batch_at ?n ops" by (simp add: batch_at_def)
  have cnt: "wb_count ?b = length ops" by (simp add: WriteBatch_fold WriteBatch_Clear_def)
  have L: "log_files ?d1 = butlast (log_files ?d1) @ [(logfile_number ?d1, write_all (log_records ?s1 om') Writer_new)]"
    using I(3) by (auto simp: dl_files_def Let_def split: option.splits)
  then have last: "snd (last (log_files ?d1)) = write_all (log_records ?s1 om') Writer_new" by (metis last_snoc snd_conv)
  have A: "AddRecord io_ok (WriteBatch_Contents (batch_at ?n ops)) (snd (last (log_files ?d1))) = (True, write_all (log_records ?s1 (om' @ [ops])) Writer_new)"
    unfolding last AddRecord_write_all log_records_append I(1) by simp
  have m: "MakeRoomForWrite ?e (live d) = (True, ?db1)" using R(3) MakeRoom_env_log [of True e] by simp
  have W: "DB_Write ?e ?b (live d) = (True, ?db1\<lparr>db_mem := MemTableInserter ops ?n (db_mem ?db1), last_sequence := last_sequence ?db1 + length ops\<rparr>)"
    using InsertInto_batch [OF assms(3), of ?n "db_mem ?db1"] cnt by (simp add: DB_Write_def m Let_def batch_at_def)
  let ?db = "?db1\<lparr>db_mem := MemTableInserter ops ?n (db_mem ?db1), last_sequence := last_sequence ?db1 + length ops\<rparr>"
  have d': "st" "d' = ?d1\<lparr>live := ?db, log_files := butlast (log_files ?d1) @ [(logfile_number ?d1, write_all (log_records ?s1 (om' @ [ops])) Writer_new)]\<rparr>"
    using assms(2,4) A W up by (simp_all add: Write_logged_def Let_def)
  have inv: "DB_inv ?db" using DB_Write_ops(2) [OF _ assms(3) W] assms(1) by (simp add: dl_inv_def)
  have mem: "MemTableInserter ops ?n (db_mem ?db1) = MemTableInserter (concat (om' @ [ops])) ?s1 []"
    unfolding I(1,2) by (simp add: MemTableInserter_append)
  have "dl_files s oi' (om' @ [ops]) d'"
    using I(3) d'(2) by (auto simp: dl_files_def Let_def split: option.splits)
  moreover have "\<forall>ops \<in> set (oi' @ om'). \<forall>x \<in> set ops. op_fits x" using R(2) unfolding dl_inv_def by blast
  ultimately have "dl_inv s ow' oi' (om' @ [ops]) d'"
    using R(2) inv mem d'(2) I(1) assms(3) unfolding dl_inv_def by auto
  moreover have "log_ext om' ?d1 (om' @ [ops]) d' [ops]" using d'(2) by (simp add: log_ext_def)
  from log_ext_trans [OF R(4) this] have "log_ext om d (om' @ [ops]) d' [ops]" by simp
  ultimately show ?thesis using d'(1) R(1)
    by (intro conjI exI [of _ s] exI [of _ ow'] exI [of _ oi'] exI [of _ "om' @ [ops]"]) simp_all
qed

section \<open>Background steps\<close>

text \<open>Whether a background step writes to the manifest.\<close>

definition installs :: "bg_env \<Rightarrow> DBImpl \<Rightarrow> bool" where
  "installs e db \<longleftrightarrow> bg_ok e \<and> (db_imm db \<noteq> None \<or> PickCompaction (bg_pick e) db \<noteq> None)"

lemma cs_next_simps [simp]:
  "cs_next_file (FinishCompactionOutputFile bytes st) = cs_next_file st"
  "cs_next_file (snd (ShouldStopBefore lims c e st)) = cs_next_file st"
  "cs_next_file (snd (drop_entry snap v l e st)) = cs_next_file st"
  by (simp_all add: FinishCompactionOutputFile_def ShouldStopBefore_def drop_entry_def Let_def split: option.splits prod.splits)

lemma add_entry_next: "cs_next_file st \<le> cs_next_file (add_entry env lims e st)"
  by (simp add: add_entry_def OpenCompactionOutputFile_def Let_def)

lemma compaction_next: "cs_next_file st \<le> cs_next_file (compaction_loop env lims snap v c es st)"
proof (induction es arbitrary: st)
  case (Cons e es)
  obtain stop st1 where S: "ShouldStopBefore lims c e st = (stop, st1)" by fastforce
  define st2 where "st2 = (if stop \<and> builder st1 \<noteq> None then FinishCompactionOutputFile (bg_bytes env) st1 else st1)"
  obtain x st3 where D: "drop_entry snap v (clevel c) e st2 = (x, st3)" by fastforce
  have "cs_next_file st1 = cs_next_file st" using cs_next_simps(2) [of lims c e st] S by simp
  moreover have "cs_next_file st2 = cs_next_file st1" by (simp add: st2_def)
  moreover have "cs_next_file st3 = cs_next_file st2" using cs_next_simps(3) [of snap v "clevel c" e st2] D by simp
  ultimately have "cs_next_file st \<le> cs_next_file (if x then st3 else add_entry env lims e st3)" using add_entry_next [of st3 env lims e] by simp
  then show ?case using Cons.IH [of "if x then st3 else add_entry env lims e st3"] S D by (simp add: Let_def st2_def)
qed simp

text \<open>What a step without an immutable memtable leaves alone.\<close>

lemma DoCompactionWork_frame:
  "db_mem (DoCompactionWork e c db) = db_mem db" "db_imm (DoCompactionWork e c db) = db_imm db"
  "last_sequence (DoCompactionWork e c db) = last_sequence db" "next_file_number db \<le> next_file_number (DoCompactionWork e c db)"
  "\<not> bg_ok e \<Longrightarrow> current (DoCompactionWork e c db) = current db"
  "DoCompactionWork e c (db\<lparr>db_mem := t\<rparr>) = (DoCompactionWork e c db)\<lparr>db_mem := t\<rparr>"
proof -
  show "next_file_number db \<le> next_file_number (DoCompactionWork e c db)"
    using compaction_next [of "CompactionState_new (next_file_number db)"] by (simp add: DoCompactionWork_def CompactionState_new_def Let_def)
  show "DoCompactionWork e c (db\<lparr>db_mem := t\<rparr>) = (DoCompactionWork e c db)\<lparr>db_mem := t\<rparr>"
    by (cases "snapshots db") (simp_all add: DoCompactionWork_def Let_def)
qed (simp_all add: DoCompactionWork_def Let_def)

lemma BackgroundCompaction_frame:
  assumes "db_imm db = None"
  shows "db_mem (BackgroundCompaction e db) = db_mem db" and "db_imm (BackgroundCompaction e db) = None"
    and "last_sequence (BackgroundCompaction e db) = last_sequence db"
    and "next_file_number db \<le> next_file_number (BackgroundCompaction e db)"
    and "\<not> installs e db \<Longrightarrow> current (BackgroundCompaction e db) = current db"
    and "BackgroundCompaction e (db\<lparr>db_mem := t\<rparr>) = (BackgroundCompaction e db)\<lparr>db_mem := t\<rparr>"
proof -
  let ?cp = "\<lambda>c limit. db\<lparr>compact_pointer := (compact_pointer db)(clevel c := Some limit)\<rparr>"
  have P: "PickCompaction p (db\<lparr>db_mem := t\<rparr>) = PickCompaction p db" for p
    by (simp add: PickCompaction_def Let_def split: pick.splits)
  have D: "next_file_number db \<le> next_file_number (DoCompactionWork e c (?cp c limit))" for c limit
    using DoCompactionWork_frame(4) [where db = "?cp c limit" and e = e and c = c] by simp
  have U: "DoCompactionWork e c (db\<lparr>db_mem := t, compact_pointer := q\<rparr>) = (DoCompactionWork e c (db\<lparr>compact_pointer := q\<rparr>))\<lparr>db_mem := t\<rparr>" for c q
  proof -
    have "db\<lparr>db_mem := t, compact_pointer := q\<rparr> = db\<lparr>compact_pointer := q, db_mem := t\<rparr>" by simp
    then show ?thesis using DoCompactionWork_frame(6) [where db = "db\<lparr>compact_pointer := q\<rparr>" and t = t and e = e and c = c] by (simp only:)
  qed
  show "db_mem (BackgroundCompaction e db) = db_mem db" "db_imm (BackgroundCompaction e db) = None"
    "last_sequence (BackgroundCompaction e db) = last_sequence db" "next_file_number db \<le> next_file_number (BackgroundCompaction e db)"
    using assms D by (auto simp: BackgroundCompaction_def DoCompactionWork_frame Let_def split: option.splits)
  show "current (BackgroundCompaction e db) = current db" if "\<not> installs e db"
    using assms that by (auto simp: BackgroundCompaction_def DoCompactionWork_frame installs_def Let_def split: option.splits)
  show "BackgroundCompaction e (db\<lparr>db_mem := t\<rparr>) = (BackgroundCompaction e db)\<lparr>db_mem := t\<rparr>"
    using assms by (auto simp: BackgroundCompaction_def P U Let_def split: option.splits)
qed

lemma MemTableInserter_subset: "set t \<subseteq> set (MemTableInserter ops s t)"
  by (induction ops s t rule: MemTableInserter.induct) (auto simp: set_MemTable_Add)

lemma version_seqs:
  assumes "DB_inv db" "db_imm db = None" "db_mem db = MemTableInserter ops s []" "last_sequence db + 1 = s + length ops" "e \<in> version_set (current db)"
  shows "eseq e < s"
proof (cases ops)
  case Nil
  then show ?thesis using assms version_set_seq [of "last_sequence db" "current db" e] by (simp add: DB_inv_def)
next
  case (Cons x xs)
  have "\<exists>y \<in> set (MemTableInserter (x # xs) s []). eseq y = s"
  proof (cases x)
    case (Handler_Put k v)
    then show ?thesis using MemTableInserter_subset [of "MemTable_Add s kTypeValue k v []" xs "s + 1"]
      by (intro bexI [of _ "Entry k s kTypeValue v"]) (auto simp: set_MemTable_Add)
  next
    case (Handler_Delete k)
    then show ?thesis using MemTableInserter_subset [of "MemTable_Add s kTypeDeletion k [] []" xs "s + 1"]
      by (intro bexI [of _ "Entry k s kTypeDeletion []"]) (auto simp: set_MemTable_Add)
  qed
  then show ?thesis using assms(1,3,5) Cons by (auto simp: DB_inv_def later_def)
qed

lemma Background_logged_merge:
  assumes "dl_files s0 oi om d" "db_imm (live d) = None"
  shows "Background_logged e d = (if installs e (live d) then manifest_written (d\<lparr>live := BackgroundCompaction e (live d)\<rparr>)
    else d\<lparr>live := BackgroundCompaction e (live d)\<rparr>)"
proof -
  have "log_number d \<le> logfile_number d" "\<exists>w. log_files d = [(logfile_number d, w)]" using assms by (auto simp: dl_files_def Let_def)
  then have "DeleteObsoleteFiles (manifest_written (d\<lparr>live := db\<rparr>)) = manifest_written (d\<lparr>live := db\<rparr>)"
    "DeleteObsoleteFiles (d\<lparr>live := db\<rparr>) = d\<lparr>live := db\<rparr>" for db
    by (cases d; auto simp: DeleteObsoleteFiles_def manifest_written_def)+
  then show ?thesis using assms(2) by (auto simp: Background_logged_def installs_def Let_def split: option.splits)
qed

lemma Background_logged_inv:
  assumes "dl_inv s0 ow oi om d" "quiet_ok (BackgroundEv e) (live d)"
  shows "\<exists>s ow' oi'. ow' @ oi' @ om = ow @ oi @ om \<and> dl_inv s ow' oi' om (Background_logged e d)"
proof -
  let ?db = "live d" and ?db' = "BackgroundCompaction e (live d)"
  have I: "DB_inv ?db" "numbers_below (man_next_file d) (current ?db)" "logfile_number d < next_file_number ?db" "dl_files s0 oi om d"
    using assms(1) by (simp_all add: dl_inv_def)
  have ok: "db_imm ?db \<noteq> None \<or> snapshots ?db = []" "pick_ok (bg_pick e) ?db" using assms(2) by (simp_all add: quiet_ok_def)
  consider t where "db_imm ?db = Some t" "bg_ok e" | t where "db_imm ?db = Some t" "\<not> bg_ok e" | "db_imm ?db = None" by fastforce
  then show ?thesis
  proof cases
    case (1 t)
    then have "Background_logged e d = memtable_compacted (CompactMemTable (bg_bytes e) ?db) d"
      by (simp add: Background_logged_def BackgroundCompaction_def)
    then show ?thesis using compacted_inv [OF assms(1) 1(1)] by (intro exI [of _ "s0 + length (concat oi)"] exI [of _ "ow @ oi"] exI [of _ "[]"]) simp
  next
    case (2 t)
    then have b: "Background_logged e d = d\<lparr>live := ?db\<lparr>next_file_number := next_file_number ?db + 1\<rparr>\<rparr>"
      by (simp add: Background_logged_def BackgroundCompaction_def installs_def)
    have "DB_inv (?db\<lparr>next_file_number := next_file_number ?db + 1\<rparr>)" using I(1) by (simp add: DB_inv_def imm_set_def numbers_below_Suc)
    then have "dl_inv s0 ow oi om (Background_logged e d)" using assms(1) dl_files_cong [of "Background_logged e d" d s0 oi om] unfolding b dl_inv_def by simp
    then show ?thesis by blast
  next
    case 3
    note F = BackgroundCompaction_frame [OF 3, of e]
    have oi: "oi = []" using I(4) 3 by (simp add: dl_files_def Let_def)
    have S: "last_sequence ?db + 1 = s0 + length (concat om)" "db_mem ?db = MemTableInserter (concat om) s0 []"
      "\<forall>k. sees (version_set (current ?db)) k (ops_get (concat ow) k None)"
      using assms(1) oi by (simp_all add: dl_inv_def)
    have inv: "DB_inv ?db'" using BackgroundCompaction_keeps(1) [OF I(1) ok DB_Get_sees [OF I(1)]] .
    have "DB_inv (?db\<lparr>db_mem := []\<rparr>)" using I(1) by (simp add: DB_inv_def imm_set_def)
    moreover have "db_set (?db\<lparr>db_mem := []\<rparr>) = version_set (current ?db)" using 3 by (simp add: db_set_def imm_set_def)
    moreover have "pick_ok (bg_pick e) (?db\<lparr>db_mem := []\<rparr>)" using ok(2) by (simp add: pick_ok_def split: pick.splits)
    ultimately have "sees (db_set (BackgroundCompaction e (?db\<lparr>db_mem := []\<rparr>))) k (ops_get (concat ow) k None)" for k
      using BackgroundCompaction_keeps(2) [of "?db\<lparr>db_mem := []\<rparr>" e k "ops_get (concat ow) k None"] ok(1) S(3) 3 by simp
    then have V: "sees (version_set (current ?db')) k (ops_get (concat ow) k None)" for k
      using F(2,6) by (simp add: db_set_def imm_set_def)
    have Q: "eseq x < s0" if "x \<in> version_set (current ?db')" for x
      using version_seqs [OF inv F(2), of "concat om" s0 x] F(1,3) S(1,2) that by simp
    have N: "numbers_below (next_file_number ?db') (current ?db')" using inv by (simp add: DB_inv_def)
    have L: "x \<in> version_set (current ?db') \<Longrightarrow> eseq x \<le> last_sequence ?db'" for x
      using inv version_set_seq [of "last_sequence ?db'" "current ?db'" x] by (simp add: DB_inv_def)
    have df: "dl_files s0 [] om (d'\<lparr>live := ?db'\<rparr>)" if "logfile_number d' = logfile_number d" "log_number d' = log_number d" "log_files d' = log_files d" for d'
      using I(4) 3 F(2) that oi dl_files_cong [of "d'\<lparr>live := ?db'\<rparr>" d] by simp
    have fits: "\<forall>ops \<in> set om. \<forall>x \<in> set ops. op_fits x" using assms(1) unfolding dl_inv_def by auto
    have "dl_inv s0 ow [] om (Background_logged e d)"
    proof (cases "installs e ?db")
      case True
      then have b: "Background_logged e d = (d\<lparr>man_next_file := next_file_number ?db', man_last_sequence := last_sequence ?db'\<rparr>)\<lparr>live := ?db'\<rparr>"
        using Background_logged_merge [OF I(4) 3, of e] by (simp add: manifest_written_def)
      show ?thesis unfolding b dl_inv_def using inv F(1,3,4) S(1,2) V Q L N fits I(3) df [of "d\<lparr>man_next_file := next_file_number ?db', man_last_sequence := last_sequence ?db'\<rparr>"] assms(1)
        by (simp add: dl_inv_def)
    next
      case False
      then have b: "Background_logged e d = d\<lparr>live := ?db'\<rparr>" using Background_logged_merge [OF I(4) 3, of e] by simp
      show ?thesis unfolding b dl_inv_def using inv F(1,3,4,5) False S(1,2) V Q I(2,3) fits df [of d] assms(1)
        by (simp add: dl_inv_def)
    qed
    then show ?thesis using oi by (intro exI [of _ s0] exI [of _ ow] exI [of _ "[]"]) simp
  qed
qed

lemma Background_ext: "log_ext om d om (Background_logged e d) []"
proof -
  have "last_sequence (BackgroundCompaction e (live d)) = last_sequence (live d)"
    using BackgroundCompaction_frame(3) [of "live d" e] by (cases "db_imm (live d)") (simp_all add: BackgroundCompaction_def CompactMemTable_seq)
  then show ?thesis
    by (auto intro!: log_ext_same simp: Background_logged_def Let_def memtable_compacted_def DeleteObsoleteFiles_def manifest_written_def split: option.splits)
qed

lemma snapshots_inv: "dl_inv s0 ow oi om d \<Longrightarrow> dl_inv s0 ow oi om (d\<lparr>live := (live d)\<lparr>snapshots := ss\<rparr>\<rparr>)"
  using dl_files_cong [of "d\<lparr>live := (live d)\<lparr>snapshots := ss\<rparr>\<rparr>" d s0 oi om] snapshot_keeps(1) [of ss "live d"] by (simp add: dl_inv_def)

lemma log_step_inv:
  assumes "dl_inv s0 ow oi om d" "quiet_ok ev (live d)"
  shows "\<exists>s ow' oi' om'. ow' @ oi' @ om' = (ow @ oi @ om) @ writes [ev] \<and> dl_inv s ow' oi' om' (log_step ev d) \<and>
    log_ext om d om' (log_step ev d) (writes [ev])"
proof (cases ev)
  case (WriteEv e ops)
  show ?thesis
  proof (cases "env_room e = RoomError")
    case True
    then show ?thesis using assms(1) WriteEv by (intro exI [of _ s0] exI [of _ ow] exI [of _ oi] exI [of _ om]) (simp add: Write_logged_def log_ext_same)
  next
    case False
    have "\<forall>x \<in> set ops. op_fits x" using assms(2) WriteEv by (simp add: quiet_ok_def)
    from Write_logged_inv [OF assms(1) False this] show ?thesis
      using WriteEv False by (cases "Write_logged io_ok e (fold WriteBatch_apply ops WriteBatch_Clear) d") simp
  qed
next
  case (BackgroundEv e)
  have "quiet_ok (BackgroundEv e) (live d)" using assms(2) BackgroundEv by simp
  moreover have "log_ext om d om (Background_logged e d) []" by (rule Background_ext)
  ultimately obtain s ow' oi' where
    "ow' @ oi' @ om = ow @ oi @ om" "dl_inv s ow' oi' om (Background_logged e d)" "log_ext om d om (Background_logged e d) []"
    using Background_logged_inv [OF assms(1)] by blast
  then show ?thesis using BackgroundEv by (intro exI [of _ s] exI [of _ ow'] exI [of _ oi'] exI [of _ om]) simp
next
  case SnapshotEv
  then show ?thesis using snapshots_inv [OF assms(1)]
    by (intro exI [of _ s0] exI [of _ ow] exI [of _ oi] exI [of _ om]) (simp add: GetSnapshot_def log_ext_same)
next
  case (ReleaseEv s)
  then show ?thesis using snapshots_inv [OF assms(1)]
    by (intro exI [of _ s0] exI [of _ ow] exI [of _ oi] exI [of _ om]) (simp add: ReleaseSnapshot_def log_ext_same)
qed

lemma writes_Cons: "writes (ev # evs) = writes [ev] @ writes evs"
  by (cases ev) simp_all

lemma log_steps_inv:
  "dl_inv s0 ow oi om d \<Longrightarrow> log_along quiet_ok evs d \<Longrightarrow>
   \<exists>s ow' oi' om'. ow' @ oi' @ om' = (ow @ oi @ om) @ writes evs \<and> dl_inv s ow' oi' om' (fold log_step evs d) \<and>
     log_ext om d om' (fold log_step evs d) (writes evs)"
proof (induction evs arbitrary: s0 ow oi om d)
  case Nil
  then show ?case using log_ext_same [of d d om] by simp blast
next
  case (Cons ev evs)
  obtain s ow' oi' om' where S: "ow' @ oi' @ om' = (ow @ oi @ om) @ writes [ev]" "dl_inv s ow' oi' om' (log_step ev d)"
      "log_ext om d om' (log_step ev d) (writes [ev])"
    using log_step_inv [OF Cons.prems(1), of ev] Cons.prems(2) by auto
  obtain s2 ow2 oi2 om2 where "ow2 @ oi2 @ om2 = (ow' @ oi' @ om') @ writes evs" "dl_inv s2 ow2 oi2 om2 (fold log_step evs (log_step ev d))"
      "log_ext om' (log_step ev d) om2 (fold log_step evs (log_step ev d)) (writes evs)"
    using Cons.IH [OF S(2)] Cons.prems(2) by auto
  then show ?case using S(1) log_ext_trans [OF S(3)] writes_Cons [of ev evs]
    by (intro exI [of _ s2] exI [of _ ow2] exI [of _ oi2] exI [of _ om2]) simp
qed

section \<open>Opening after a crash\<close>

lemma rec_inv_mark:
  "rec_inv v n m s ops st \<Longrightarrow> rec_inv v n m s ops (st\<lparr>rs_db := MarkFileNumberUsed x (rs_db st)\<rparr>)"
  by (auto simp: rec_inv_def MarkFileNumberUsed_def rs_table_def rs_files_def)

lemma version_inv_bound: "version_inv s v \<Longrightarrow> \<forall>e \<in> version_set v. eseq e \<le> m \<Longrightarrow> version_inv m v"
proof -
  assume v: "version_inv s v" "\<forall>e \<in> version_set v. eseq e \<le> m"
  have "file_ok m f" if "f \<in> set (v l)" for f l
    using version_inv_ok [OF v(1) that] tset_version [OF v(1) that] v(2) by (auto simp: file_ok_def)
  then show ?thesis using v(1) by (simp add: version_inv_def)
qed

lemma open_fresh:
  assumes "rec_inv v n m s ops st" "rs_mem st = None" "version_inv m v" "numbers_below n v"
    and "db = (rs_db st)\<lparr>last_sequence := max m (rs_max st), next_file_number := next_file_number (rs_db st) + 1, current := LogAndApply (rs_edit st) v\<rparr>"
  shows "DB_inv db" and "DB_Get db k = ops_get ops k None"
proof -
  let ?A = "rs_files st" and ?L = "max m (rs_max st)" and ?N = "next_file_number (rs_db st)"
  have I: "fresh_files n v ?A" "\<forall>f \<in> set ?A. fnumber f < ?N \<and> file_ok ?L f" "n \<le> ?N" "db_mem (rs_db st) = []" "db_imm (rs_db st) = None"
    "deleted_files (rs_edit st) = []" "new_files (rs_edit st) = map (Pair 0) ?A"
    "\<forall>k. sees (set (rs_table st) \<union> (added_set ?A \<union> version_set v)) k (ops_get ops k None)"
    using assms(1) by (simp_all add: rec_inv_def)
  have e: "rs_edit st = \<lparr>deleted_files = [], new_files = map (Pair 0) ?A\<rparr>" using I(6,7) by (cases "rs_edit st") simp
  note F = fresh_apply [OF assms(3) I(1) assms(4), of ?L]
  have v: "version_inv ?L (LogAndApply (rs_edit st) v)" "version_set (LogAndApply (rs_edit st) v) = added_set ?A \<union> version_set v"
    unfolding e using F(1,2) I(2) by auto
  have "numbers_below (?N + 1) (LogAndApply (rs_edit st) v)"
    unfolding e numbers_below_def using F(3) I(2,3) assms(4) by (fastforce simp: numbers_below_def split: if_splits)
  then show inv: "DB_inv db" using v(1) I(4,5) assms(5) by (simp add: DB_inv_def imm_set_def)
  have "rs_table st = []" using assms(2) by (simp add: rs_table_def)
  then have "sees (db_set db) k (ops_get ops k None)" using I(4,5,8) v(2) assms(5) by (simp add: db_set_def imm_set_def)
  then show "DB_Get db k = ops_get ops k None" by (rule DB_Get_iff [OF inv])
qed

text \<open>
  What a crash leaves of the newest log file: its first \<open>n\<close> bytes, followed by \<open>z\<close> zeros. The older
  ones were closed, which trims them.
\<close>

definition cut_log :: "nat \<Rightarrow> nat \<Rightarrow> Disk \<Rightarrow> Disk" where
  "cut_log n z disk = disk\<lparr>d_logs := butlast (d_logs disk) @
     [(fst (last (d_logs disk)), take n (snd (last (d_logs disk))) @ replicate z NUL)]\<rparr>"

lemma read_cut_log:
  assumes "z = 0 \<or> length (log_bytes (log_records s os)) \<le> n"
  shows "\<exists>j \<le> length os. read_all rd_ok (Reader_new (take n (log_bytes (log_records s os)) @ replicate z NUL) True 0) = log_records s (take j os) \<and>
     (\<forall>i \<le> length os. length (log_bytes (log_records s (take i os))) \<le> n \<longrightarrow> i \<le> j)"
  using wal.crash [OF assms] by (simp add: take_log_records)

definition opens_well :: "rec_env \<Rightarrow> bool" where
  "opens_well c \<longleftrightarrow> tolerant c \<and> rc_commit c \<and> (\<forall>x. rc_open c x \<and> rc_read c x = rd_ok)"

lemma opens_wellD: "opens_well c \<Longrightarrow> tolerant c" "opens_well c \<Longrightarrow> rc_open c x" "opens_well c \<Longrightarrow> rc_read c x = rd_ok" "opens_well c \<Longrightarrow> rc_commit c"
  by (simp_all add: opens_well_def)

abbreviation recover_file :: "rec_env \<Rightarrow> nat \<times> string \<Rightarrow> rec_state \<Rightarrow> rec_state" where
  "recover_file c f st \<equiv> (let st1 = RecoverLogFile c f st in st1\<lparr>rs_db := MarkFileNumberUsed (fst f) (rs_db st1)\<rparr>)"

lemma recover_file_inv:
  assumes "rec_inv v n m s ops st" "rs_mem st = None" "tolerant c" "rc_open c num" "rc_read c num = rd_ok"
    and "read_all rd_ok (Reader_new f True 0) = log_records s os"
    and "\<forall>o1 \<in> set os. \<forall>x \<in> set o1. op_fits x" "1 \<le> s" "s + length (concat os) < 2 ^ 31"
  shows "rec_inv v n m (s + length (concat os)) (ops @ concat os) (recover_file c (num, f) st)"
    and "rs_mem (recover_file c (num, f) st) = None"
  using rec_inv_file [where os = os and f = f and num = num, OF assms(1-4) _ assms(7-9)] assms(5,6) rec_inv_mark by (simp_all add: Let_def)

definition start_state :: "int \<Rightarrow> Disk \<Rightarrow> rec_state" where
  "start_state mb disk = \<lparr>rs_status = True, rs_mem = None, rs_edit = \<lparr>deleted_files = [], new_files = []\<rparr>, rs_max = 0, rs_db = VersionSet_Recover mb disk\<rparr>"

lemma start_inv:
  assumes "dl_inv s0 ow oi om d"
  shows "rec_inv (current (live d)) (man_next_file d + 1) (man_last_sequence d) s0 (concat ow) (start_state mb (cut_log n z (disk_of cp d)))"
    and "rs_mem (start_state mb (cut_log n z (disk_of cp d))) = None"
  using assms by (simp_all add: dl_inv_def rec_inv_def start_state_def VersionSet_Recover_def DBImpl_new_def cut_log_def disk_of_def
      rs_table_def rs_files_def fresh_files_def later_def table_sorted_def)

definition open_log_size :: "DBLog \<Rightarrow> nat" where
  "open_log_size d = length (contents (dest (snd (last (log_files d)))))"

lemma open_log_size_inv: "dl_inv s0 ow oi om d \<Longrightarrow> open_log_size d = length (log_bytes (log_records (s0 + length (concat oi)) om))"
  by (auto simp: dl_inv_def dl_files_def Let_def open_log_size_def log_bytes_def split: option.splits)

lemma logs_recovered:
  assumes "dl_inv s0 ow oi om d" "last_sequence (live d) + 1 < 2 ^ 31" "opens_well c" "z = 0 \<or> open_log_size d \<le> n"
    and "logs = sort_key fst (filter (\<lambda>(number, f). log_number d \<le> number \<or> number = 0) (d_logs (cut_log n z (disk_of cp d))))"
  shows "\<exists>j s st. fold (recover_file c) logs (start_state mb (cut_log n z (disk_of cp d))) = st \<and> j \<le> length om \<and>
    (\<forall>i \<le> length om. length (log_bytes (log_records (s0 + length (concat oi)) (take i om))) \<le> n \<longrightarrow> i \<le> j) \<and> rs_mem st = None \<and>
    logfile_number d < next_file_number (rs_db st) \<and>
    rec_inv (current (live d)) (man_next_file d + 1) (man_last_sequence d) s (concat (ow @ oi @ take j om)) st"
proof -
  let ?s1 = "s0 + length (concat oi)" and ?st0 = "start_state mb (cut_log n z (disk_of cp d))"
  let ?f = "take n (log_bytes (log_records ?s1 om)) @ replicate z NUL"
  note S = start_inv [OF assms(1), where mb = mb and n = n and z = z and cp = cp]
  have I: "dl_files s0 oi om d" "1 \<le> s0" "last_sequence (live d) + 1 = ?s1 + length (concat om)"
    "\<forall>o1 \<in> set oi. \<forall>x \<in> set o1. op_fits x" "\<forall>o1 \<in> set om. \<forall>x \<in> set o1. op_fits x"
    using assms(1) by (simp_all add: dl_inv_def ball_Un)
  obtain j where j: "j \<le> length om" "read_all rd_ok (Reader_new ?f True 0) = log_records ?s1 (take j om)"
    "\<forall>i \<le> length om. length (log_bytes (log_records ?s1 (take i om))) \<le> n \<longrightarrow> i \<le> j" 
    using read_cut_log [of z ?s1 om n] assms(4) open_log_size_inv [OF assms(1)] by auto
  have len: "length (concat (take j om)) \<le> length (concat om)"
    by (metis append_take_drop_id concat_append le_add1 length_append)
  have fit: "\<forall>o1 \<in> set (take j om). \<forall>x \<in> set o1. op_fits x" using I(5) by (meson in_set_takeD)
  have "\<exists>st. rs_mem st = None \<and> fold (recover_file c) logs ?st0 = recover_file c (logfile_number d, ?f) st \<and>
     rec_inv (current (live d)) (man_next_file d + 1) (man_last_sequence d) ?s1 (concat ow @ concat oi) st"
  proof (cases "db_imm (live d)")
    case None
    then have "oi = []" "logs = [(logfile_number d, ?f)]"
      using I(1) assms(5) by (simp_all add: dl_files_def Let_def cut_log_def disk_of_def log_bytes_def)
    then show ?thesis using S by (intro exI [of _ ?st0]) simp
  next
    case (Some t)
    then obtain p where "log_number d \<le> p" "p < logfile_number d" "log_files d =
        [(p, write_all (log_records s0 oi) Writer_new), (logfile_number d, write_all (log_records ?s1 om) Writer_new)]"
      using I(1) by (auto simp: dl_files_def Let_def)
    then have "logs = [(p, log_bytes (log_records s0 oi)), (logfile_number d, ?f)]"
      using assms(5) by (simp add: cut_log_def disk_of_def log_bytes_def)
    moreover have "s0 + length (concat oi) < 2 ^ 31" using I(3) assms(2) by simp
    note recover_file_inv [OF S opens_wellD(1-3) [OF assms(3)] wal.whole I(4,2) this, of p]
    ultimately show ?thesis by (intro exI [of _ "recover_file c (p, log_bytes (log_records s0 oi)) ?st0"]) simp
  qed
  then obtain st where st: "rs_mem st = None" "fold (recover_file c) logs ?st0 = recover_file c (logfile_number d, ?f) st"
    "rec_inv (current (live d)) (man_next_file d + 1) (man_last_sequence d) ?s1 (concat ow @ concat oi) st" by blast
  have "1 \<le> ?s1" "?s1 + length (concat (take j om)) < 2 ^ 31" using I(2,3) assms(2) len by simp_all
  note R = recover_file_inv [OF st(3,1) opens_wellD(1-3) [OF assms(3)] j(2) fit this, of "logfile_number d"]
  have "logfile_number d < next_file_number (rs_db (recover_file c (logfile_number d, ?f) st))" by (simp add: MarkFileNumberUsed_def Let_def)
  then show ?thesis using j(1,3) R st(2) by (intro exI [of _ j] exI [of _ "?s1 + length (concat (take j om))"] exI) simp
qed

lemma opened_inv:
  assumes "DB_inv (live d)" "\<And>k. DB_Get (live d) k = ops_get (concat ow) k None" "db_mem (live d) = []" "db_imm (live d) = None"
    and "logfile_number d < next_file_number (live d)" "0 < log_number d" "log_number d = logfile_number d" "log_files d = [(logfile_number d, Writer_new)]"
    and "man_next_file d = next_file_number (live d)" "man_last_sequence d = last_sequence (live d)"
  shows "dl_inv (last_sequence (live d) + 1) ow [] [] d"
proof -
  have "sees (version_set (current (live d))) k (ops_get (concat ow) k None)" for k
    using DB_Get_sees [OF assms(1), of k] assms(2-4) by (simp add: db_set_def imm_set_def)
  moreover have "eseq e \<le> last_sequence (live d)" if "e \<in> version_set (current (live d))" for e
    using assms(1) version_set_seq [of "last_sequence (live d)" "current (live d)" e] that by (simp add: DB_inv_def)
  moreover have "dl_files (last_sequence (live d) + 1) [] [] d" using assms(4,6,7,8) by (simp add: dl_files_def write_all_def)
  ultimately show ?thesis using assms(1,3,5,9,10) by (simp add: dl_inv_def DB_inv_def less_Suc_eq_le)
qed

lemma cut_log_numbers:
  "dl_inv s0 ow oi om d \<Longrightarrow> (p, f) \<in> set (d_logs (cut_log n z (disk_of cp d))) \<Longrightarrow> 0 < p \<and> p \<le> logfile_number d"
  by (auto simp: dl_inv_def dl_files_def Let_def cut_log_def disk_of_def split: option.splits)

lemma opens_with:
  assumes "fold (recover_file c) (sort_key fst (filter (\<lambda>(number, f). d_log_number disk \<le> number \<or> number = d_prev_log_number disk) (d_logs disk)))
      (start_state mb disk) = st"
    and "rec_inv v n m s (concat ow) st" "rs_mem st = None" "version_inv m v" "numbers_below n v"
    and "\<And>p f. (p, f) \<in> set (d_logs disk) \<Longrightarrow> 0 < p \<and> p < next_file_number (rs_db st)" "0 < n" "rc_commit c"
  shows "\<exists>d' s. DB_Open c mb disk = Some d' \<and> db_imm (live d') = None \<and> dl_inv s ow [] [] d'"
proof -
  let ?N = "next_file_number (rs_db st)"
  have I: "rs_status st" "last_sequence (rs_db st) = m" "current (rs_db st) = v" "db_mem (rs_db st) = []" "db_imm (rs_db st) = None" "n \<le> ?N"
    using assms(2) by (simp_all add: rec_inv_def)
  define db where "db = (rs_db st)\<lparr>last_sequence := max m (rs_max st), next_file_number := ?N + 1, current := LogAndApply (rs_edit st) v\<rparr>"
  have db: "DB_inv db" "\<And>k. DB_Get db k = ops_get (concat ow) k None" using open_fresh [OF assms(2-5) db_def] by blast+
  have rec: "Recover c mb disk = st\<lparr>rs_db := (rs_db st)\<lparr>last_sequence := max m (rs_max st)\<rparr>\<rparr>"
    using I(1,2) assms(1) unfolding start_state_def Recover_def by (cases "m < rs_max st") (simp_all add: Let_def)
  define d' where "d' = \<lparr>live = db, logfile_number = ?N, log_number = ?N, log_files = [(?N, Writer_new)], man_next_file = ?N + 1, man_last_sequence = last_sequence db\<rparr>"
  have "filter (\<lambda>(number, w). ?N \<le> number \<or> number = 0) (map (\<lambda>(n, f). (n, Writer_new\<lparr>dest := \<lparr>contents = f, calls = 0\<rparr>\<rparr>)) (d_logs disk)) = []"
    using assms(6) by (fastforce simp: filter_empty_conv)
  then have "DB_Open c mb disk = Some d'"
    using I(1,3) rec assms(8) by (simp add: DB_Open_def Let_def db_def d'_def DeleteObsoleteFiles_def manifest_written_def)
  moreover have "dl_inv (last_sequence db + 1) ow [] [] d'"
    using opened_inv [of d' ow] db I(4-6) assms(7) by (simp add: d'_def db_def)
  moreover have "db_imm (live d') = None" using I(5) by (simp add: d'_def db_def)
  ultimately show ?thesis by blast
qed

lemma disk_version:
  assumes "dl_inv s0 ow oi om d"
  shows "version_inv (man_last_sequence d) (current (live d))" and "numbers_below (man_next_file d + 1) (current (live d))"
  using assms version_inv_bound [of "last_sequence (live d)" "current (live d)" "man_last_sequence d"]
  by (simp_all add: dl_inv_def DB_inv_def numbers_below_Suc)

lemma open_recovers:
  assumes "dl_inv s0 ow oi om d" "last_sequence (live d) + 1 < 2 ^ 31" "opens_well c" "z = 0 \<or> open_log_size d \<le> n"
  shows "\<exists>j d' s. DB_Open c mb (cut_log n z (disk_of cp d)) = Some d' \<and> j \<le> length om \<and>
    (\<forall>i \<le> length om. length (log_bytes (log_records (s0 + length (concat oi)) (take i om))) \<le> n \<longrightarrow> i \<le> j) \<and>
    db_imm (live d') = None \<and> dl_inv s (ow @ oi @ take j om) [] [] d'"
proof -
  let ?disk = "cut_log n z (disk_of cp d)" and ?v = "current (live d)" and ?m = "man_last_sequence d"
  define logs where "logs = sort_key fst (filter (\<lambda>(number, f). log_number d \<le> number \<or> number = 0) (d_logs ?disk))"
  obtain j s st where R: "fold (recover_file c) logs (start_state mb ?disk) = st" "j \<le> length om"
      "\<forall>i \<le> length om. length (log_bytes (log_records (s0 + length (concat oi)) (take i om))) \<le> n \<longrightarrow> i \<le> j" "rs_mem st = None"
      "rec_inv ?v (man_next_file d + 1) ?m s (concat (ow @ oi @ take j om)) st" "logfile_number d < next_file_number (rs_db st)"
    using logs_recovered [OF assms logs_def, of mb] by blast
  have "fold (recover_file c) (sort_key fst (filter (\<lambda>(number, f). d_log_number ?disk \<le> number \<or> number = d_prev_log_number ?disk) (d_logs ?disk)))
      (start_state mb ?disk) = st" using R(1) by (simp add: logs_def cut_log_def disk_of_def)
  moreover have "0 < p \<and> p < next_file_number (rs_db st)" if "(p, f) \<in> set (d_logs ?disk)" for p f
    using cut_log_numbers [OF assms(1) that] R(6) by simp
  ultimately obtain d' s' where "DB_Open c mb ?disk = Some d'" "db_imm (live d') = None" "dl_inv s' (ow @ oi @ take j om) [] [] d'"
    using opens_with [OF _ R(5,4) disk_version [OF assms(1)]] opens_wellD(4) [OF assms(3)] by simp blast
  then show ?thesis using R(2,3) by blast
qed

lemma open_new:
  assumes "DB_Open c mb NewDB = Some d"
  shows "dl_inv 1 [] [] [] d" and "last_sequence (live d) = 0" and "db_imm (live d) = None"
proof -
  have e: "LogAndApply \<lparr>deleted_files = [], new_files = []\<rparr> v = v" for v by (simp add: LogAndApply_def added_files_def is_deleted_def)
  have d: "d = \<lparr>live = (DBImpl_new mb)\<lparr>next_file_number := 4\<rparr>, logfile_number = 3, log_number = 3, log_files = [(3, Writer_new)],
      man_next_file = 4, man_last_sequence = 0\<rparr>"
    using assms by (simp add: DB_Open_def Recover_def NewDB_def VersionSet_Recover_def DBImpl_new_def Let_def e DeleteObsoleteFiles_def manifest_written_def split: if_splits)
  have "DB_inv (live d)" using DB_inv_new [of mb] unfolding d by (simp add: DB_inv_def imm_set_def DBImpl_new_def numbers_below_def)
  then show "dl_inv 1 [] [] [] d" unfolding d
    by (simp add: dl_inv_def DBImpl_new_def dl_files_def Let_def write_all_def version_set_def level_set_def numbers_below_def)
  show "last_sequence (live d) = 0" "db_imm (live d) = None" unfolding d by (simp_all add: DBImpl_new_def)
qed

lemma opened_get: "dl_inv s ow [] [] d \<Longrightarrow> DB_Get (live d) k = ops_get (concat ow) k None"
  by (rule DB_Get_iff) (auto simp: dl_inv_def dl_files_def db_set_def imm_set_def Let_def split: option.splits)

text \<open>A database that has just been opened, for the first time or after any number of crashes.\<close>

inductive opened :: "DBLog \<Rightarrow> bool" where
  created: "DB_Open c mb NewDB = Some d \<Longrightarrow> opened d"
| reopened: "opened d0 \<Longrightarrow> log_along quiet_ok evs d0 \<Longrightarrow> last_sequence (live d0) + length (concat (writes evs)) + 1 < 2 ^ 31 \<Longrightarrow>
    opens_well c \<Longrightarrow> z = 0 \<or> open_log_size (fold log_step evs d0) \<le> n \<Longrightarrow> DB_Open c mb (cut_log n z (disk_of cp (fold log_step evs d0))) = Some d \<Longrightarrow> opened d"

text \<open>
  The writes before \<open>d1\<close> are on disk when the run ends in \<open>d\<close> and the crash leaves \<open>n\<close> bytes of
  the open log: the log has been replaced since, or is cut after them.
\<close>

definition on_disk :: "nat \<Rightarrow> DBLog \<Rightarrow> DBLog \<Rightarrow> bool" where
  "on_disk n d1 d \<longleftrightarrow> logfile_number d1 \<noteq> logfile_number d \<or> open_log_size d1 \<le> n"

lemma log_along_append: "log_along P (xs @ ys) d \<longleftrightarrow> log_along P xs d \<and> log_along P ys (fold log_step xs d)"
  by (induction xs arbitrary: d) simp_all

lemma writes_append: "writes (xs @ ys) = writes xs @ writes ys"
  by (induction xs rule: writes.induct) simp_all

lemma dl_inv_unique:
  assumes "dl_inv s ow oi om d" "dl_inv s2 ow2 oi2 om2 d" "ow @ oi @ om = ow2 @ oi2 @ om2"
  shows "om = om2"
proof -
  have "log_bytes (log_records (s + length (concat oi)) om) = contents (dest (snd (last (log_files d))))" if "dl_inv s ow oi om d" for s ow oi om
    using that by (auto simp: dl_inv_def dl_files_def Let_def log_bytes_def split: option.splits)
  then have "log_records (s + length (concat oi)) om = log_records (s2 + length (concat oi2)) om2"
    using assms(1,2) wal.whole by metis
  then have "length om = length om2" by (metis length_log_records)
  then show ?thesis using assms(3) append_eq_append_conv [of "ow @ oi" "ow2 @ oi2" om om2] by simp
qed

text \<open>Where a run stands after its first events, in terms of its end.\<close>

lemma on_disk_kept:
  assumes "dl_inv s0 ow [] [] d0" "log_along quiet_ok (evs1 @ evs2) d0" "on_disk n (fold log_step evs1 d0) (fold log_step (evs1 @ evs2) d0)"
    and "dl_inv s ow' oi om (fold log_step (evs1 @ evs2) d0)" "ow' @ oi @ om = ow @ writes (evs1 @ evs2)"
    and "\<forall>i \<le> length om. length (log_bytes (log_records (s + length (concat oi)) (take i om))) \<le> n \<longrightarrow> i \<le> j"
  shows "length ow + length (writes evs1) \<le> length ow' + length oi + j"
proof -
  let ?d1 = "fold log_step evs1 d0" and ?d = "fold log_step (evs1 @ evs2) d0"
  obtain s1 ow1 oi1 om1 where A: "ow1 @ oi1 @ om1 = ow @ writes evs1" "dl_inv s1 ow1 oi1 om1 ?d1"
    using log_steps_inv [OF assms(1), of evs1] assms(2) by (auto simp: log_along_append)
  obtain s2 ow2 oi2 om2 where B: "ow2 @ oi2 @ om2 = (ow1 @ oi1 @ om1) @ writes evs2" "dl_inv s2 ow2 oi2 om2 ?d" "log_ext om1 ?d1 om2 ?d (writes evs2)"
    using log_steps_inv [OF A(2), of evs2] assms(2) by (auto simp: log_along_append)
  have om: "om2 = om" using dl_inv_unique [OF B(2) assms(4)] A(1) B(1) assms(5) by (simp add: writes_append)
  have len: "length ow' + length oi + length om = length ow + length (writes evs1) + length (writes evs2)"
    using arg_cong [OF assms(5), of length] by (simp add: writes_append)
  show ?thesis
  proof (cases "logfile_number ?d1 = logfile_number ?d")
    case True
    then have o1: "om = om1 @ writes evs2" "open_log_size ?d1 \<le> n" using B(3) om assms(3) by (auto simp: log_ext_def on_disk_def)
    have "s1 + length (concat oi1) = s + length (concat oi)"
      using A(2) assms(4) B(3) o1(1) by (simp add: dl_inv_def log_ext_def)
    then have "length om1 \<le> j" using assms(6) o1 open_log_size_inv [OF A(2)] by (metis append_eq_conv_conj le_add1 length_append)
    then show ?thesis using len o1(1) by simp
  next
    case False
    then show ?thesis using B(3) om len by (simp add: log_ext_def)
  qed
qed

lemma crash_once:
  assumes "dl_inv s0 ow [] [] d0" "log_along quiet_ok evs d0" "last_sequence (live d0) + length (concat (writes evs)) + 1 < 2 ^ 31" "opens_well c"
    and "z = 0 \<or> open_log_size (fold log_step evs d0) \<le> n"
  shows "\<exists>j d' s. DB_Open c mb (cut_log n z (disk_of cp (fold log_step evs d0))) = Some d' \<and> j \<le> length (writes evs) \<and>
    (\<forall>evs1 evs2. evs = evs1 @ evs2 \<and> on_disk n (fold log_step evs1 d0) (fold log_step evs d0) \<longrightarrow> length (writes evs1) \<le> j) \<and>
    db_imm (live d') = None \<and> dl_inv s (ow @ take j (writes evs)) [] [] d'"
proof -
  let ?d = "fold log_step evs d0"
  obtain s1 ow' oi om where A: "ow' @ oi @ om = ow @ writes evs" "dl_inv s1 ow' oi om ?d" "log_ext [] d0 om ?d (writes evs)"
    using log_steps_inv [OF assms(1,2)] by auto
  have "last_sequence (live ?d) + 1 < 2 ^ 31" using A(3) assms(3) by (simp add: log_ext_def)
  then obtain j d' s where R: "DB_Open c mb (cut_log n z (disk_of cp ?d)) = Some d'" "j \<le> length om" "dl_inv s (ow' @ oi @ take j om) [] [] d'"
      "db_imm (live d') = None" "\<forall>i \<le> length om. length (log_bytes (log_records (s1 + length (concat oi)) (take i om))) \<le> n \<longrightarrow> i \<le> j"
    using open_recovers [OF A(2) _ assms(4,5), of mb cp] by blast
  let ?j = "length ow' + length oi + j - length ow"
  have len: "length ow' + length oi + length om = length ow + length (writes evs)" using arg_cong [OF A(1), of length] by simp
  moreover have "length om \<le> length (writes evs)" using A(3) by (auto simp: log_ext_def)
  ultimately have le: "length ow \<le> length ow' + length oi" by simp
  have "ow' @ oi @ take j om = take (length ow' + length oi + j) (ow' @ oi @ om)" by simp
  also have "\<dots> = ow @ take ?j (writes evs)" unfolding A(1) using le by simp
  finally have "dl_inv s (ow @ take ?j (writes evs)) [] [] d'" using R(3) by simp
  moreover have "length (writes evs1) \<le> ?j" if "evs = evs1 @ evs2" "on_disk n (fold log_step evs1 d0) ?d" for evs1 evs2
    using on_disk_kept [of s0 ow d0 evs1 evs2 n s1 ow' oi om j] assms(1,2) that A(1,2) R(5) by simp
  moreover have "?j \<le> length (writes evs)" using len R(2) by simp
  ultimately show ?thesis using R(1,4) by blast
qed

lemma opened_state: "opened d \<Longrightarrow> db_imm (live d) = None \<and> (\<exists>s ow. dl_inv s ow [] [] d)"
proof (induction rule: opened.induct)
  case (reopened d0 evs c z n mb cp d)
  then show ?case using crash_once [of _ _ d0 evs c z n mb cp] by (metis option.inject)
qed (use open_new(1,3) in blast)


definition crash_env :: rec_env where
  "crash_env = \<lparr>rc_paranoid = False, rc_open = (\<lambda>_. True), rc_read = (\<lambda>_. rd_ok), rc_full = (\<lambda>_. False), rc_build = (\<lambda>_. True), rc_bytes = length, rc_commit = True\<rparr>"

definition created_db :: DBLog where
  "created_db = \<lparr>live = (DBImpl_new 2)\<lparr>next_file_number := 4\<rparr>, logfile_number = 3, log_number = 3, log_files = [(3, Writer_new)],
     man_next_file = 4, man_last_sequence = 0\<rparr>"

lemma created_db_opened: "opened created_db" "opens_well crash_env" "DB_Get (live created_db) k = None" "last_sequence (live created_db) = 0"
proof -
  have e: "LogAndApply \<lparr>deleted_files = [], new_files = []\<rparr> v = v" for v by (simp add: LogAndApply_def added_files_def is_deleted_def)
  have o: "DB_Open crash_env 2 NewDB = Some created_db"
    by (simp add: created_db_def crash_env_def DB_Open_def Recover_def NewDB_def VersionSet_Recover_def DBImpl_new_def Let_def e DeleteObsoleteFiles_def manifest_written_def)
  then show "opened created_db" by (rule created)
  show "opens_well crash_env" by (simp add: opens_well_def tolerant_def crash_env_def)
  show "DB_Get (live created_db) k = None" using opened_get [OF open_new(1) [OF o]] by simp
  show "last_sequence (live created_db) = 0" using open_new(2) [OF o] .
qed

lemma Write_logged_numbers:
  "env_room e \<noteq> RoomError \<Longrightarrow> logfile_number (snd (Write_logged io e b d)) = logfile_number (MakeRoom_logged e d)"
  "next_file_number (live (snd (Write_logged io fits_env b d))) = next_file_number (live d)"
  "db_imm (live (snd (Write_logged io fits_env b d))) = db_imm (live d)"
  by (simp_all add: Write_logged_def fits_env_def DB_Write_def MakeRoomForWrite_def Let_def split: prod.splits)




section \<open>A write that fails half way\<close>

lemma length_Contents_seq: "length (WriteBatch_Contents (b\<lparr>wb_sequence := s\<rparr>)) = length (WriteBatch_Contents b)"
  by (simp add: WriteBatch_Contents_def)

lemma Write_logged_fits:
  assumes "env_room e = RoomFits" "log_files d = [(logfile_number d, w)]"
    and "AddRecord io (WriteBatch_Contents (b\<lparr>wb_sequence := last_sequence (live d) + 1\<rparr>)) w = (t, w')" "Write_logged io e b d = (st, d')"
  shows "DB_Write (e\<lparr>env_log := t\<rparr>) b (live d) = (st, live d')" and "log_files d' = [(logfile_number d', w')]"
    and "logfile_number d' = logfile_number d" and "disk_of cp d' = (disk_of cp d)\<lparr>d_logs := [(logfile_number d, contents (dest w'))]\<rparr>"
proof -
  have m: "MakeRoom_logged e d = d" "MakeRoomForWrite (e\<lparr>env_log := t\<rparr>) (live d) = (True, live d)"
    using assms(1) by (simp_all add: MakeRoom_logged_def MakeRoomForWrite_def)
  obtain db where db: "DB_Write (e\<lparr>env_log := t\<rparr>) b (live d) = (st, db)" "d' = d\<lparr>live := db, log_files := [(logfile_number d, w')]\<rparr>"
    using assms m(1) by (auto simp: Write_logged_def Let_def split: prod.splits)
  moreover have "current db = current (live d)"
    using db(1) m(2) by (auto simp: DB_Write_def Let_def split: prod.splits if_splits)
  ultimately show "DB_Write (e\<lparr>env_log := t\<rparr>) b (live d) = (st, live d')" "log_files d' = [(logfile_number d', w')]"
    "logfile_number d' = logfile_number d" "disk_of cp d' = (disk_of cp d)\<lparr>d_logs := [(logfile_number d, contents (dest w'))]\<rparr>"
    by (simp_all add: disk_of_def)
qed

lemma torn_run:
  assumes "dl_inv s0 ow [] [] d0" "db_imm (live d0) = None" "env_room e = RoomFits" "\<forall>x \<in> set (ops1 @ ops2). op_fits x"
    and "b1 = fold WriteBatch_apply ops1 WriteBatch_Clear" "b2 = fold WriteBatch_apply ops2 WriteBatch_Clear"
    and "length (WriteBatch_Contents b1) \<le> 16000" "length (WriteBatch_Contents b2) \<in> {kBlockSize - 14 <..< kBlockSize - 7}"
    and "Write_logged torn_io e b1 d0 = (s1, d1)" "Write_logged torn_io e b2 d1 = (s2, d2)"
  shows "\<not> s1 \<and> s2" and "DB_Get (live d2) k = ops_get ops2 k (DB_Get (live d0) k)"
    and "\<exists>f. disk_of cp d2 = (disk_of cp d0)\<lparr>d_logs := [(logfile_number d0, f)]\<rparr> \<and> read_all rd_ok (Reader_new f True 0) = []"
proof -
  let ?x = "WriteBatch_Contents (b1\<lparr>wb_sequence := last_sequence (live d0) + 1\<rparr>)"
  let ?y = "WriteBatch_Contents (b2\<lparr>wb_sequence := last_sequence (live d1) + 1\<rparr>)"
  have L: "log_files d0 = [(logfile_number d0, Writer_new)]"
    using assms(1,2) by (simp add: dl_inv_def dl_files_def Let_def write_all_def)
  have sz: "length ?x \<le> 16000" "kBlockSize - 14 < length ?y" "length ?y < kBlockSize - 7" using assms(7,8) by (simp_all add: length_Contents_seq)
  obtain t1 w1 where A1: "AddRecord torn_io ?x Writer_new = (t1, w1)" by fastforce
  obtain t2 w2 where A2: "AddRecord torn_io ?y w1 = (t2, w2)" by fastforce
  let ?a = "kBlockSize - 14 - length ?x"
  have T: "\<not> t1" "t2" "contents (dest w2) = header_of kFirstType (take ?a ?y) @ take ?a ?y @ header_of kLastType (drop ?a ?y) @ drop ?a ?y"
    using torn_file [OF sz A1 A2 refl] by simp_all
  note W1 = Write_logged_fits [OF assms(3) L A1 assms(9)]
  note W2 = Write_logged_fits [OF assms(3) W1(2) A2 assms(10)]
  have f: "\<forall>x \<in> set ops1. op_fits x" "\<forall>x \<in> set ops2. op_fits x" and i0: "DB_inv (live d0)"
    using assms(1,4) by (simp_all add: dl_inv_def ball_Un)
  have ok: "\<not> write_ok (e\<lparr>env_log := t1\<rparr>)" "write_ok (e\<lparr>env_log := t2\<rparr>)" using T(1,2) assms(3) by (simp_all add: write_ok_def)
  note D1 = DB_Write_ops [OF i0 f(1) W1(1) [unfolded assms(5)]]
  note D2 = DB_Write_ops [OF D1(2) f(2) W2(1) [unfolded assms(6)]]
  show "\<not> s1 \<and> s2" using D1(1) D2(1) ok by simp
  show "DB_Get (live d2) k = ops_get ops2 k (DB_Get (live d0) k)" using D1(3) D2(3) ok by simp
  have "read_all rd_ok (Reader_new (contents (dest w2)) True 0) = []" unfolding T(3)
    using sz by (intro torn_read [where l = "length ?x"]) (auto simp: kBlockSize_def)
  then show "\<exists>f. disk_of cp d2 = (disk_of cp d0)\<lparr>d_logs := [(logfile_number d0, f)]\<rparr> \<and> read_all rd_ok (Reader_new f True 0) = []"
    using W1(3,4) W2(4) by (intro exI [of _ "contents (dest w2)"]) simp
qed

lemma open_empty_log:
  assumes "dl_inv s0 ow [] [] d" "s0 < 2 ^ 31" "opens_well c" "read_all rd_ok (Reader_new f True 0) = []"
  shows "\<exists>d' s. DB_Open c mb ((disk_of cp d)\<lparr>d_logs := [(logfile_number d, f)]\<rparr>) = Some d' \<and> dl_inv s ow [] [] d'"
proof -
  let ?disk = "(disk_of cp d)\<lparr>d_logs := [(logfile_number d, f)]\<rparr>" and ?st = "start_state mb (cut_log 0 0 (disk_of cp d))"
  note S = start_inv [OF assms(1), where mb = mb and n = 0 and z = 0 and cp = cp]
  have st: "start_state mb ?disk = ?st" by (simp add: start_state_def VersionSet_Recover_def cut_log_def)
  have l: "0 < log_number d" "log_number d \<le> logfile_number d" "1 \<le> s0"
    using assms(1) by (auto simp: dl_inv_def dl_files_def Let_def split: option.splits)
  note R = recover_file_inv [OF S opens_wellD(1-3) [OF assms(3)], of f "[]"]
  have r: "rec_inv (current (live d)) (man_next_file d + 1) (man_last_sequence d) s0 (concat ow) (recover_file c (logfile_number d, f) ?st)"
    "rs_mem (recover_file c (logfile_number d, f) ?st) = None" using R assms(2,4) l(3) by simp_all
  have "filter (\<lambda>(number, g). d_log_number ?disk \<le> number \<or> number = d_prev_log_number ?disk) (d_logs ?disk) = [(logfile_number d, f)]"
    using l(2) by (simp add: disk_of_def)
  then have "fold (recover_file c) (sort_key fst (filter (\<lambda>(number, g). d_log_number ?disk \<le> number \<or> number = d_prev_log_number ?disk) (d_logs ?disk)))
      (start_state mb ?disk) = recover_file c (logfile_number d, f) ?st" unfolding st by simp
  moreover have "0 < p \<and> p < next_file_number (rs_db (recover_file c (logfile_number d, f) ?st))" if "(p, g) \<in> set (d_logs ?disk)" for p g
    using that l by (simp add: MarkFileNumberUsed_def Let_def)
  ultimately have "\<exists>d' s. DB_Open c mb ?disk = Some d' \<and> db_imm (live d') = None \<and> dl_inv s ow [] [] d'"
    by (rule opens_with [OF _ r disk_version [OF assms(1)]]) (simp_all add: opens_wellD(4) [OF assms(3)])
  then show ?thesis by blast
qed

text \<open>
  C31: A log write that fails loses a later write that was acknowledged. The first append to a new
  log fails (its first region cannot be mapped, the disk is full) and \<open>Write\<close> returns the error,
  but keeps the log open: \<open>EmitPhysicalRecord\<close> has moved the offset in the block, although nothing
  was written, and no error is remembered. The next \<open>Write\<close> succeeds, and \<open>Get\<close> returns its values;
  its record is split where the writer believes the block to end, and its second part crosses
  the end of the block in the file. After a restart without any further failure the reader
  drops that part as a bad record, \<open>DB::Open\<close> succeeds, and the acknowledged batch is gone. Batches
  of 32755 to 32760 bytes are affected as the first ones after the failure, whatever the size of
  the failed one (up to 16000 bytes).
\<close>

theorem torn_write_loses:
  assumes "opened d0" "last_sequence (live d0) + 1 < 2 ^ 31" "opens_well c" "env_room e = RoomFits" "\<forall>x \<in> set (ops1 @ ops2). op_fits x"
    and "b1 = fold WriteBatch_apply ops1 WriteBatch_Clear" "b2 = fold WriteBatch_apply ops2 WriteBatch_Clear"
    and "length (WriteBatch_Contents b1) \<le> 16000" "length (WriteBatch_Contents b2) \<in> {kBlockSize - 14 <..< kBlockSize - 7}"
    and "Write_logged torn_io e b1 d0 = (s1, d1)" "Write_logged torn_io e b2 d1 = (s2, d2)"
  shows "\<not> s1 \<and> s2 \<and> (\<forall>k. DB_Get (live d2) k = ops_get ops2 k (DB_Get (live d0) k)) \<and>
    (\<exists>d'. DB_Open c mb (disk_of cp d2) = Some d' \<and> (\<forall>k. DB_Get (live d') k = DB_Get (live d0) k))"
proof -
  obtain s0 ow where o: "dl_inv s0 ow [] [] d0" and i: "db_imm (live d0) = None" using opened_state [OF assms(1)] by blast
  note T = torn_run [OF o i assms(4-11)]
  obtain f where f: "disk_of cp d2 = (disk_of cp d0)\<lparr>d_logs := [(logfile_number d0, f)]\<rparr>" "read_all rd_ok (Reader_new f True 0) = []"
    using T(3) by blast
  have "s0 < 2 ^ 31" using o assms(2) by (simp add: dl_inv_def)
  from open_empty_log [OF o this assms(3) f(2), of mb] obtain d' s where
    d': "DB_Open c mb (disk_of cp d2) = Some d'" "dl_inv s ow [] [] d'" unfolding f(1) by blast
  then show ?thesis using T(1,2) opened_get [OF o] opened_get [OF d'(2)] by simp
qed

definition big_value :: string where
  "big_value = replicate 32738 CHR ''b''"

lemma length_big_value: "length big_value = 32738"
  by (simp only: big_value_def length_replicate)

theorem torn_write_loses_witness:
  "\<exists>d1 d2 d'. Write_logged torn_io fits_env (fold WriteBatch_apply [Handler_Put ''a'' ''b''] WriteBatch_Clear) created_db = (False, d1) \<and>
    Write_logged torn_io fits_env (fold WriteBatch_apply [Handler_Put ''k'' big_value] WriteBatch_Clear) d1 = (True, d2) \<and>
    DB_Get (live d2) ''k'' = Some big_value \<and> DB_Open crash_env 2 (disk_of (\<lambda>_. None) d2) = Some d' \<and> DB_Get (live d') ''k'' = None"
proof -
  let ?o1 = "[Handler_Put ''a'' ''b'']" and ?o2 = "[Handler_Put ''k'' big_value]"
  let ?b1 = "fold WriteBatch_apply ?o1 WriteBatch_Clear" and ?b2 = "fold WriteBatch_apply ?o2 WriteBatch_Clear"
  obtain s1 d1 where w1: "Write_logged torn_io fits_env ?b1 created_db = (s1, d1)" by fastforce
  obtain s2 d2 where w2: "Write_logged torn_io fits_env ?b2 d1 = (s2, d2)" by fastforce
  have fit: "\<forall>x \<in> set (?o1 @ ?o2). op_fits x" "env_room fits_env = RoomFits" "last_sequence (live created_db) + 1 < 2 ^ 31"
    using created_db_opened(4) by (simp_all add: fits_env_def length_big_value)
  have "length (EncodeVarint32 32738) = 3" "length (EncodeVarint32 1) = 1" by code_simp+
  then have "length (WriteBatch_Contents ?b1) = 17" "length (WriteBatch_Contents ?b2) = 32756"
    by (simp_all add: WriteBatch_Contents_def WriteBatch_Put_def WriteBatch_Clear_def PutLengthPrefixedSlice_def PutVarint32_def length_big_value)
  then have len: "length (WriteBatch_Contents ?b1) \<le> 16000" "length (WriteBatch_Contents ?b2) \<in> {kBlockSize - 14 <..< kBlockSize - 7}"
    by (simp_all add: kBlockSize_def)
  show ?thesis
    using torn_write_loses [OF created_db_opened(1) fit(3) created_db_opened(2) fit(2,1) refl refl len w1 w2, where mb = 2 and cp = "\<lambda>_. None"] w1 w2 created_db_opened(3) by auto
qed

end
