(* ===== verification/AppMgr.thy ===== *)
theory AppMgr
  imports StdMap
begin

text \<open>
  The registries of \<open>GentAppMgr\<close> (\<open>gent_app_mgr.cpp\<close>) and the objects they hold: the pool of
  connection objects, the command objects of the descriptors, the modules. Objects are
  addresses in explicit heaps, so that a deleted object, a pointer that outlives it and a
  second \<open>delete\<close> can be seen. The buffers of a connection are in theory \<open>Connect\<close>.
\<close>

section \<open>State\<close>

type_synonym addr = nat

record conn_obj =
  cn_fd :: int
  cn_comm :: "addr option"
  dest_list :: "addr list"

text \<open>
  \<open>conns\<close> is the heap of connections, \<open>commands\<close> the set of live command objects as a predicate,
  \<open>dest_conn\<close> the field \<open>conn_\<close> of the \<open>GentDestroy\<close> objects (replications), \<open>open_fds\<close> the
  descriptors open in the process.
\<close>

record GentAppMgr =
  plus_mgr :: "(int, addr) smap"
  conn_mgr :: "(int, addr) smap"
  free_conn_mgr :: "addr list"
  total_conn :: nat
  conns :: "addr \<Rightarrow> conn_obj option"
  next_conn :: addr
  commands :: "addr \<Rightarrow> bool"
  next_command :: addr
  dest_conn :: "addr \<Rightarrow> addr option"
  open_fds :: "int list"

definition GentAppMgr_new :: GentAppMgr where
  "GentAppMgr_new = \<lparr>plus_mgr = [], conn_mgr = [], free_conn_mgr = [], total_conn = 0, conns = (\<lambda>_. None), next_conn = 0,
     commands = (\<lambda>_. False), next_command = 0, dest_conn = (\<lambda>_. None), open_fds = []\<rparr>"

section \<open>Operations\<close>

text \<open>A fresh command object for a descriptor; the object registered before is not deleted.\<close>

definition GetCommand :: "int \<Rightarrow> GentAppMgr \<Rightarrow> addr \<times> GentAppMgr" where
  "GetCommand sfd m =
     (let p = next_command m
      in (p, m\<lparr>plus_mgr := sm_put sfd p (plus_mgr m), commands := (commands m)(p := True), next_command := p + 1\<rparr>))"

text \<open>Deletes the command of a descriptor and leaves the pointer in the registry.\<close>

definition Destroy :: "int \<Rightarrow> GentAppMgr \<Rightarrow> GentAppMgr res" where
  "Destroy sfd m =
     (case sm_get (plus_mgr m) sfd of
        None \<Rightarrow> Inr m
      | Some p \<Rightarrow> if commands m p then Inr (m\<lparr>commands := (commands m)(p := False)\<rparr>) else Inl Null_pointer)"

text \<open>\<open>GentConnect::Init\<close> as far as the registries are concerned.\<close>

definition pool_Init :: "int \<Rightarrow> addr \<Rightarrow> GentAppMgr \<Rightarrow> GentAppMgr" where
  "pool_Init sfd c m =
     (let (p, m1) = GetCommand sfd m; ds = (case conns m c of None \<Rightarrow> [] | Some x \<Rightarrow> dest_list x)
      in m1\<lparr>conns := (conns m1)(c \<mapsto> \<lparr>cn_fd = sfd, cn_comm = Some p, dest_list = ds\<rparr>)\<rparr>)"

text \<open>The constructor of a new connection has already called \<open>Init\<close>.\<close>

definition GetConnect :: "int \<Rightarrow> GentAppMgr \<Rightarrow> addr \<times> GentAppMgr" where
  "GetConnect sfd m =
     (if free_conn_mgr m \<noteq> [] then
        (let c = last (free_conn_mgr m); m1 = pool_Init sfd c m;
             m2 = m1\<lparr>free_conn_mgr := butlast (free_conn_mgr m1)\<rparr>
         in (c, m2\<lparr>conn_mgr := sm_put sfd c (conn_mgr m2)\<rparr>))
      else
        (let c = next_conn m; m1 = pool_Init sfd c (pool_Init sfd c (m\<lparr>next_conn := c + 1\<rparr>));
             m2 = m1\<lparr>total_conn := total_conn m1 + 1\<rparr>
         in (c, m2\<lparr>conn_mgr := sm_put sfd c (conn_mgr m2)\<rparr>)))"

text \<open>\<open>size_t\<close> in the code; \<open>pool_inv\<close> below shows that the difference is not negative.\<close>

definition GetConnCount :: "GentAppMgr \<Rightarrow> nat" where
  "GetConnCount m = total_conn m - length (free_conn_mgr m)"

definition GetTotalConnCount :: "GentAppMgr \<Rightarrow> nat" where
  "GetTotalConnCount m = total_conn m"

text \<open>
  \<open>GentConnect::Destruct\<close>: the replications that use the connection forget it, the command is
  deleted, the descriptor closed; \<open>fd\<close> keeps its value.
\<close>

definition Destruct :: "addr \<Rightarrow> GentAppMgr \<Rightarrow> GentAppMgr res" where
  "Destruct c m =
     (case conns m c of
        None \<Rightarrow> Inl Null_pointer
      | Some x \<Rightarrow>
          if cn_fd x < 0 then Inr m
          else
            rbind (Destroy (cn_fd x) (m\<lparr>dest_conn := (\<lambda>d. if d \<in> set (dest_list x) then None else dest_conn m d)\<rparr>))
              (\<lambda>m1. Inr (m1\<lparr>open_fds := remove1 (cn_fd x) (open_fds m1),
                            conns := (conns m1)(c \<mapsto> x\<lparr>dest_list := [], cn_comm := None\<rparr>)\<rparr>)))"

text \<open>The loop that deletes connections from the front of the free list.\<close>

fun delete_free :: "nat \<Rightarrow> GentAppMgr \<Rightarrow> GentAppMgr" where
  "delete_free 0 m = m"
| "delete_free (Suc n) m =
     (case free_conn_mgr m of
        [] \<Rightarrow> m
      | c # cs \<Rightarrow> delete_free n (m\<lparr>conns := (conns m)(c := None), total_conn := total_conn m - 1, free_conn_mgr := cs\<rparr>))"

definition RetConnect :: "addr \<Rightarrow> GentAppMgr \<Rightarrow> GentAppMgr res" where
  "RetConnect c m =
     (case conns m c of
        None \<Rightarrow> Inl Null_pointer
      | Some x \<Rightarrow>
          (case sm_get (conn_mgr m) (cn_fd x) of
             None \<Rightarrow> Inl Process_exit
           | Some _ \<Rightarrow>
               (let m1 = m\<lparr>conns := (conns m)(c \<mapsto> x\<lparr>cn_fd := - 1\<rparr>), free_conn_mgr := c # free_conn_mgr m,
                          conn_mgr := sm_del (cn_fd x) (conn_mgr m)\<rparr>;
                    linkNum = GetConnCount m1 * 20
                in if linkNum < length (free_conn_mgr m1)
                   then Inr (delete_free (length (free_conn_mgr m1) - linkNum) m1) else Inr m1)))"

text \<open>\<open>GentDestroy::SetConn\<close>: a replication takes a connection.\<close>

definition SetConn :: "addr \<Rightarrow> addr \<Rightarrow> GentAppMgr \<Rightarrow> GentAppMgr res" where
  "SetConn d c m =
     (case conns m c of
        None \<Rightarrow> Inl Null_pointer
      | Some x \<Rightarrow> Inr (m\<lparr>dest_conn := (dest_conn m)(d \<mapsto> c), conns := (conns m)(c \<mapsto> x\<lparr>dest_list := List.insert d (dest_list x)\<rparr>)\<rparr>))"

section \<open>Modules\<close>

definition def_num :: nat where
  "def_num = 10"

text \<open>\<open>clone i\<close> is the \<open>i\<close>-th clone; the second test never succeeds, because \<open>[]\<close> has just made an empty entry.\<close>

definition Register :: "int \<Rightarrow> (nat \<Rightarrow> addr) \<Rightarrow> (int, addr list) smap \<Rightarrow> int \<times> (int, addr list) smap" where
  "Register cmd clone app_mgr =
     (if sm_get app_mgr cmd \<noteq> None then (1, app_mgr)
      else
        (let mgr1 = sm_put cmd [] app_mgr
         in if length (the (sm_get mgr1 cmd)) \<ge> def_num then (1, mgr1)
            else (0, sm_put cmd (map clone [0..<def_num]) mgr1)))"

definition GetModule :: "int \<Rightarrow> (int, addr list) smap \<Rightarrow> addr option \<times> (int, addr list) smap" where
  "GetModule cmd app_mgr =
     (case sm_get app_mgr cmd of
        None \<Rightarrow> (None, app_mgr)
      | Some v \<Rightarrow> if length v \<le> 0 then (None, app_mgr) else (Some (last v), sm_put cmd (butlast v) app_mgr))"

definition SetModule :: "int \<Rightarrow> addr \<Rightarrow> (int, addr list) smap \<Rightarrow> int \<times> (int, addr list) smap" where
  "SetModule cmd app app_mgr =
     (case sm_get app_mgr cmd of
        None \<Rightarrow> (1, app_mgr)
      | Some v \<Rightarrow> (0, sm_put cmd (v @ [app]) app_mgr))"

section \<open>The invariant of the pool\<close>

text \<open>
  \<open>K\<close> are the connections between \<open>Destruct\<close> and \<open>RetConnect\<close>, their descriptor closed. Every
  other connection in use has its descriptor open and a live command, and no two
  descriptors share a command.
\<close>

definition active :: "GentAppMgr \<Rightarrow> conn_obj \<Rightarrow> bool" where
  "active m x \<longleftrightarrow> cn_fd x \<in> set (open_fds m) \<and>
     (\<exists>p. cn_comm x = Some p \<and> sm_get (plus_mgr m) (cn_fd x) = Some p \<and> commands m p)"

definition used_ok :: "addr list \<Rightarrow> GentAppMgr \<Rightarrow> bool" where
  "used_ok K m \<longleftrightarrow> sm_inv (conn_mgr m) \<and>
     (\<forall>fd c. sm_get (conn_mgr m) fd = Some c \<longrightarrow>
        0 \<le> fd \<and> (\<exists>x. conns m c = Some x \<and> cn_fd x = fd \<and> (c \<notin> set K \<longrightarrow> active m x)))"

definition free_ok :: "GentAppMgr \<Rightarrow> bool" where
  "free_ok m \<longleftrightarrow> distinct (free_conn_mgr m) \<and> (\<forall>c \<in> set (free_conn_mgr m). \<exists>x. conns m c = Some x \<and> cn_fd x = - 1)"

definition heap_ok :: "GentAppMgr \<Rightarrow> bool" where
  "heap_ok m \<longleftrightarrow> (\<forall>c x. conns m c = Some x \<longrightarrow>
     c < next_conn m \<and> (c \<in> set (free_conn_mgr m) \<or> sm_get (conn_mgr m) (cn_fd x) = Some c))"

definition comm_ok :: "GentAppMgr \<Rightarrow> bool" where
  "comm_ok m \<longleftrightarrow> (\<forall>fd p. sm_get (plus_mgr m) fd = Some p \<longrightarrow> p < next_command m) \<and>
     (\<forall>f g p. sm_get (plus_mgr m) f = Some p \<longrightarrow> sm_get (plus_mgr m) g = Some p \<longrightarrow> f = g)"

definition closing_ok :: "addr list \<Rightarrow> GentAppMgr \<Rightarrow> bool" where
  "closing_ok K m \<longleftrightarrow> distinct K \<and> (\<forall>c \<in> set K. \<exists>x. conns m c = Some x \<and> sm_get (conn_mgr m) (cn_fd x) = Some c)"

definition dest_ok :: "addr list \<Rightarrow> GentAppMgr \<Rightarrow> bool" where
  "dest_ok K m \<longleftrightarrow> (\<forall>d c. dest_conn m d = Some c \<longrightarrow> c \<notin> set K \<and> (\<exists>x. conns m c = Some x \<and> 0 \<le> cn_fd x \<and> d \<in> set (dest_list x)))"

definition pool_core :: "addr list \<Rightarrow> GentAppMgr \<Rightarrow> bool" where
  "pool_core K m \<longleftrightarrow> used_ok K m \<and> free_ok m \<and> heap_ok m \<and> comm_ok m \<and> closing_ok K m \<and> dest_ok K m \<and>
     distinct (open_fds m) \<and> total_conn m = length (conn_mgr m) + length (free_conn_mgr m)"

definition pool_inv :: "addr list \<Rightarrow> GentAppMgr \<Rightarrow> bool" where
  "pool_inv K m \<longleftrightarrow> pool_core K m \<and> length (free_conn_mgr m) \<le> 20 * length (conn_mgr m)"

named_theorems pool_parts
lemmas [pool_parts] = used_ok_def free_ok_def heap_ok_def comm_ok_def closing_ok_def dest_ok_def

lemma pool_inv_new [simp]: "pool_inv [] GentAppMgr_new"
  by (simp add: pool_inv_def pool_core_def pool_parts GentAppMgr_new_def sm_get_def)

text \<open>Two views of the lookup: by descriptor and by object.\<close>

lemma used_okE:
  assumes "used_ok K m" "sm_get (conn_mgr m) fd = Some c"
  obtains x where "conns m c = Some x" "cn_fd x = fd" "0 \<le> fd" "c \<notin> set K \<longrightarrow> active m x"
  using assms unfolding used_ok_def by blast

lemma used_unique:
  assumes "used_ok K m" "sm_get (conn_mgr m) f = Some c" "sm_get (conn_mgr m) g = Some c"
  shows "f = g"
  using used_okE [OF assms(1,2)] used_okE [OF assms(1,3)] by (metis option.inject)

lemma used_not_free:
  assumes "used_ok K m" "free_ok m" "sm_get (conn_mgr m) f = Some c"
  shows "c \<notin> set (free_conn_mgr m)"
  using assms by (fastforce simp: used_ok_def free_ok_def)

lemma pool_open:
  assumes "pool_inv K m" "fd \<notin> set (open_fds m)"
  shows "pool_inv K (m\<lparr>open_fds := fd # open_fds m\<rparr>)"
  using assms by (fastforce simp: pool_inv_def pool_core_def pool_parts active_def)

subsection \<open>Init and GetConnect\<close>

lemma remove1_last: "xs \<noteq> [] \<Longrightarrow> distinct xs \<Longrightarrow> remove1 (last xs) xs = butlast xs"
  by (induction xs) auto

text \<open>Putting a connection that is free or new in use, with a fresh command \<open>p\<close>.\<close>

lemma pool_core_use:
  assumes "pool_core K m" "0 \<le> fd" "fd \<in> set (open_fds m)" "sm_get (conn_mgr m) fd = None"
    and "\<forall>g. sm_get (conn_mgr m) g \<noteq> Some c" "free = remove1 c (free_conn_mgr m)" "c < n" "next_conn m \<le> n"
    and "next_command m \<le> p" "cn_fd x = fd" "cn_comm x = Some p"
  shows "pool_core K (m\<lparr>plus_mgr := sm_put fd p (plus_mgr m), commands := (commands m)(p := True, q := True), next_command := p + 1,
    conns := (conns m)(c \<mapsto> x), next_conn := n, free_conn_mgr := free, conn_mgr := sm_put fd c (conn_mgr m),
    total_conn := Suc (length (conn_mgr m)) + length free\<rparr>)"
    (is "pool_core K ?m")
proof -
  have P: "used_ok K m" "free_ok m" "heap_ok m" "comm_ok m" "closing_ok K m" "dest_ok K m" "distinct (open_fds m)"
    "sm_inv (conn_mgr m)"
    using assms(1) by (simp_all add: pool_core_def used_ok_def)
  have cK: "c \<notin> set K" using P(5) assms(5) by (auto simp: closing_ok_def)
  have pn: "sm_get (plus_mgr m) g \<noteq> Some p" for g using P(4) assms(9) by (fastforce simp: comm_ok_def)
  have dc: "dest_conn m d \<noteq> Some c" for d
    using P(2,3,6) assms(5) by (fastforce simp: dest_ok_def heap_ok_def free_ok_def)
  have "used_ok K ?m" unfolding used_ok_def
  proof (intro conjI allI impI)
    fix g a assume ga: "sm_get (conn_mgr ?m) g = Some a"
    have act: "active ?m y" if "active m y" "cn_fd y \<noteq> fd" for y using that by (auto simp: active_def sm_get_put)
    consider "g = fd" "a = c" | "g \<noteq> fd" "sm_get (conn_mgr m) g = Some a" using ga by (auto simp: sm_get_put split: if_splits)
    then have "0 \<le> g \<and> (\<exists>y. conns ?m a = Some y \<and> cn_fd y = g \<and> (a \<notin> set K \<longrightarrow> active ?m y))"
    proof cases
      case 1
      then show ?thesis using assms(2,3,10,11) by (auto simp: active_def sm_get_put)
    next
      case 2
      obtain y where y: "conns m a = Some y" "cn_fd y = g" "0 \<le> g" "a \<notin> set K \<longrightarrow> active m y"
        by (rule used_okE [OF P(1) 2(2)])
      then show ?thesis using 2 assms(5) act by auto
    qed
    then show "0 \<le> g" "\<exists>y. conns ?m a = Some y \<and> cn_fd y = g \<and> (a \<notin> set K \<longrightarrow> active ?m y)" by auto
  qed (simp add: sm_inv_put P(8))
  moreover have "free_ok ?m" using P(2) assms(6) by (auto simp: free_ok_def)
  moreover have "heap_ok ?m" using P(2,3) assms(4,6,7,8,10) by (fastforce simp: heap_ok_def sm_get_put free_ok_def)
  moreover have "comm_ok ?m" using P(4) pn assms(9) by (fastforce simp: comm_ok_def sm_get_put split: if_splits)
  moreover have "closing_ok K ?m"
  proof -
    have "\<exists>y. conns ?m a = Some y \<and> sm_get (conn_mgr ?m) (cn_fd y) = Some a" if a: "a \<in> set K" for a
    proof -
      obtain y where y: "conns m a = Some y" "sm_get (conn_mgr m) (cn_fd y) = Some a" using P(5) a by (auto simp: closing_ok_def)
      moreover have "a \<noteq> c" "cn_fd y \<noteq> fd" using a cK y(2) assms(4) by auto
      ultimately show ?thesis by (simp add: sm_get_put)
    qed
    then show ?thesis using P(5) unfolding closing_ok_def by blast
  qed
  moreover have "dest_ok K ?m" using P(6) dc by (auto simp: dest_ok_def)
  ultimately show ?thesis using P(7,8) assms(4) by (simp add: pool_core_def length_sm_put)
qed

lemma GetConnect_keeps:
  assumes "pool_inv K m" "0 \<le> fd" "fd \<in> set (open_fds m)" "sm_get (conn_mgr m) fd = None" "GetConnect fd m = (c, m')"
  shows "pool_inv K m'" and "conn_mgr m' = sm_put fd c (conn_mgr m)" and "\<forall>g. sm_get (conn_mgr m) g \<noteq> Some c"
    and "open_fds m' = open_fds m" and "\<exists>x. conns m' c = Some x \<and> cn_fd x = fd"
proof -
  have core: "pool_core K m" and P: "used_ok K m" "free_ok m" "heap_ok m" "sm_inv (conn_mgr m)"
    using assms(1) by (simp_all add: pool_inv_def pool_core_def used_ok_def)
  have "pool_inv K m' \<and> conn_mgr m' = sm_put fd c (conn_mgr m) \<and> (\<forall>g. sm_get (conn_mgr m) g \<noteq> Some c) \<and>
    open_fds m' = open_fds m \<and> (\<exists>x. conns m' c = Some x \<and> cn_fd x = fd)"
  proof (cases "free_conn_mgr m = []")
    case False
    let ?c = "last (free_conn_mgr m)"
    have c: "?c \<in> set (free_conn_mgr m)" using False by simp
    have nu: "\<forall>g. sm_get (conn_mgr m) g \<noteq> Some ?c" using used_not_free [OF P(1,2)] c by blast
    have r: "remove1 ?c (free_conn_mgr m) = butlast (free_conn_mgr m)"
      using P(2) False by (simp add: free_ok_def remove1_last)
    have lt: "?c < next_conn m" using P(2,3) c by (fastforce simp: free_ok_def heap_ok_def)
    have t: "total_conn m = Suc (length (conn_mgr m)) + length (butlast (free_conn_mgr m))"
      using core False by (cases "free_conn_mgr m") (simp_all add: pool_core_def)
    define x where "x = \<lparr>cn_fd = fd, cn_comm = Some (next_command m), dest_list = (case conns m ?c of None \<Rightarrow> [] | Some x \<Rightarrow> dest_list x)\<rparr>"
    have G: "c = ?c" "m' = m\<lparr>plus_mgr := sm_put fd (next_command m) (plus_mgr m), commands := (commands m)(next_command m := True, next_command m := True),
        next_command := next_command m + 1, conns := (conns m)(?c \<mapsto> x), next_conn := next_conn m,
        free_conn_mgr := butlast (free_conn_mgr m), conn_mgr := sm_put fd ?c (conn_mgr m),
        total_conn := Suc (length (conn_mgr m)) + length (butlast (free_conn_mgr m))\<rparr>"
      using assms(5) False t by (cases m; auto simp: GetConnect_def pool_Init_def GetCommand_def Let_def x_def)+
    have "pool_core K m'" unfolding G(2) using r
      by (intro pool_core_use [OF core assms(2-4) nu]) (simp_all add: lt x_def)
    moreover have "length (butlast (free_conn_mgr m)) \<le> 20 * length (sm_put fd ?c (conn_mgr m))"
      using assms(1) length_sm_put [OF P(4), of fd ?c] assms(4) by (auto simp: pool_inv_def)
    ultimately show ?thesis using G nu by (simp add: pool_inv_def x_def)
  next
    case True
    let ?c = "next_conn m"
    have nu: "\<forall>g. sm_get (conn_mgr m) g \<noteq> Some ?c" using P(1,3) by (fastforce simp: used_ok_def heap_ok_def)
    define x where "x = \<lparr>cn_fd = fd, cn_comm = Some (Suc (next_command m)), dest_list = (case conns m ?c of None \<Rightarrow> [] | Some x \<Rightarrow> dest_list x)\<rparr>"
    have G: "c = ?c" "m' = m\<lparr>plus_mgr := sm_put fd (Suc (next_command m)) (plus_mgr m),
        commands := (commands m)(Suc (next_command m) := True, next_command m := True),
        next_command := Suc (next_command m) + 1, conns := (conns m)(?c \<mapsto> x), next_conn := Suc ?c,
        free_conn_mgr := [], conn_mgr := sm_put fd ?c (conn_mgr m), total_conn := Suc (length (conn_mgr m)) + length ([] :: addr list)\<rparr>"
      using assms(5) True core
      by (cases m; auto simp: GetConnect_def pool_Init_def GetCommand_def Let_def x_def pool_core_def fun_upd_twist)+
    have "pool_core K m'" unfolding G(2) using True
      by (intro pool_core_use [OF core assms(2-4) nu]) (simp_all add: x_def)
    then show ?thesis using G nu by (simp add: pool_inv_def x_def)
  qed
  then show "pool_inv K m'" "conn_mgr m' = sm_put fd c (conn_mgr m)" "\<forall>g. sm_get (conn_mgr m) g \<noteq> Some c"
    "open_fds m' = open_fds m" "\<exists>x. conns m' c = Some x \<and> cn_fd x = fd" by blast+
qed

text \<open>What \<open>GetConnect\<close> makes of the object, also when the descriptor is still registered.\<close>

lemma GetConnect_frame:
  assumes "free_ok m" "heap_ok m" "GetConnect fd m = (c, m')"
  obtains p ds where "conns m' c = Some \<lparr>cn_fd = fd, cn_comm = Some p, dest_list = ds\<rparr>" "sm_get (plus_mgr m') fd = Some p"
    "commands m' p" "conn_mgr m' = sm_put fd c (conn_mgr m)" "\<forall>a. a \<noteq> c \<longrightarrow> conns m' a = conns m a"
    "c \<notin> set (free_conn_mgr m')" "conns m c = None \<or> c \<in> set (free_conn_mgr m)"
proof (cases "free_conn_mgr m = []")
  case False
  have "last (free_conn_mgr m) \<notin> set (butlast (free_conn_mgr m))"
    using False assms(1) by (metis append_butlast_last_id free_ok_def not_distinct_conv_prefix append.assoc append_Cons append_Nil)
  then show ?thesis using that [of "next_command m"] False assms(3)
    by (auto simp: GetConnect_def pool_Init_def GetCommand_def Let_def sm_get_put)
next
  case True
  have "conns m (next_conn m) = None" using assms(2) by (cases "conns m (next_conn m)") (auto simp: heap_ok_def)
  then show ?thesis using that [of "Suc (next_command m)"] True assms(3)
    by (auto simp: GetConnect_def pool_Init_def GetCommand_def Let_def sm_get_put)
qed

subsection \<open>Destruct and RetConnect\<close>

lemma Destruct_keeps:
  assumes "pool_inv K m" "sm_get (conn_mgr m) fd = Some c" "c \<notin> set K"
  obtains m' where "Destruct c m = Inr m'" "pool_inv (c # K) m'" "conn_mgr m' = conn_mgr m" "set (open_fds m') = set (open_fds m) - {fd}"
proof -
  have P: "used_ok K m" "free_ok m" "heap_ok m" "comm_ok m" "closing_ok K m" "dest_ok K m" "distinct (open_fds m)"
    "total_conn m = length (conn_mgr m) + length (free_conn_mgr m)" "length (free_conn_mgr m) \<le> 20 * length (conn_mgr m)"
    using assms(1) by (simp_all add: pool_inv_def pool_core_def)
  from used_okE [OF P(1) assms(2)] obtain x where x: "conns m c = Some x" "cn_fd x = fd" "0 \<le> fd" "active m x" using assms(3) by metis
  then obtain p where p: "cn_comm x = Some p" "sm_get (plus_mgr m) fd = Some p" "commands m p" by (auto simp: active_def)
  let ?x = "x\<lparr>dest_list := [], cn_comm := None\<rparr>"
  let ?m = "m\<lparr>dest_conn := (\<lambda>d. if d \<in> set (dest_list x) then None else dest_conn m d), commands := (commands m)(p := False),
    open_fds := remove1 fd (open_fds m), conns := (conns m)(c \<mapsto> ?x)\<rparr>"
  have D: "Destruct c m = Inr ?m" using x p by (simp add: Destruct_def Destroy_def)
  have act: "active ?m y" if "active m y" "cn_fd y \<noteq> fd" for y
    using that p(2) P(4,7) by (fastforce simp: active_def comm_ok_def)
  have "used_ok (c # K) ?m" unfolding used_ok_def
  proof (intro conjI allI impI)
    fix g a assume ga: "sm_get (conn_mgr ?m) g = Some a"
    then have ga': "sm_get (conn_mgr m) g = Some a" by simp
    obtain y where y: "conns m a = Some y" "cn_fd y = g" "0 \<le> g" "a \<notin> set K \<longrightarrow> active m y"
      by (rule used_okE [OF P(1) ga'])
    have "a \<noteq> c \<Longrightarrow> g \<noteq> fd" using ga' assms(2) by auto
    then show "0 \<le> g" "\<exists>y. conns ?m a = Some y \<and> cn_fd y = g \<and> (a \<notin> set (c # K) \<longrightarrow> active ?m y)"
      using y x act by (cases "a = c"; auto)+
  qed (use P(1) in \<open>simp add: used_ok_def\<close>)
  moreover have "free_ok ?m" using P(2) used_not_free [OF P(1,2) assms(2)] by (auto simp: free_ok_def)
  moreover have "heap_ok ?m" using P(3) x by (auto simp: heap_ok_def)
  moreover have "comm_ok ?m" using P(4) by (simp add: comm_ok_def)
  moreover have "closing_ok (c # K) ?m" using P(5) assms(2,3) x by (auto simp: closing_ok_def)
  moreover have "dest_ok (c # K) ?m" using P(6) x by (fastforce simp: dest_ok_def)
  ultimately have "pool_inv (c # K) ?m" using P(7-9) by (simp add: pool_inv_def pool_core_def)
  then show thesis using that [OF D] P(7) by simp
qed

lemma delete_free_frame:
  "a \<notin> set (free_conn_mgr m) \<Longrightarrow> conns (delete_free n m) a = conns m a \<and> conn_mgr (delete_free n m) = conn_mgr m \<and>
     plus_mgr (delete_free n m) = plus_mgr m \<and> commands (delete_free n m) = commands m"
  by (induction n m rule: delete_free.induct) (auto split: list.split)

lemma delete_free_keeps:
  assumes "pool_core K m" "n \<le> length (free_conn_mgr m)"
  shows "pool_core K (delete_free n m) \<and> conn_mgr (delete_free n m) = conn_mgr m \<and> open_fds (delete_free n m) = open_fds m \<and>
    length (free_conn_mgr (delete_free n m)) = length (free_conn_mgr m) - n"
  using assms
proof (induction n m rule: delete_free.induct)
  case (2 n m)
  then obtain c cs where f: "free_conn_mgr m = c # cs" by (cases "free_conn_mgr m") auto
  let ?m = "m\<lparr>conns := (conns m)(c := None), total_conn := total_conn m - 1, free_conn_mgr := cs\<rparr>"
  have P: "used_ok K m" "free_ok m" "heap_ok m" "comm_ok m" "closing_ok K m" "dest_ok K m" "distinct (open_fds m)"
    "total_conn m = length (conn_mgr m) + length (free_conn_mgr m)"
    using 2(2) by (simp_all add: pool_core_def)
  have nu: "sm_get (conn_mgr m) g \<noteq> Some c" for g using used_not_free [OF P(1,2)] f by fastforce
  have nd: "dest_conn m d \<noteq> Some c" for d using P(2,6) f by (fastforce simp: dest_ok_def free_ok_def)
  have "used_ok K ?m" using P(1) nu by (auto simp: used_ok_def active_def)
  moreover have "free_ok ?m" using P(2) f by (auto simp: free_ok_def)
  moreover have "heap_ok ?m" using P(3) f by (auto simp: heap_ok_def)
  moreover have "comm_ok ?m" using P(4) by (simp add: comm_ok_def)
  moreover have "closing_ok K ?m" using P(5) nu by (auto simp: closing_ok_def)
  moreover have "dest_ok K ?m" using P(6) nd by (auto simp: dest_ok_def)
  ultimately have "pool_core K ?m" using P(7,8) f by (simp add: pool_core_def)
  then show ?case using 2(1) [OF f] 2(3) f by simp
qed simp

text \<open>The connection leaves the registry and joins the free list.\<close>

lemma pool_core_return:
  assumes "pool_core K m" "c \<in> set K" "conns m c = Some x"
  shows "pool_core (remove1 c K) (m\<lparr>conns := (conns m)(c \<mapsto> x\<lparr>cn_fd := - 1\<rparr>), free_conn_mgr := c # free_conn_mgr m,
    conn_mgr := sm_del (cn_fd x) (conn_mgr m)\<rparr>)" (is "pool_core _ ?m")
    and "sm_get (conn_mgr m) (cn_fd x) = Some c"
proof -
  have P: "used_ok K m" "free_ok m" "heap_ok m" "comm_ok m" "closing_ok K m" "dest_ok K m" "distinct (open_fds m)"
    "total_conn m = length (conn_mgr m) + length (free_conn_mgr m)" "sm_inv (conn_mgr m)" "distinct K"
    using assms(1) by (simp_all add: pool_core_def used_ok_def closing_ok_def)
  show used: "sm_get (conn_mgr m) (cn_fd x) = Some c" using P(5) assms(2,3) by (auto simp: closing_ok_def)
  have nf: "c \<notin> set (free_conn_mgr m)" by (rule used_not_free [OF P(1,2) used])
  have del: "sm_get (sm_del (cn_fd x) (conn_mgr m)) g = Some a \<longleftrightarrow> a \<noteq> c \<and> sm_get (conn_mgr m) g = Some a" for g a
  proof (cases "g = cn_fd x")
    case True
    then show ?thesis using sm_get_del [OF P(9), of "cn_fd x" g] used by auto
  next
    case False
    then have "sm_get (conn_mgr m) g \<noteq> Some c" using used_unique [OF P(1) used] by blast
    then show ?thesis using sm_get_del [OF P(9), of "cn_fd x" g] False by auto
  qed
  have "used_ok (remove1 c K) ?m" using P(1,9) del P(10) by (auto simp: used_ok_def sm_inv_del active_def)
  moreover have "free_ok ?m" using P(2) nf by (auto simp: free_ok_def)
  moreover have "heap_ok ?m" using P(3) del assms(3) by (auto simp: heap_ok_def)
  moreover have "comm_ok ?m" using P(4) by (simp add: comm_ok_def)
  moreover have "closing_ok (remove1 c K) ?m" using P(5,10) del by (auto simp: closing_ok_def)
  moreover have "dest_ok (remove1 c K) ?m" using P(6,10) assms(2) by (fastforce simp: dest_ok_def)
  moreover have "Suc (length (sm_del (cn_fd x) (conn_mgr m))) = length (conn_mgr m)"
    using length_sm_del [of "cn_fd x" "conn_mgr m"] used by (cases "conn_mgr m") (auto simp: sm_get_def)
  ultimately show "pool_core (remove1 c K) ?m" using P(7,8) by (simp add: pool_core_def)
qed

lemma RetConnect_keeps:
  assumes "pool_inv K m" "c \<in> set K"
  obtains m' fd where "RetConnect c m = Inr m'" "pool_inv (remove1 c K) m'" "sm_get (conn_mgr m) fd = Some c"
    "conn_mgr m' = sm_del fd (conn_mgr m)" "open_fds m' = open_fds m"
proof -
  have core: "pool_core K m" using assms(1) by (simp add: pool_inv_def)
  obtain x where x: "conns m c = Some x" using core assms(2) by (auto simp: pool_core_def closing_ok_def)
  note R = pool_core_return [OF core assms(2) x]
  let ?m = "m\<lparr>conns := (conns m)(c \<mapsto> x\<lparr>cn_fd := - 1\<rparr>), free_conn_mgr := c # free_conn_mgr m,
    conn_mgr := sm_del (cn_fd x) (conn_mgr m)\<rparr>"
  have cnt: "GetConnCount ?m = length (conn_mgr ?m)" using R(1) by (simp add: GetConnCount_def pool_core_def)
  let ?n = "length (free_conn_mgr ?m) - 20 * length (conn_mgr ?m)"
  have D: "pool_core (remove1 c K) (delete_free ?n ?m) \<and> conn_mgr (delete_free ?n ?m) = conn_mgr ?m \<and>
      open_fds (delete_free ?n ?m) = open_fds ?m \<and> length (free_conn_mgr (delete_free ?n ?m)) = length (free_conn_mgr ?m) - ?n"
    by (rule delete_free_keeps [OF R(1)]) simp
  have E: "RetConnect c m = Inr (if 20 * length (conn_mgr ?m) < length (free_conn_mgr ?m) then delete_free ?n ?m else ?m)"
    using x R(2) cnt by (simp add: RetConnect_def Let_def mult.commute)
  show thesis
    by (rule that [OF E _ R(2)]) (use D R(1) in \<open>auto simp: pool_inv_def\<close>)
qed

lemma SetConn_keeps:
  assumes "pool_inv K m" "sm_get (conn_mgr m) fd = Some c" "c \<notin> set K"
  obtains m' where "SetConn d c m = Inr m'" "pool_inv K m'" "conn_mgr m' = conn_mgr m" "open_fds m' = open_fds m"
proof -
  have P: "used_ok K m" "free_ok m" "heap_ok m" "comm_ok m" "closing_ok K m" "dest_ok K m" "distinct (open_fds m)"
    using assms(1) by (simp_all add: pool_inv_def pool_core_def)
  from used_okE [OF P(1) assms(2)] obtain x where x: "conns m c = Some x" "cn_fd x = fd" "0 \<le> fd" "active m x" using assms(3) by metis
  let ?m = "m\<lparr>dest_conn := (dest_conn m)(d \<mapsto> c), conns := (conns m)(c \<mapsto> x\<lparr>dest_list := List.insert d (dest_list x)\<rparr>)\<rparr>"
  have S: "SetConn d c m = Inr ?m" using x by (simp add: SetConn_def)
  have "used_ok K ?m" using P(1) x by (fastforce simp: used_ok_def active_def)
  moreover have "free_ok ?m" using P(2) used_not_free [OF P(1,2) assms(2)] by (auto simp: free_ok_def)
  moreover have "heap_ok ?m" "comm_ok ?m" "closing_ok K ?m" using P(3-5) x by (auto simp: heap_ok_def comm_ok_def closing_ok_def)
  moreover have "dest_ok K ?m" using P(6) x assms(3) by (fastforce simp: dest_ok_def)
  ultimately have "pool_inv K ?m" using assms(1) P(7) by (simp add: pool_inv_def pool_core_def)
  then show thesis using that [OF S] by simp
qed

section \<open>The threads that use the pool\<close>

text \<open>
  The main thread accepts descriptors the process has not open, the workers take connections
  for them (\<open>P\<close>: accepted and waiting), destruct and return them (\<open>K\<close>), each critical section
  one step, in any order. The premise of \<open>got\<close> is what the code does not ensure: the
  descriptor of a destructed connection is not handed out again before the connection is
  returned.
\<close>

inductive pool_reach :: "int list \<Rightarrow> addr list \<Rightarrow> GentAppMgr \<Rightarrow> bool" where
  start: "pool_reach [] [] GentAppMgr_new"
| accepted: "pool_reach P K m \<Longrightarrow> 0 \<le> fd \<Longrightarrow> fd \<notin> set (open_fds m) \<Longrightarrow> pool_reach (fd # P) K (m\<lparr>open_fds := fd # open_fds m\<rparr>)"
| got: "pool_reach P K m \<Longrightarrow> fd \<in> set P \<Longrightarrow> (\<And>c. sm_get (conn_mgr m) fd = Some c \<Longrightarrow> c \<notin> set K) \<Longrightarrow> GetConnect fd m = (c, m') \<Longrightarrow>
    pool_reach (remove1 fd P) K m'"
| destructed: "pool_reach P K m \<Longrightarrow> sm_get (conn_mgr m) fd = Some c \<Longrightarrow> c \<notin> set K \<Longrightarrow> Destruct c m = Inr m' \<Longrightarrow> pool_reach P (c # K) m'"
| returned: "pool_reach P K m \<Longrightarrow> c \<in> set K \<Longrightarrow> RetConnect c m = Inr m' \<Longrightarrow> pool_reach P (remove1 c K) m'"
| registered: "pool_reach P K m \<Longrightarrow> sm_get (conn_mgr m) fd = Some c \<Longrightarrow> c \<notin> set K \<Longrightarrow> SetConn d c m = Inr m' \<Longrightarrow> pool_reach P K m'"

definition waiting_ok :: "int list \<Rightarrow> addr list \<Rightarrow> GentAppMgr \<Rightarrow> bool" where
  "waiting_ok P K m \<longleftrightarrow> distinct P \<and> set P \<subseteq> set (open_fds m) \<and>
     (\<forall>fd \<in> set P. 0 \<le> fd \<and> (\<forall>c. sm_get (conn_mgr m) fd = Some c \<longrightarrow> c \<in> set K))"

lemma pool_reach_inv: "pool_reach P K m \<Longrightarrow> pool_inv K m \<and> waiting_ok P K m"
proof (induction rule: pool_reach.induct)
  case start
  then show ?case by (simp add: waiting_ok_def)
next
  case (accepted P K m fd)
  have "c \<in> set K" if "sm_get (conn_mgr m) fd = Some c" for c
    using used_okE [of K m fd c] that accepted by (metis active_def pool_core_def pool_inv_def)
  then show ?case using accepted pool_open [of K m fd] by (auto simp: waiting_ok_def)
next
  case (got P K m fd c m')
  have I: "pool_inv K m" "0 \<le> fd" "fd \<in> set (open_fds m)" "sm_get (conn_mgr m) fd = None" "distinct P"
    using got by (fastforce simp: waiting_ok_def)+
  note G = GetConnect_keeps [OF I(1-4) got.hyps(4)]
  have "waiting_ok (remove1 fd P) K m'"
    using got.IH I(5) G(2,4) by (auto simp: waiting_ok_def sm_get_put)
  then show ?case using G(1) by blast
next
  case (destructed P K m fd c m')
  from destructed Destruct_keeps [of K m fd c] have "pool_inv (c # K) m'" "conn_mgr m' = conn_mgr m" "set (open_fds m') = set (open_fds m) - {fd}"
    by (metis sum.inject(2))+
  then show ?case using destructed by (fastforce simp: waiting_ok_def)
next
  case (returned P K m c m')
  from returned RetConnect_keeps [of K m c] obtain fd where R: "pool_inv (remove1 c K) m'" "sm_get (conn_mgr m) fd = Some c"
    "conn_mgr m' = sm_del fd (conn_mgr m)" "open_fds m' = open_fds m"
    by (metis sum.inject(2))
  have U: "used_ok K m" "sm_inv (conn_mgr m)" "distinct K" using returned.IH by (simp_all add: pool_inv_def pool_core_def used_ok_def closing_ok_def)
  have "a \<in> set (remove1 c K)" if "sm_get (conn_mgr m') g = Some a" "g \<in> set P" for g a
  proof -
    have "g \<noteq> fd" "sm_get (conn_mgr m) g = Some a" using that(1) R(3) sm_get_del [OF U(2), of fd g] by (auto split: if_splits)
    then have "a \<noteq> c" "a \<in> set K" using used_unique [OF U(1) R(2)] returned.IH that(2) by (auto simp: waiting_ok_def)
    then show ?thesis by simp
  qed
  then show ?case using R(1,4) returned.IH by (auto simp: waiting_ok_def)
next
  case (registered P K m fd c d m')
  from registered SetConn_keeps [of K m fd c d] have "pool_inv K m'" "conn_mgr m' = conn_mgr m" "open_fds m' = open_fds m"
    by (metis sum.inject(2))+
  then show ?case using registered by (simp add: waiting_ok_def)
qed


definition pool_demo :: GentAppMgr where
  "pool_demo = snd (GetConnect 5 (GentAppMgr_new\<lparr>open_fds := [5]\<rparr>))"

lemma pool_demo_reach: "pool_reach [] [] pool_demo"
proof -
  have "pool_reach [5] [] (GentAppMgr_new\<lparr>open_fds := [5]\<rparr>)"
    using pool_reach.accepted [OF pool_reach.start, of 5] by (simp add: GentAppMgr_new_def)
  then show ?thesis
    using pool_reach.got [of "[5]" "[]" "GentAppMgr_new\<lparr>open_fds := [5]\<rparr>" 5 "fst (GetConnect 5 (GentAppMgr_new\<lparr>open_fds := [5]\<rparr>))" pool_demo]
    by (simp add: pool_demo_def GentAppMgr_new_def)
qed


text \<open>
  C32: Without that condition the server exits. When a worker has destructed a connection and
  the main thread accepts a client on the descriptor just closed before the worker returns
  the connection, the new connection takes over the registry entry, the late \<open>RetConnect\<close>
  removes it, and the next orderly close of the new client calls \<open>exit (1)\<close>.
\<close>

theorem reuse_exits:
  assumes "pool_inv K m" "c \<in> set K" "conns m c = Some x" "cn_fd x \<notin> set (open_fds m)"
    and "m0 = m\<lparr>open_fds := cn_fd x # open_fds m\<rparr>" "GetConnect (cn_fd x) m0 = (c2, m1)"
  shows "\<exists>m2 m3. RetConnect c m1 = Inr m2 \<and> Destruct c2 m2 = Inr m3 \<and> RetConnect c2 m3 = Inl Process_exit"
proof -
  let ?fd = "cn_fd x"
  have P: "used_ok K m" "free_ok m" "heap_ok m" "closing_ok K m" using assms(1) by (simp_all add: pool_inv_def pool_core_def)
  have used: "sm_get (conn_mgr m) ?fd = Some c" using P(4) assms(2,3) by (auto simp: closing_ok_def)
  have fd: "0 \<le> ?fd" using used_okE [OF P(1) used] .
  have "free_ok m0" "heap_ok m0" using P(2,3) assms(5) by (simp_all add: free_ok_def heap_ok_def)
  from GetConnect_frame [OF this assms(6)] obtain p ds where G:
    "conns m1 c2 = Some \<lparr>cn_fd = ?fd, cn_comm = Some p, dest_list = ds\<rparr>" "sm_get (plus_mgr m1) ?fd = Some p" "commands m1 p"
    "conn_mgr m1 = sm_put ?fd c2 (conn_mgr m)" "\<forall>a. a \<noteq> c2 \<longrightarrow> conns m1 a = conns m a" "c2 \<notin> set (free_conn_mgr m1)"
    "conns m c2 = None \<or> c2 \<in> set (free_conn_mgr m)"
    using assms(5) by auto
  have ne: "c \<noteq> c2" using G(7) assms(3) used_not_free [OF P(1,2) used] by auto
  define m1' where "m1' = m1\<lparr>conns := (conns m1)(c \<mapsto> x\<lparr>cn_fd := - 1\<rparr>), free_conn_mgr := c # free_conn_mgr m1,
    conn_mgr := sm_del ?fd (conn_mgr m1)\<rparr>"
  have "conns m1 c = Some x" "sm_get (conn_mgr m1) ?fd = Some c2" using G(4,5) ne assms(3) by (auto simp: sm_get_put)
  then have "RetConnect c m1 = Inr (delete_free (if GetConnCount m1' * 20 < length (free_conn_mgr m1')
      then length (free_conn_mgr m1') - GetConnCount m1' * 20 else 0) m1')"
    by (simp add: RetConnect_def m1'_def Let_def)
  then obtain n where "RetConnect c m1 = Inr (delete_free n m1')" by blast
  moreover define m2 where "m2 = delete_free n m1'"
  moreover have D: "conns m2 c2 = Some \<lparr>cn_fd = ?fd, cn_comm = Some p, dest_list = ds\<rparr>" "sm_get (plus_mgr m2) ?fd = Some p"
    "commands m2 p" "conn_mgr m2 = sm_del ?fd (sm_put ?fd c2 (conn_mgr m))"
    using delete_free_frame [of c2 m1' n] G ne by (simp_all add: m2_def m1'_def)
  moreover have "sm_get (conn_mgr m2) ?fd = None"
    using sm_get_del [of "sm_put ?fd c2 (conn_mgr m)" ?fd ?fd] P(1) D(4) by (simp add: sm_inv_put used_ok_def)
  ultimately show ?thesis using fd by (simp add: Destruct_def Destroy_def RetConnect_def)
qed

theorem reuse_exits_witness:
  "\<exists>m c2 m1 m2 m3. Destruct 0 pool_demo = Inr m \<and> GetConnect 5 (m\<lparr>open_fds := 5 # open_fds m\<rparr>) = (c2, m1) \<and>
     RetConnect 0 m1 = Inr m2 \<and> Destruct c2 m2 = Inr m3 \<and> RetConnect c2 m3 = Inl Process_exit"
proof -
  have I: "pool_inv [] pool_demo" using pool_reach_inv [OF pool_demo_reach] by blast
  have u: "sm_get (conn_mgr pool_demo) 5 = Some 0" by code_simp
  obtain m where D: "Destruct 0 pool_demo = Inr m" "pool_inv [0] m" "conn_mgr m = conn_mgr pool_demo" "set (open_fds m) = set (open_fds pool_demo) - {5}"
    by (rule Destruct_keeps [OF I u]) simp
  have "used_ok [0] m" using D(2) by (simp add: pool_inv_def pool_core_def)
  then obtain x where x: "conns m 0 = Some x" "cn_fd x = 5" using used_okE [of "[0]" m 5 0] u D(3) by metis
  obtain c2 m1 where g: "GetConnect 5 (m\<lparr>open_fds := 5 # open_fds m\<rparr>) = (c2, m1)" by fastforce
  have "\<exists>m2 m3. RetConnect 0 m1 = Inr m2 \<and> Destruct c2 m2 = Inr m3 \<and> RetConnect c2 m3 = Inl Process_exit"
    using reuse_exits [OF D(2) _ x(1) _ refl, of c2 m1] D(4) x(2) g by simp
  then show ?thesis using g D(1) by blast
qed

end
