(* ===== verification/Dispatch.thy ===== *)
theory Dispatch
  imports AppMgr MsgQueue Config
begin

text \<open>
  The threads (\<open>gent_frame.cpp\<close>, \<open>gent_thread.cpp\<close>, \<open>gent_event.cpp\<close>): the main thread accepts
  clients and hands them to the workers in turn, through a queue and a pipe per worker; a
  worker that reads a byte from its pipe takes one item from its queue and a connection
  from the pool. \<open>Inr None\<close> is a call that blocks for ever. The items are addresses, so that
  one that was freed can be seen.
\<close>

section \<open>State\<close>

record dataItem =
  item_sfd :: int
  item_ip :: string
  item_port :: nat

text \<open>
  \<open>pipes i\<close> counts the bytes in the pipe of worker \<open>i\<close>, \<open>None\<close> when it was not set up. An entry of
  the \<open>std::map\<close> \<open>msg_\<close> that was never assigned is a queue of capacity 0.
\<close>

record net =
  thread_count :: int
  lastid :: int
  msgs :: "nat \<Rightarrow> addr GentMsg"
  pipes :: "nat \<Rightarrow> nat option"
  items :: "addr \<Rightarrow> dataItem option"
  next_item :: addr
  pool :: GentAppMgr

definition net_new :: net where
  "net_new = \<lparr>thread_count = 1, lastid = 0, msgs = (\<lambda>_. GentMsg_new), pipes = (\<lambda>_. None), items = (\<lambda>_. None), next_item = 0,
     pool = GentAppMgr_new\<rparr>"

section \<open>Starting\<close>

text \<open>
  \<open>GentThread::init\<close>; \<open>add_ok\<close>: the listening socket could be registered, \<open>pipe_ok i\<close>: the pipe of
  worker \<open>i\<close> could be made. With no room for \<open>threads_[0]\<close> the array is written out of bounds.
\<close>

definition thread_init :: "bool \<Rightarrow> (nat \<Rightarrow> bool) \<Rightarrow> int \<Rightarrow> net \<Rightarrow> net res" where
  "thread_init add_ok pipe_ok num s =
     (let s1 = s\<lparr>thread_count := num + 1\<rparr>
      in if num + 1 \<le> 0 then Inl Bad_index
         else if \<not> add_ok then Inr s1
         else if \<exists>i \<in> {1..nat num}. \<not> pipe_ok i then Inl Process_exit
         else Inr (s1\<lparr>pipes := (\<lambda>i. if 1 \<le> i \<and> i \<le> nat num then Some 0 else None)\<rparr>))"

definition thread_num :: "GentConfig \<Rightarrow> int" where
  "thread_num conf = (if config_at conf ''threads'' = [] then 1 else atoi (cstr (config_at conf ''threads'')))"

text \<open>\<open>GentFrame::Run\<close> after the server socket was opened, up to the start of the threads.\<close>

definition Run :: "bool \<Rightarrow> (nat \<Rightarrow> bool) \<Rightarrow> GentConfig \<Rightarrow> net \<Rightarrow> net res" where
  "Run add_ok pipe_ok conf s =
     (let num = thread_num conf;
          s1 = s\<lparr>msgs := (\<lambda>i. if 1 \<le> i \<and> int i \<le> num then msg_Resize MAX_CONNECT 0 GentMsg_new else msgs s i)\<rparr>
      in thread_init add_ok pipe_ok num s1)"

section \<open>Accepting and handing over\<close>

text \<open>\<open>wr\<close>: the byte for the worker could be written.\<close>

definition SendThread :: "bool \<Rightarrow> addr \<Rightarrow> net \<Rightarrow> (bool \<times> net) option res" where
  "SendThread wr d s =
     (let r = (lastid s + 1) mod thread_count s;
          tid = (if r = 0 then 1 else r);
          t = nat tid
      in if full (msgs s t) then Inr None
         else
           rbind (msg_enq d (msgs s t)) (\<lambda>q.
             (let s1 = s\<lparr>msgs := (msgs s)(t := q), lastid := tid\<rparr>
              in if thread_count s \<le> tid then Inl Bad_index
                 else if wr then Inr (Some (True, s1\<lparr>pipes := (pipes s1)(t := map_option Suc (pipes s1 t))\<rparr>))
                 else Inr (Some (False, s1)))))"

text \<open>
  \<open>GentEvent::HandleMain\<close>: what \<open>accept\<close> returned (\<open>None\<close>: no client, or an error), whether the
  descriptor could be made non-blocking. A failed hand-over frees the item and closes the
  descriptor.
\<close>

definition HandleMain :: "dataItem option \<Rightarrow> bool \<Rightarrow> bool \<Rightarrow> net \<Rightarrow> net option res" where
  "HandleMain acc fcntl_ok wr s =
     (case acc of
        None \<Rightarrow> Inr (Some s)
      | Some d \<Rightarrow>
          if \<not> fcntl_ok then Inr (Some s)
          else
            (let a = next_item s;
                 s1 = s\<lparr>pool := (pool s)\<lparr>open_fds := item_sfd d # open_fds (pool s)\<rparr>,
                        items := (items s)(a \<mapsto> d), next_item := a + 1\<rparr>
             in rbind (SendThread wr a s1) (\<lambda>r.
                  (case r of
                     None \<Rightarrow> Inr None
                   | Some (ok, s2) \<Rightarrow>
                       if ok then Inr (Some s2)
                       else Inr (Some (s2\<lparr>items := (items s2)(a := None),
                              pool := (pool s2)\<lparr>open_fds := remove1 (item_sfd d) (open_fds (pool s2))\<rparr>\<rparr>))))))"

text \<open>\<open>GentThread::Handle\<close> of worker \<open>t\<close>; \<open>add_ok\<close>: the event of the connection could be added.\<close>

definition Thread_Handle :: "bool \<Rightarrow> nat \<Rightarrow> net \<Rightarrow> net option res" where
  "Thread_Handle add_ok t s =
     (let s0 = s\<lparr>pipes := (pipes s)(t := map_option (\<lambda>b. b - 1) (pipes s t))\<rparr>
      in rbind (msg_deq (msgs s0 t)) (\<lambda>(r, q).
           (case r of
              None \<Rightarrow> Inr None
            | Some a \<Rightarrow>
                (case items s0 a of
                   None \<Rightarrow> Inl Null_pointer
                 | Some d \<Rightarrow>
                     (let (c, m) = GetConnect (item_sfd d) (pool s0);
                          s1 = s0\<lparr>msgs := (msgs s0)(t := q), items := (items s0)(a := None), pool := m\<rparr>
                      in if add_ok then Inr (Some s1)
                         else rbind (Destruct c m) (\<lambda>m1. rbind (RetConnect c m1) (\<lambda>m2. Inr (Some (s1\<lparr>pool := m2\<rparr>)))))))))"

section \<open>The workers take turns\<close>

text \<open>Worker of the \<open>k\<close>-th client, and the state after \<open>k\<close> clients were handed over.\<close>

definition turn :: "nat \<Rightarrow> nat \<Rightarrow> nat" where
  "turn n k = k mod n + 1"

definition queues :: "nat \<Rightarrow> nat \<Rightarrow> net \<Rightarrow> bool" where
  "queues n k s \<longleftrightarrow> thread_count s = int n + 1 \<and> lastid s = (if k = 0 then 0 else int (turn n (k - 1))) \<and>
     (\<forall>t. 1 \<le> t \<and> t \<le> n \<longrightarrow> (let q = filter (\<lambda>i. turn n i = t) [0..<k] in msg_holds (msgs s t) q \<and> pipes s t = Some (length q)))"

definition handed :: "nat \<Rightarrow> dataItem list \<Rightarrow> net \<Rightarrow> bool" where
  "handed n cs s \<longleftrightarrow> queues n (length cs) s \<and> next_item s = length cs \<and> (\<forall>i < length cs. items s i = Some (cs ! i))"

lemma next_turn:
  assumes "1 \<le> n" "l = (if k = 0 then 0 else int (turn n (k - 1)))"
  shows "(if (l + 1) mod (int n + 1) = 0 then 1 else (l + 1) mod (int n + 1)) = int (turn n k)"
proof (cases k)
  case 0
  then show ?thesis using assms by (simp add: turn_def)
next
  case (Suc j)
  have l: "l = int (j mod n) + 1" using assms(2) Suc by (simp add: turn_def)
  show ?thesis
  proof (cases "Suc (j mod n) = n")
    case True
    then have "l + 1 = int n + 1" "Suc j mod n = 0" using l by (auto simp: mod_Suc)
    then show ?thesis using Suc by (simp add: turn_def)
  next
    case False
    moreover have "j mod n < n" using assms(1) by simp
    ultimately have "l + 1 < int n + 1" "Suc j mod n = Suc (j mod n)" using l by (auto simp: mod_Suc)
    then show ?thesis using Suc l by (simp add: turn_def)
  qed
qed

lemma SendThread_turn:
  assumes "1 \<le> n" "queues n k s" "k < MAX_CONNECT" "t = turn n k"
  obtains q where "SendThread wr d s = Inr (Some (wr, s\<lparr>msgs := (msgs s)(t := q), lastid := int t,
      pipes := (pipes s)(t := (if wr then map_option Suc (pipes s t) else pipes s t))\<rparr>))"
    "msg_holds q (filter (\<lambda>i. turn n i = t) [0..<k] @ [d])"
proof -
  let ?q = "filter (\<lambda>i. turn n i = t) [0..<k]"
  have t: "1 \<le> t" "t \<le> n" using assms(1,4) by (auto simp: turn_def Suc_le_eq)
  have h: "msg_holds (msgs s t) ?q" using assms(2) t by (auto simp: queues_def Let_def)
  have len: "length ?q < MAX_CONNECT" using length_filter_le [of "\<lambda>i. turn n i = t" "[0..<k]"] assms(3) by simp
  from mq.push_rep [OF h len] obtain q where q: "msg_enq d (msgs s t) = Inr q" "msg_holds q (?q @ [d])" by blast
  have nf: "\<not> full (msgs s t)" using h len by (auto simp: msg_holds_def msg_rep_def full_def)
  have c: "thread_count s = int n + 1" "lastid s = (if k = 0 then 0 else int (turn n (k - 1)))" using assms(2) by (simp_all add: queues_def)
  have tid: "(if (lastid s + 1) mod thread_count s = 0 then 1 else (lastid s + 1) mod thread_count s) = int t"
    unfolding c(1) using next_turn [OF assms(1) c(2)] assms(4) by simp
  have "SendThread wr d s = Inr (Some (wr, s\<lparr>msgs := (msgs s)(t := q), lastid := int t,
      pipes := (pipes s)(t := (if wr then map_option Suc (pipes s t) else pipes s t))\<rparr>))"
    unfolding SendThread_def Let_def tid using nf q(1) t c(1) by simp
  then show thesis using that q(2) by blast
qed

lemma HandleMain_handed:
  assumes "1 \<le> n" "handed n cs s" "length cs < MAX_CONNECT"
  shows "\<exists>s'. HandleMain (Some d) True True s = Inr (Some s') \<and> handed n (cs @ [d]) s'"
proof -
  let ?k = "length cs" and ?t = "turn n (length cs)"
  let ?s1 = "s\<lparr>pool := (pool s)\<lparr>open_fds := item_sfd d # open_fds (pool s)\<rparr>, items := (items s)(next_item s \<mapsto> d), next_item := next_item s + 1\<rparr>"
  have k: "next_item s = ?k" and h: "queues n ?k s" using assms(2) by (simp_all add: handed_def)
  have "queues n ?k ?s1" using h by (simp add: queues_def)
  then obtain q where Q: "SendThread True ?k ?s1 = Inr (Some (True, ?s1\<lparr>msgs := (msgs s)(?t := q), lastid := int ?t,
      pipes := (pipes s)(?t := map_option Suc (pipes s ?t))\<rparr>))" "msg_holds q (filter (\<lambda>i. turn n i = ?t) [0..<?k] @ [?k])"
    using SendThread_turn [OF assms(1) _ assms(3) refl, of ?s1 True ?k] by auto
  let ?s2 = "?s1\<lparr>msgs := (msgs s)(?t := q), lastid := int ?t, pipes := (pipes s)(?t := map_option Suc (pipes s ?t))\<rparr>"
  have H: "HandleMain (Some d) True True s = Inr (Some ?s2)" using Q(1) by (simp add: HandleMain_def Let_def k)
  have "msg_holds (msgs ?s2 t) (filter (\<lambda>i. turn n i = t) [0..<Suc ?k]) \<and> pipes ?s2 t = Some (length (filter (\<lambda>i. turn n i = t) [0..<Suc ?k]))"
    if t: "1 \<le> t" "t \<le> n" for t
    using h t Q(2) by (cases "t = ?t") (auto simp: queues_def Let_def)
  then have "queues n (Suc ?k) ?s2" using h by (auto simp: queues_def Let_def)
  then have "handed n (cs @ [d]) ?s2" using assms(2) by (auto simp: handed_def nth_append less_Suc_eq)
  then show ?thesis using H by blast
qed

primrec accept_all :: "dataItem list \<Rightarrow> net \<Rightarrow> net option res" where
  "accept_all [] s = Inr (Some s)"
| "accept_all (d # ds) s = rbind (HandleMain (Some d) True True s) (\<lambda>r. case r of None \<Rightarrow> Inr None | Some s1 \<Rightarrow> accept_all ds s1)"

lemma accept_all_handed:
  assumes "1 \<le> n" "handed n cs s" "length cs + length ds \<le> MAX_CONNECT"
  shows "\<exists>s'. accept_all ds s = Inr (Some s') \<and> handed n (cs @ ds) s'"
  using assms(2,3)
proof (induction ds arbitrary: cs s)
  case (Cons d ds)
  obtain s1 where s1: "HandleMain (Some d) True True s = Inr (Some s1)" "handed n (cs @ [d]) s1"
    using HandleMain_handed [OF assms(1) Cons.prems(1)] Cons.prems(2) by auto
  then show ?case using Cons.IH [OF s1(2)] Cons.prems(2) by simp
qed simp

lemma Run_handed:
  assumes "thread_num conf = int n" "1 \<le> n"
  shows "\<exists>s. Run True (\<lambda>_. True) conf net_new = Inr s \<and> handed n [] s"
  using assms msg_rep_start [of MAX_CONNECT "0 :: addr"]
  by (auto simp: Run_def thread_init_def Let_def handed_def queues_def net_new_def msg_holds_def msg_Resize_def GentMsg_new_def)


definition client :: "int \<Rightarrow> dataItem" where
  "client fd = \<lparr>item_sfd = fd, item_ip = ''10.0.0.1'', item_port = 4000\<rparr>"


section \<open>Two ways to lose the server\<close>

text \<open>
  C36: A failed write to the pipe of a worker leads to a use of freed memory. The item has
  been pushed before the write, \<open>HandleMain\<close> frees it and closes the descriptor, but it stays in
  the queue; when the next client is handed to that worker, the worker takes the freed item.
  Here with one worker and any two clients.
\<close>

theorem failed_notify_dangles:
  assumes "thread_num conf = 1" "Run True (\<lambda>_. True) conf net_new = Inr s0"
  shows "\<exists>s1 s2. HandleMain (Some c1) True False s0 = Inr (Some s1) \<and> HandleMain (Some c2) True True s1 = Inr (Some s2) \<and>
    pipes s2 1 = Some 1 \<and> Thread_Handle add_ok 1 s2 = Inl Null_pointer"
proof -
  have h: "handed 1 [] s0" using Run_handed [of conf 1] assms by auto
  have q0: "queues 1 0 s" "next_item s = 0" if "handed 1 [] s" for s using that by (simp_all add: handed_def)
  let ?a = "s0\<lparr>pool := (pool s0)\<lparr>open_fds := item_sfd c1 # open_fds (pool s0)\<rparr>, items := (items s0)(0 \<mapsto> c1), next_item := 1\<rparr>"
  have big: "0 < MAX_CONNECT" "1 < MAX_CONNECT" by (simp_all add: MAX_CONNECT_def)
  have "queues 1 0 ?a" using q0 [OF h] by (simp add: queues_def)
  then obtain p where p: "SendThread False 0 ?a = Inr (Some (False, ?a\<lparr>msgs := (msgs s0)(1 := p), lastid := 1, pipes := pipes s0\<rparr>))"
    "msg_holds p [0]"
    using SendThread_turn [OF order_refl _ big(1) refl, of ?a False 0] by (auto simp: turn_def)
  let ?s1 = "?a\<lparr>msgs := (msgs s0)(1 := p), lastid := 1, pipes := pipes s0, items := (items s0)(0 := None),
    pool := (pool s0)\<lparr>open_fds := open_fds (pool s0)\<rparr>\<rparr>"
  have H1: "HandleMain (Some c1) True False s0 = Inr (Some ?s1)"
    using p(1) q0(2) [OF h] by (simp add: HandleMain_def Let_def)
  let ?b = "?s1\<lparr>pool := (pool s0)\<lparr>open_fds := item_sfd c2 # open_fds (pool s0)\<rparr>, items := (items ?s1)(1 \<mapsto> c2), next_item := 2\<rparr>"
  have tc: "thread_count s0 = 2" using q0(1) [OF h] by (simp add: queues_def)
  have "length [0 :: addr] < MAX_CONNECT" using big(2) by simp
  from mq.push_rep [OF p(2) this] obtain p' where p': "msg_enq 1 p = Inr p'" "msg_holds p' [0, 1]" by auto
  have nf: "\<not> full p" using p(2) big(2) by (auto simp: msg_holds_def msg_rep_def full_def)
  let ?s2 = "?b\<lparr>msgs := (msgs s0)(1 := p'), lastid := 1, pipes := (pipes s0)(1 := map_option Suc (pipes s0 1))\<rparr>"
  have H2: "HandleMain (Some c2) True True ?s1 = Inr (Some ?s2)"
    using tc nf p'(1) by (simp add: HandleMain_def SendThread_def Let_def)
  from mq.pop_rep [OF p'(2)] obtain p'' where "msg_deq p' = Inr (Some 0, p'')" by blast
  then have "Thread_Handle add_ok 1 ?s2 = Inl Null_pointer" by (simp add: Thread_Handle_def Let_def)
  moreover have "pipes ?s2 1 = Some 1" using q0(1) [OF h] by (simp add: queues_def)
  ultimately show ?thesis using H1 H2 by blast
qed

theorem failed_notify_dangles_witness:
  "\<exists>s0 s1 s2. Run True (\<lambda>_. True) [] net_new = Inr s0 \<and> HandleMain (Some (client 7)) True False s0 = Inr (Some s1) \<and>
     HandleMain (Some (client 7)) True True s1 = Inr (Some s2) \<and> Thread_Handle True 1 s2 = Inl Null_pointer"
proof -
  have n: "thread_num [] = 1" by code_simp
  obtain s0 where r: "Run True (\<lambda>_. True) [] net_new = Inr s0" using Run_handed [of "[]" 1] n by auto
  show ?thesis using failed_notify_dangles [OF n r, of "client 7" "client 7" True] r by blast
qed



end
