(* ===== verification/Util.thy ===== *)
theory Util
  imports CString
begin

text \<open>
  The helpers of \<open>src/gent_util.cpp\<close>. \<open>find_first_not_of\<close> answers \<open>npos\<close> on a blank string,
  and \<open>substr (npos)\<close> throws: trimming is partial.
\<close>

definition blanks :: string where
  "blanks = '' '' @ [LF, CR, CHR 0x09]"

definition LTrim :: "string \<Rightarrow> string res" where
  "LTrim str = (case find_first_not_of str blanks 0 of
      None \<Rightarrow> Inl Out_of_range
    | Some s \<Rightarrow> substr_from str s)"

definition RTrim :: "string \<Rightarrow> string res" where
  "RTrim str = (case find_last_not_of str blanks of
      None \<Rightarrow> substr str 0 0
    | Some n \<Rightarrow> substr str 0 (n + 1))"

definition Trim :: "string \<Rightarrow> string res" where
  "Trim str = rbind (RTrim str) LTrim"

lemma find_first_of_less:
  "find_first_of s cs pos = Some n \<Longrightarrow> pos \<le> n \<and> n < length s"
  using find_first_of_Some(1,2) by blast

text \<open>\<open>GentUtil::Split\<close>; each round of the loop moves \<open>pos\<close> past the delimiter it found.\<close>

function Util_Split_loop :: "string \<Rightarrow> string \<Rightarrow> nat \<Rightarrow> string list \<Rightarrow> string list res" where
  "Util_Split_loop str delimit pos v =
     (case find_first_of str delimit pos of
        None \<Rightarrow>
          rbind (substr_from str pos) (\<lambda>t. rbind (Trim t) (\<lambda>s.
            Inr (if s \<noteq> [] then v @ [s] else v)))
      | Some rpos \<Rightarrow>
          if rpos = pos then Util_Split_loop str delimit (pos + 1) v
          else
            rbind (substr str pos (rpos - pos)) (\<lambda>t. rbind (Trim t) (\<lambda>s.
              Util_Split_loop str delimit (rpos + 1) (if s \<noteq> [] then v @ [s] else v))))"
  by pat_completeness auto
termination
  by (relation "measure (\<lambda>(str, _, pos, _). length str - pos)")
    (auto dest!: find_first_of_less)

declare Util_Split_loop.simps [simp del]

definition Util_Split :: "string \<Rightarrow> string \<Rightarrow> string list res" where
  "Util_Split str delimit = Util_Split_loop str delimit 0 []"

text \<open>\<open>None\<close>: the function returns false. The value is stored into an \<open>int32_t\<close>.\<close>

definition SafeStrtol :: "string \<Rightarrow> int option" where
  "SafeStrtol str =
     (case strtol_raw (cstr str) of
        None \<Rightarrow> None
      | Some (l, endptr) \<Rightarrow>
          if clamp_long l \<noteq> l then None
          else if endptr = [] \<or> is_space (hd endptr) then Some (to_i32 l)
          else None)"

section \<open>Trimming\<close>

definition is_blank :: "string \<Rightarrow> bool" where
  "is_blank s \<longleftrightarrow> set s \<subseteq> set blanks"

definition strip :: "string \<Rightarrow> string" where
  "strip s = dropWhile (\<lambda>c. c \<in> set blanks) (rev (dropWhile (\<lambda>c. c \<in> set blanks) (rev s)))"

lemma LTrim_eq:
  "LTrim s = (if is_blank s then Inl Out_of_range else Inr (dropWhile (\<lambda>c. c \<in> set blanks) s))"
  using length_takeWhile_less [of "\<lambda>c. c \<in> set blanks" s]
  by (auto simp: LTrim_def find_first_not_of_def Let_def is_blank_def dropWhile_eq_drop)

lemma RTrim_eq: "RTrim s = Inr (rev (dropWhile (\<lambda>c. c \<in> set blanks) (rev s)))"
proof (cases "is_blank s")
  case True
  have "\<not> length (takeWhile (\<lambda>c. c \<in> set blanks) (rev s)) < length (rev s)"
    unfolding length_takeWhile_less using True by (auto simp: is_blank_def)
  moreover have "dropWhile (\<lambda>c. c \<in> set blanks) (rev s) = []"
    using True by (auto simp: is_blank_def dropWhile_eq_Nil_conv)
  ultimately show ?thesis by (simp add: RTrim_def find_last_not_of_def Let_def)
next
  case False
  let ?n = "length (takeWhile (\<lambda>c. c \<in> set blanks) (rev s))"
  have n: "?n < length s"
    using False length_takeWhile_less [of "\<lambda>c. c \<in> set blanks" "rev s"] by (auto simp: is_blank_def)
  then have "RTrim s = Inr (take (length s - ?n) s)"
    by (simp add: RTrim_def find_last_not_of_def Let_def Suc_diff_Suc)
  then show ?thesis by (simp add: dropWhile_eq_drop rev_drop)
qed

lemma dropWhile_blank: "set (dropWhile P s) \<subseteq> {c. P c} \<longleftrightarrow> set s \<subseteq> {c. P c}"
  by (induction s) auto

lemma is_blank_rstrip: "is_blank (rev (dropWhile (\<lambda>c. c \<in> set blanks) (rev s))) \<longleftrightarrow> is_blank s"
  using dropWhile_blank [of "\<lambda>c. c \<in> set blanks" "rev s"] by (simp add: is_blank_def)

lemma Trim_strip: "Trim s = (if is_blank s then Inl Out_of_range else Inr (strip s))"
  by (simp add: Trim_def RTrim_eq LTrim_eq strip_def is_blank_rstrip)

lemma SafeStrtol_dec: "n < 2 ^ 31 \<Longrightarrow> SafeStrtol (dec n) = Some (int n)"
  using strtol_raw_dec [of "[]" n]
  by (simp add: SafeStrtol_def cstr_id clamp_long_def to_i32_id)

end
