(* ===== verification/Spec2Isabelle.thy ===== *)
theory Spec2Isabelle
  imports ConnectProps Durability Dispatch Util
begin

text \<open>
  Verification of riser, a key-value server that speaks the Redis protocol and stores its data
  in LevelDB.

  \<^bold>\<open>The program.\<close> \<open>GentFrame::Run\<close> opens the server socket and starts the threads. The main thread
  accepts clients (\<open>GentEvent::HandleMain\<close>) and hands them to worker threads through one
  message queue and one pipe per worker (\<open>GentThread\<close>, \<open>GentMsg\<close>). A worker takes a connection
  object from the pool (\<open>GentAppMgr\<close>) and runs its state machine (\<open>GentConnect::TryRunning\<close>)
  whenever the socket is ready. The command object of the connection (\<open>GentRedis\<close>) splits and
  parses requests, executes them on the database (\<open>GentDb\<close>) and queues changes for the slaves
  (\<open>GentRepMgr\<close>, \<open>GentReplication\<close>). \<open>GentDb\<close> keeps values in one LevelDB database and types, expiry
  times and counters in a second one. LevelDB logs and buffers writes in a memtable, flushes
  it to table files on seven levels, and merges these in a background thread.

  \<^bold>\<open>Conventions.\<close> A C++ string is a list of bytes (\<open>string\<close>). Operations that can throw, exit or
  have undefined behaviour return \<open>cpp_fault + 'a\<close>. Unsigned 64-bit counters are naturals with
  the wrap-around written out (\<open>add64\<close>, \<open>sub64\<close>, \<open>to_u64\<close>), \<open>int\<close> is \<open>int\<close> with \<open>to_i32\<close> where it can
  overflow. \<open>std::map\<close> is a sorted association list. Time, random numbers, outcomes of system
  calls, sizes of files and the contents of uninitialised memory are arguments. Loops that
  may not end take fuel, with a theorem that enough fuel exists or that none is enough.
  Objects whose life time matters (queue nodes, connections, commands, queue items) are
  addresses in an explicit heap.

  \<^bold>\<open>Theories.\<close>
  \<^item> \<open>Prelude\<close>, \<open>CString\<close>, \<open>StdMap\<close>: faults, machine integers, \<open>std::string\<close> and the C library,
    \<open>std::map\<close>; the locales \<open>kv_store\<close> and \<open>kv_batch_store\<close>, the contract of a key-value store.
  \<^item> \<open>Coding\<close>, \<open>LevelDb\<close>: encodings, write batches, memtables, merging and user-level iterators
    (\<open>util/coding.cc\<close>, \<open>db/write_batch.cc\<close>, \<open>db/memtable.cc\<close>, \<open>table/merger.cc\<close>, \<open>db/db_iter.cc\<close>). The
    notion \<open>sees\<close>: the newest entry of a key decides.
  \<^item> \<open>Versions\<close>: the files on their levels, lookups, searches for overlapping files, version edits
    (\<open>db/version_set.cc\<close>). Invariant \<open>version_inv\<close>; lookups find the newest entry; the binary
    search equals a linear one.
  \<^item> \<open>DbImpl\<close>: the write path, flushes, \<open>Get\<close>, snapshots, iterators (\<open>db/db_impl.cc\<close>). Invariant
    \<open>DB_inv\<close>; interpretation of the store contract.
  \<^item> \<open>Compact\<close>, \<open>CompactProps\<close>: compactions. They cannot be observed while no snapshot is held; with
    one they can bring old values back; the size limits overflow.
  \<^item> \<open>CrcTable\<close>, \<open>Crc32c\<close>: \<open>util/crc32c.cc\<close>. The four tables and the unrolled loops compute the bitwise
    CRC-32C, whatever the alignment of the buffer.
  \<^item> \<open>LogFile\<close>, \<open>LogProps\<close>: \<open>db/log_writer.cc\<close>, \<open>db/log_reader.cc\<close>, byte for byte. The locale \<open>record_log\<close>
    is what recovery needs of a log: a file that is cut, or followed by zeros, gives a prefix of
    its records. What happens to a log after a failed append.
  \<^item> \<open>Recovery\<close>, \<open>RecoveryProps\<close>, \<open>Durability\<close>: the log written beside the database and the opening of a
    database (\<open>DBImpl::Write\<close>, \<open>CompactMemTable\<close>, \<open>DeleteObsoleteFiles\<close>, \<open>Recover\<close>, \<open>RecoverLogFile\<close>,
    \<open>DB::Open\<close>). \<open>DBLog\<close> is the database of \<open>DbImpl\<close> with its log files, \<open>Disk\<close> what survives a crash.
    The invariant \<open>dl_inv\<close> says that the logs hold the memtables; a crash at any moment loses at
    most the writes whose bytes are gone, and a failed append can lose a later one.
  \<^item> \<open>Config\<close>, \<open>Util\<close>: \<open>gent_config.cpp\<close>, \<open>gent_util.cpp\<close>.
  \<^item> \<open>Db\<close>, \<open>DbProps\<close>: \<open>gent_db.cpp\<close>. Every operation refines the map from keys to values and expiry
    times, given by \<open>store_of\<close>.
  \<^item> \<open>ListQueue\<close>, \<open>MsgQueue\<close>: \<open>gent_queue_list.h\<close>, \<open>gent_msg.h\<close>. Both interpret the locale \<open>fifo\<close>; the
    message queue also under all interleavings.
  \<^item> \<open>RepFile\<close>, \<open>Repl\<close>, \<open>ReplProps\<close>: \<open>gent_file.h\<close>, \<open>gent_repl.cpp\<close>. Queues of changes per slave and
    what acknowledgements remove.
  \<^item> \<open>Redis\<close>, \<open>RedisProps\<close>, \<open>Protocol\<close>: \<open>gent_redis.cpp\<close>. Requests as bytes, their effect and replies,
    authentication, requests that crash the server.
  \<^item> \<open>Connect\<close>, \<open>ConnectProps\<close>: \<open>gent_connect.cpp\<close>. The state machine over an explicit socket.
  \<^item> \<open>AppMgr\<close>, \<open>Dispatch\<close>: \<open>gent_app_mgr.cpp\<close>, \<open>gent_thread.cpp\<close>, \<open>gent_frame.cpp\<close>, \<open>gent_event.cpp\<close>. The pool
    under all interleavings of the threads, and how clients reach the workers.

  \<^bold>\<open>Bounds.\<close> Keys and values are shorter than \<open>2 ^ 32\<close> bytes (LevelDB's length encoding) where a
  theorem says \<open>key_fits\<close> or \<open>pair_fits\<close>. Sequence numbers are unbounded (56 bits in the code),
  and below \<open>2 ^ 31\<close> where logs are replayed. Record lengths, block offsets and the number of blocks
  of a log file are unbounded; its functions recurse on the bytes that are left. \<open>TryRunning\<close>
  and the send loop take fuel: for a socket that takes data some amount is enough, and so is
  every larger one (\<open>TryRunning_returns\<close>). The message queues hold \<open>MAX_CONNECT\<close> items.

  \<^bold>\<open>Not modelled.\<close> Of LevelDB: the skip list below the memtable (a sorted list here), the format of
  table files (a list of entries here) with blocks, filters and compression, caches, the file
  format of the manifest (the values written last are kept), the lock and \<open>CURRENT\<close> files, logs that
  were closed but did not reach the disk when the machine fails, backward iteration, group
  commit of concurrent writers, manual compactions. The memcache protocol
  (\<open>gent_level.cpp\<close>) and the bloom filter of \<open>gent_list.cpp\<close>, which no configuration reaches:
  \<open>GentFrame::Init\<close> only registers \<open>GentRedis\<close>. The command-line client (\<open>riser-cli.cpp\<close>), \<open>linenoise\<close> and
  \<open>hiredis\<close>, a separate program. \<open>libevent\<close>: the server relies on its callbacks only, which are
  steps here. \<open>main\<close>, signal handling and logging, which are input and output.
\<close>

end
